(* ===== verification/Prelude.thy ===== *)
theory Prelude
  imports Complex_Main
begin

text \<open>
  Shared vocabulary of the development: the collections of simplification rules that the
  component theories extend, and Go's fixed-width signed integers as \<open>int\<close> with the
  wrap-around written out.
\<close>

named_theorems go_int_simps \<open>wrap-around and conversion of Go integers\<close>
named_theorems go_float_simps \<open>Go float64 operations on finite values\<close>

section \<open>Go integers\<close>

text \<open>
  \<open>int\<close> is 64 bits wide on the platforms the library targets, so \<open>int\<close> and \<open>int64\<close>
  share one wrap-around. \<open>i32\<close> is the conversion \<open>int32(x)\<close> as well as the result of 32-bit
  arithmetic; \<open>i64\<close> the same for 64 bits; \<open>u64\<close> is \<open>uint64(x)\<close>.
\<close>

definition i32 :: "int \<Rightarrow> int" where
  "i32 x = (x + 2 ^ 31) mod 2 ^ 32 - 2 ^ 31"

definition i64 :: "int \<Rightarrow> int" where
  "i64 x = (x + 2 ^ 63) mod 2 ^ 64 - 2 ^ 63"

definition u64 :: "int \<Rightarrow> int" where
  "u64 x = x mod 2 ^ 64"

abbreviation MaxInt64 :: int where
  "MaxInt64 \<equiv> 2 ^ 63 - 1"

abbreviation MinInt64 :: int where
  "MinInt64 \<equiv> - (2 ^ 63)"

definition in_i32 :: "int \<Rightarrow> bool" where
  "in_i32 x \<longleftrightarrow> - (2 ^ 31) \<le> x \<and> x < 2 ^ 31"

definition in_i64 :: "int \<Rightarrow> bool" where
  "in_i64 x \<longleftrightarrow> - (2 ^ 63) \<le> x \<and> x < 2 ^ 63"

lemma i32_id [go_int_simps]: "in_i32 x \<Longrightarrow> i32 x = x"
  by (simp add: i32_def in_i32_def)

lemma i64_id [go_int_simps]: "in_i64 x \<Longrightarrow> i64 x = x"
  by (simp add: i64_def in_i64_def)

lemma in_i32_i32 [simp]: "in_i32 (i32 x)"
proof -
  have "0 \<le> (x + 2 ^ 31) mod 2 ^ 32" and "(x + 2 ^ 31) mod 2 ^ 32 < (2 ^ 32 :: int)"
    by simp_all
  then show ?thesis by (simp add: i32_def in_i32_def)
qed

lemma in_i64_i64 [simp]: "in_i64 (i64 x)"
proof -
  have "0 \<le> (x + 2 ^ 63) mod 2 ^ 64" and "(x + 2 ^ 63) mod 2 ^ 64 < (2 ^ 64 :: int)"
    by simp_all
  then show ?thesis by (simp add: i64_def in_i64_def)
qed

lemma in_i64_abs: "\<bar>x\<bar> \<le> 2 ^ 62 \<Longrightarrow> in_i64 x"
  by (simp add: in_i64_def abs_le_iff)

lemma in_i64_nonneg: "0 \<le> x \<Longrightarrow> x \<le> 2 ^ 53 \<Longrightarrow> in_i64 x"
  by (simp add: in_i64_def)

text \<open>Go's integer division truncates towards zero.\<close>

definition quot :: "int \<Rightarrow> int \<Rightarrow> int" where
  "quot a b = sgn a * sgn b * (\<bar>a\<bar> div \<bar>b\<bar>)"

lemma quot_nonneg: "0 \<le> a \<Longrightarrow> 0 < b \<Longrightarrow> quot a b = a div b"
  by (cases "a = 0") (simp_all add: quot_def sgn_if)

text \<open>The one quotient that overflows, the least integer by \<open>- 1\<close>, wraps to itself.\<close>

definition quot64 :: "int \<Rightarrow> int \<Rightarrow> int" where
  "quot64 a b = i64 (quot a b)"

lemma in_i64_quot64 [simp]: "in_i64 (quot64 a b)"
  by (simp add: quot64_def)

lemma quot64_nonneg: "0 \<le> a \<Longrightarrow> a < 2 ^ 63 \<Longrightarrow> 0 < b \<Longrightarrow> quot64 a b = a div b"
proof -
  assume a: "0 \<le> a" "a < 2 ^ 63" "0 < b"
  then have "0 \<le> a div b" "a div b \<le> a div 1" by (simp_all only: pos_imp_zdiv_nonneg_iff) (intro zdiv_mono2, simp_all)
  then have "in_i64 (a div b)" using a by (simp add: in_i64_def)
  then show ?thesis using a by (simp add: quot64_def quot_nonneg i64_id)
qed

section \<open>Lists\<close>

text \<open>Counting the entries that satisfy a predicate across an update at one index.\<close>

lemma length_filter_update:
  assumes "i < length xs"
  shows "length (filter P (xs[i := x])) + (if P (xs ! i) then 1 else 0)
       = length (filter P xs) + (if P x then 1 else 0)"
proof -
  have upd: "xs[i := x] = take i xs @ x # drop (Suc i) xs"
    using assms by (rule upd_conv_take_nth_drop)
  have xs: "xs = take i xs @ xs ! i # drop (Suc i) xs"
    using assms by (rule id_take_nth_drop)
  have "length (filter P xs) = length (filter P (take i xs @ xs ! i # drop (Suc i) xs))"
    by (subst xs) (rule refl)
  then show ?thesis by (simp add: upd)
qed

end
