(* ===== verification/Float64.thy ===== *)
theory Float64
  imports Prelude
begin

text \<open>
  Go's \<open>float64\<close>: IEEE-754 binary64 with round-to-nearest, ties to even. A value is a finite
  real, an infinity or NaN. Every arithmetic operation computes the exact real result and
  rounds it once (\<open>rnd\<close>), as the amd64 code the Go compiler emits does (it fuses no
  multiply-add there). The sign of a zero is not kept: the library divides only by values
  that come from integers, averages or user-given ratios, whose zeros are \<open>+0\<close>.
  The theory holds the rounding function, its monotonicity, exactness on the
  representable numbers, and the bounds the limit algorithms rest on.
\<close>

section \<open>Rounding to 53 significant bits\<close>

definition quantum_exp :: "real \<Rightarrow> int" where
  "quantum_exp x = max (- 1074) (\<lfloor>log 2 \<bar>x\<bar>\<rfloor> - 52)"

definition rne :: "real \<Rightarrow> int" where
  "rne x = (let f = \<lfloor>x\<rfloor>; d = x - of_int f in
     if d < 1 / 2 then f else if 1 / 2 < d then f + 1 else if even f then f else f + 1)"

definition rnd :: "real \<Rightarrow> real" where
  "rnd x = (if x = 0 then 0
     else of_int (rne (x / 2 powi quantum_exp x)) * 2 powi quantum_exp x)"

definition representable :: "real \<Rightarrow> bool" where
  "representable x \<longleftrightarrow> rnd x = x"

subsection \<open>Round half to even on the integers\<close>

lemma rne_of_int [simp]: "rne (of_int n) = n"
  by (simp add: rne_def)

lemma rne_cases: "rne x = \<lfloor>x\<rfloor> \<and> x - of_int \<lfloor>x\<rfloor> \<le> 1 / 2 \<or> rne x = \<lfloor>x\<rfloor> + 1 \<and> 1 / 2 \<le> x - of_int \<lfloor>x\<rfloor>"
  by (auto simp: rne_def Let_def)

lemma rne_error: "\<bar>of_int (rne x) - x\<bar> \<le> 1 / 2"
  using rne_cases [of x] floor_correct [of x] by auto

lemma rne_mono: "x \<le> y \<Longrightarrow> rne x \<le> rne y"
proof -
  assume xy: "x \<le> y"
  then have fl: "\<lfloor>x\<rfloor> \<le> \<lfloor>y\<rfloor>" by (rule floor_mono)
  show ?thesis
  proof (cases "\<lfloor>x\<rfloor> = \<lfloor>y\<rfloor>")
    case True
    then show ?thesis using xy by (auto simp: rne_def Let_def)
  next
    case False
    with fl have "\<lfloor>x\<rfloor> + 1 \<le> \<lfloor>y\<rfloor>" by linarith
    moreover have "rne x \<le> \<lfloor>x\<rfloor> + 1" and "\<lfloor>y\<rfloor> \<le> rne y"
      using rne_cases [of x] rne_cases [of y] by auto
    ultimately show ?thesis by linarith
  qed
qed

lemma rne_minus: "rne (- x) = - rne x"
proof (cases "x = of_int \<lfloor>x\<rfloor>")
  case True
  then have "rne (- x) = rne (of_int (- \<lfloor>x\<rfloor>))" by simp
  also have "\<dots> = - rne (of_int \<lfloor>x\<rfloor>)" by (simp only: rne_of_int)
  finally show ?thesis using True by simp
next
  case False
  then have "of_int \<lfloor>x\<rfloor> < x" using of_int_floor_le [of x] by linarith
  moreover have "x < of_int \<lfloor>x\<rfloor> + 1" by linarith
  ultimately have "\<lfloor>- x\<rfloor> = - \<lfloor>x\<rfloor> - 1"
    unfolding floor_eq_iff by (simp del: floor_less_iff le_floor_iff) linarith
  then show ?thesis by (auto simp: rne_def Let_def)
qed

subsection \<open>The quantum of a number\<close>

lemma powr_of_int_2: "2 powr of_int k = (2::real) powi k"
  by (simp add: powr_real_of_int')

lemma floor_log2_bounds:
  assumes "x \<noteq> 0"
  shows "2 powi \<lfloor>log 2 \<bar>x\<bar>\<rfloor> \<le> \<bar>x\<bar>" and "\<bar>x\<bar> < 2 powi (\<lfloor>log 2 \<bar>x\<bar>\<rfloor> + 1)"
proof -
  let ?k = "\<lfloor>log 2 \<bar>x\<bar>\<rfloor>"
  have x: "2 powr log 2 \<bar>x\<bar> = \<bar>x\<bar>" using assms by simp
  have "2 powr of_int ?k \<le> 2 powr log 2 \<bar>x\<bar>" by (intro powr_mono) auto
  then show "2 powi ?k \<le> \<bar>x\<bar>" by (simp only: x powr_of_int_2)
  have "2 powr log 2 \<bar>x\<bar> < 2 powr of_int (?k + 1)" by (intro powr_less_mono) linarith+
  then show "\<bar>x\<bar> < 2 powi (?k + 1)" by (simp only: x powr_of_int_2)
qed

lemma floor_log2_eqI:
  assumes "2 powi k \<le> \<bar>x\<bar>" and "\<bar>x\<bar> < 2 powi (k + 1)"
  shows "\<lfloor>log 2 \<bar>x\<bar>\<rfloor> = k"
proof -
  have "(0::real) < 2 powi k" by simp
  with assms(1) have pos: "0 < \<bar>x\<bar>" by linarith
  have "2 powr of_int k \<le> \<bar>x\<bar>" and "\<bar>x\<bar> < 2 powr of_int (k + 1)"
    using assms by (simp_all only: powr_of_int_2)
  with pos have "of_int k \<le> log 2 \<bar>x\<bar>" and "log 2 \<bar>x\<bar> < of_int (k + 1)"
    by (simp_all add: le_log_iff log_less_iff)
  then show ?thesis by (simp add: floor_eq_iff)
qed

lemma rnd_0 [simp]: "rnd 0 = 0"
  by (simp add: rnd_def)

lemma rnd_minus: "rnd (- x) = - rnd x"
  by (simp add: rnd_def quantum_exp_def rne_minus)

lemma quantum_exp_ge: "- 1074 \<le> quantum_exp x"
  by (simp add: quantum_exp_def)

lemma quantum_exp_eqI:
  assumes "2 powi (k + 52) \<le> \<bar>x\<bar>" and "\<bar>x\<bar> < 2 powi (k + 53)" and "- 1074 \<le> k"
  shows "quantum_exp x = k"
  using floor_log2_eqI [of "k + 52" x] assms by (simp add: quantum_exp_def add.assoc)

lemma quantum_exp_le:
  assumes "x \<noteq> 0" and "\<bar>x\<bar> < 2 powi (k + 53)" and "- 1074 \<le> k"
  shows "quantum_exp x \<le> k"
proof -
  have "2 powi \<lfloor>log 2 \<bar>x\<bar>\<rfloor> < (2::real) powi (k + 53)"
    using floor_log2_bounds(1) [OF assms(1)] assms(2) by linarith
  then have "\<lfloor>log 2 \<bar>x\<bar>\<rfloor> < k + 53"
    using power_int_increasing [of "k + 53" "\<lfloor>log 2 \<bar>x\<bar>\<rfloor>" "2::real"] by force
  then show ?thesis using assms(3) by (simp add: quantum_exp_def)
qed

subsection \<open>Exactness\<close>

lemma rnd_dyadic_aux:
  assumes "\<bar>of_int m :: real\<bar> < 2 ^ 53" and "- 1074 \<le> e"
  shows "rnd (of_int m * 2 powi e) = of_int m * 2 powi e"
proof (cases "m = 0")
  case True
  then show ?thesis by simp
next
  case False
  let ?x = "of_int m * 2 powi e :: real" and ?q = "quantum_exp (of_int m * 2 powi e)"
  have pos: "(0::real) < 2 powi e" by simp
  have "\<bar>?x\<bar> < 2 ^ 53 * 2 powi e"
    using assms(1) pos by (simp add: abs_mult)
  also have "\<dots> = 2 powi (e + 53)" by (simp add: power_int_add)
  finally have "?q \<le> e" using False assms(2) by (intro quantum_exp_le) auto
  then have split: "(2::real) powi e = 2 powi ?q * 2 ^ nat (e - ?q)"
    by (metis add.commute diff_add_cancel int_nat_eq le_iff_diff_le_0 minus_diff_eq
        neg_le_0_iff_le power_int_add power_int_of_nat rel_simps(76) mult.commute)
  have "?x / 2 powi ?q = of_int (m * 2 ^ nat (e - ?q))"
    by (subst (1) split) simp
  then have "rne (?x / 2 powi ?q) = m * 2 ^ nat (e - ?q)" by (simp only: rne_of_int)
  then have "rnd ?x = of_int m * (2 powi ?q * 2 ^ nat (e - ?q))"
    using False by (simp add: rnd_def)
  then show ?thesis by (simp only: split [symmetric])
qed

lemma rnd_dyadic:
  assumes "\<bar>m\<bar> \<le> 2 ^ 53" and "- 1074 \<le> e"
  shows "rnd (of_int m * 2 powi e) = of_int m * 2 powi e"
proof (cases "\<bar>m\<bar> = 2 ^ 53")
  case True
  then have "m = 2 ^ 53 \<or> m = - (2 ^ 53)" by (auto simp: abs_if split: if_splits)
  then have "of_int m * 2 powi e = of_int (m div 2) * (2::real) powi (e + 1)"
    and "\<bar>of_int (m div 2) :: real\<bar> < 2 ^ 53"
    by (auto simp: power_int_add)
  then show ?thesis using rnd_dyadic_aux [of "m div 2" "e + 1"] assms(2) by simp
next
  case False
  with assms(1) have "\<bar>m\<bar> < 2 ^ 53" by linarith
  then have "of_int \<bar>m\<bar> < (of_int (2 ^ 53) :: real)" by (simp only: of_int_less_iff)
  then show ?thesis using rnd_dyadic_aux [of m e] assms(2) by simp
qed

lemma rnd_of_int: "\<bar>n\<bar> \<le> 2 ^ 53 \<Longrightarrow> rnd (of_int n) = of_int n"
  using rnd_dyadic [of n 0] by simp

lemma rnd_form:
  obtains m where "rnd x = of_int m * 2 powi quantum_exp x" and "\<bar>m\<bar> \<le> 2 ^ 53"
proof (cases "x = 0")
  case True
  then show ?thesis by (intro that [of 0]) simp_all
next
  case False
  let ?q = "quantum_exp x"
  have q: "\<lfloor>log 2 \<bar>x\<bar>\<rfloor> + 1 \<le> ?q + 53" by (simp add: quantum_exp_def)
  have "\<bar>x\<bar> < 2 powi (\<lfloor>log 2 \<bar>x\<bar>\<rfloor> + 1)" using False by (rule floor_log2_bounds)
  also have "\<dots> \<le> 2 powi (?q + 53)" using q by (intro power_int_increasing) simp_all
  also have "\<dots> = 2 ^ 53 * 2 powi ?q" by (simp add: power_int_add)
  finally have "\<bar>x / 2 powi ?q\<bar> \<le> of_int (2 ^ 53)" by (simp add: abs_divide divide_le_eq)
  then have "x / 2 powi ?q \<le> of_int (2 ^ 53)" and "of_int (- (2 ^ 53)) \<le> x / 2 powi ?q" by linarith+
  then have "rne (x / 2 powi ?q) \<le> 2 ^ 53" and "- (2 ^ 53) \<le> rne (x / 2 powi ?q)"
    using rne_mono rne_of_int by metis+
  then show ?thesis using False by (intro that [of "rne (x / 2 powi ?q)"]) (simp_all add: rnd_def)
qed

lemma rnd_rnd [simp]: "rnd (rnd x) = rnd x"
proof -
  obtain m where m: "rnd x = of_int m * 2 powi quantum_exp x" "\<bar>m\<bar> \<le> 2 ^ 53" by (rule rnd_form)
  then show ?thesis using rnd_dyadic [of m "quantum_exp x"] quantum_exp_ge by simp
qed

lemma representable_rnd [simp]: "representable (rnd x)"
  by (simp add: representable_def)

subsection \<open>Monotonicity\<close>

lemma rnd_le_pow2:
  assumes "0 < x" and "x \<le> 2 powi K" and "quantum_exp x \<le> K"
  shows "rnd x \<le> 2 powi K"
proof -
  let ?q = "quantum_exp x"
  have split: "(2::real) powi K = of_int (2 ^ nat (K - ?q)) * 2 powi ?q"
    using assms(3) power_int_add [of "2::real" "K - ?q" ?q] by (simp add: power_int_def)
  have "x / 2 powi ?q \<le> of_int (2 ^ nat (K - ?q))"
    using assms(2) split by (simp add: divide_le_eq)
  then have "rne (x / 2 powi ?q) \<le> 2 ^ nat (K - ?q)" using rne_mono rne_of_int by metis
  then have "of_int (rne (x / 2 powi ?q)) \<le> (of_int (2 ^ nat (K - ?q)) :: real)"
    by (simp only: of_int_le_iff)
  then show ?thesis using assms(1) split by (simp add: rnd_def mult_right_mono)
qed

lemma rnd_ge_pow2:
  assumes "0 < x" and "2 powi K \<le> x" and "quantum_exp x \<le> K"
  shows "2 powi K \<le> rnd x"
proof -
  let ?q = "quantum_exp x"
  have split: "(2::real) powi K = of_int (2 ^ nat (K - ?q)) * 2 powi ?q"
    using assms(3) power_int_add [of "2::real" "K - ?q" ?q] by (simp add: power_int_def)
  have "of_int (2 ^ nat (K - ?q)) \<le> x / 2 powi ?q"
    using assms(2) split by (simp add: le_divide_eq)
  then have "2 ^ nat (K - ?q) \<le> rne (x / 2 powi ?q)" using rne_mono rne_of_int by metis
  then have "(of_int (2 ^ nat (K - ?q)) :: real) \<le> of_int (rne (x / 2 powi ?q))"
    by (simp only: of_int_le_iff)
  then show ?thesis using assms(1) split by (simp add: rnd_def mult_right_mono)
qed

lemma rnd_nonneg: "0 \<le> x \<Longrightarrow> 0 \<le> rnd x"
proof -
  assume "0 \<le> x"
  then have "rne 0 \<le> rne (x / 2 powi quantum_exp x)" by (intro rne_mono) simp
  then have "0 \<le> rne (x / 2 powi quantum_exp x)" using rne_of_int [of 0] by simp
  then show ?thesis by (simp add: rnd_def)
qed

lemma rnd_mono_pos:
  assumes "0 < x" and "x \<le> y"
  shows "rnd x \<le> rnd y"
proof (cases "quantum_exp x = quantum_exp y")
  case True
  have "rne (x / 2 powi quantum_exp y) \<le> rne (y / 2 powi quantum_exp y)"
    using assms(2) by (intro rne_mono divide_right_mono) simp_all
  then show ?thesis using assms True by (simp add: rnd_def)
next
  case False
  have lg: "\<lfloor>log 2 \<bar>x\<bar>\<rfloor> \<le> \<lfloor>log 2 \<bar>y\<bar>\<rfloor>" using assms by (intro floor_mono) simp
  define K where "K = \<lfloor>log 2 \<bar>y\<bar>\<rfloor>"
  from False lg have ky: "quantum_exp y = K - 52" and kx: "quantum_exp x < K - 52"
    and less: "\<lfloor>log 2 \<bar>x\<bar>\<rfloor> + 1 \<le> K"
    by (auto simp: quantum_exp_def K_def max_def split: if_splits)
  have "x < 2 powi (\<lfloor>log 2 \<bar>x\<bar>\<rfloor> + 1)" using floor_log2_bounds(2) [of x] assms(1) by simp
  also have "\<dots> \<le> 2 powi K" using less by (intro power_int_increasing) simp_all
  finally have "rnd x \<le> 2 powi K" using assms(1) kx by (intro rnd_le_pow2) simp_all
  also have "2 powi K \<le> rnd y"
    using floor_log2_bounds(1) [of y] assms ky by (intro rnd_ge_pow2) (simp_all add: K_def)
  finally show ?thesis .
qed

lemma rnd_mono: "x \<le> y \<Longrightarrow> rnd x \<le> rnd y"
proof -
  assume xy: "x \<le> y"
  consider "0 < x" | "x \<le> 0" "0 \<le> y" | "y < 0" by linarith
  then show ?thesis
  proof cases
    case 1
    then show ?thesis using xy by (rule rnd_mono_pos)
  next
    case 2
    then have "0 \<le> rnd y" and "0 \<le> rnd (- x)" by (simp_all add: rnd_nonneg)
    then show ?thesis by (simp add: rnd_minus)
  next
    case 3
    then have "rnd (- y) \<le> rnd (- x)" using xy by (intro rnd_mono_pos) simp_all
    then show ?thesis by (simp add: rnd_minus)
  qed
qed

text \<open>Comparisons with representable bounds survive rounding.\<close>

lemma rnd_le: "representable b \<Longrightarrow> x \<le> b \<Longrightarrow> rnd x \<le> b"
  using rnd_mono [of x b] by (simp add: representable_def)

lemma rnd_ge: "representable b \<Longrightarrow> b \<le> x \<Longrightarrow> b \<le> rnd x"
  using rnd_mono [of b x] by (simp add: representable_def)

lemma representable_of_int: "\<bar>n\<bar> \<le> 2 ^ 53 \<Longrightarrow> representable (of_int n)"
  by (simp add: representable_def rnd_of_int)

lemma representable_dyadic:
  "\<bar>m\<bar> \<le> 2 ^ 53 \<Longrightarrow> - 1074 \<le> e \<Longrightarrow> representable (of_int m * 2 powi e)"
  by (simp add: representable_def rnd_dyadic)

lemma representable_pow2: "- 1074 \<le> e \<Longrightarrow> representable (2 powi e)"
  using representable_dyadic [of 1 e] by simp

lemma representable_minus: "representable x \<Longrightarrow> representable (- x)"
  by (simp add: representable_def rnd_minus)

text \<open>The rounding error is at most half a unit of the operand's quantum.\<close>

lemma rnd_error: "\<bar>rnd x - x\<bar> \<le> 2 powi (quantum_exp x - 1)"
proof (cases "x = 0")
  case True
  then show ?thesis by simp
next
  case False
  let ?q = "quantum_exp x"
  have "rnd x - x = (of_int (rne (x / 2 powi ?q)) - x / 2 powi ?q) * 2 powi ?q"
    using False by (simp add: rnd_def algebra_simps)
  then have "\<bar>rnd x - x\<bar> = \<bar>of_int (rne (x / 2 powi ?q)) - x / 2 powi ?q\<bar> * 2 powi ?q"
    by (simp add: abs_mult)
  also have "\<dots> \<le> 1 / 2 * 2 powi ?q" by (intro mult_right_mono rne_error) simp
  also have "\<dots> = 2 powi (?q - 1)" by (simp add: power_int_diff)
  finally show ?thesis .
qed

subsection \<open>Evaluation\<close>

text \<open>
  Rounding of a concrete number: scale it by a power of two into \<open>[2 ^ 52, 2 ^ 53)\<close> and round
  there. The second form gives the mantissa.
\<close>

lemma rnd_eval:
  assumes "2 ^ 52 \<le> \<bar>x\<bar> * 2 ^ k" and "\<bar>x\<bar> * 2 ^ k < 2 ^ 53" and "k \<le> 1074"
  shows "rnd x = of_int (rne (x * 2 ^ k)) / 2 ^ k"
proof -
  have pk: "(2::real) powi (- int k) = 1 / 2 ^ k" by (simp add: power_int_minus divide_inverse)
  have "quantum_exp x = - int k"
  proof (rule quantum_exp_eqI)
    have "(2::real) powi (- int k + 52) = 2 ^ 52 / 2 ^ k"
      using power_int_add [of "2::real" "- int k" 52] pk by simp
    then show "2 powi (- int k + 52) \<le> \<bar>x\<bar>" using assms(1) by (simp add: divide_le_eq)
    have "(2::real) powi (- int k + 53) = 2 ^ 53 / 2 ^ k"
      using power_int_add [of "2::real" "- int k" 53] pk by simp
    then show "\<bar>x\<bar> < 2 powi (- int k + 53)" using assms(2) by (simp add: less_divide_eq)
    show "- 1074 \<le> - int k" using assms(3) by simp
  qed
  moreover have "x \<noteq> 0" using assms(1) by auto
  ultimately show ?thesis by (simp add: rnd_def pk)
qed

lemma rne_eqI: "\<bar>x - of_int m\<bar> < 1 / 2 \<Longrightarrow> rne x = m"
proof -
  assume "\<bar>x - of_int m\<bar> < 1 / 2"
  then have "\<bar>of_int (rne x) - of_int m :: real\<bar> < 1" using rne_error [of x] by linarith
  then have "\<bar>rne x - m\<bar> < 1" by linarith
  then show ?thesis by linarith
qed

lemma rnd_eqI:
  assumes "2 ^ 52 \<le> \<bar>x\<bar> * 2 ^ k" and "\<bar>x\<bar> * 2 ^ k < 2 ^ 53" and "k \<le> 1074"
    and "\<bar>x * 2 ^ k - of_int m\<bar> < 1 / 2"
  shows "rnd x = of_int m / 2 ^ k"
  using rnd_eval [OF assms(1-3)] rne_eqI [OF assms(4)] by simp

section \<open>Values and operations\<close>

datatype float64 = Fin real | PInf | NInf | NaN

text \<open>Rounding an exact result; overflow gives an infinity.\<close>

definition huge :: real where
  "huge = 2 ^ 1024"

definition mk :: "real \<Rightarrow> float64" where
  "mk x = (let r = rnd x in if huge \<le> r then PInf else if r \<le> - huge then NInf else Fin r)"

text \<open>\<open>float64(n)\<close> of an integer, and a decimal constant of the source.\<close>

definition f64 :: "int \<Rightarrow> float64" where
  "f64 n = mk (of_int n)"

abbreviation lit :: "real \<Rightarrow> float64" where
  "lit x \<equiv> mk x"

fun is_float :: "float64 \<Rightarrow> bool" where
  "is_float (Fin x) = (representable x \<and> \<bar>x\<bar> < huge)"
| "is_float _ = True"

fun inf_of_sign :: "bool \<Rightarrow> float64" where
  "inf_of_sign pos = (if pos then PInf else NInf)"

fun fadd :: "float64 \<Rightarrow> float64 \<Rightarrow> float64" where
  "fadd (Fin x) (Fin y) = mk (x + y)"
| "fadd NaN _ = NaN"
| "fadd _ NaN = NaN"
| "fadd PInf NInf = NaN"
| "fadd NInf PInf = NaN"
| "fadd PInf _ = PInf"
| "fadd _ PInf = PInf"
| "fadd NInf _ = NInf"
| "fadd _ NInf = NInf"

fun fneg :: "float64 \<Rightarrow> float64" where
  "fneg (Fin x) = Fin (- x)"
| "fneg PInf = NInf"
| "fneg NInf = PInf"
| "fneg NaN = NaN"

definition fsub :: "float64 \<Rightarrow> float64 \<Rightarrow> float64" where
  "fsub a b = fadd a (fneg b)"

fun fmul :: "float64 \<Rightarrow> float64 \<Rightarrow> float64" where
  "fmul (Fin x) (Fin y) = mk (x * y)"
| "fmul NaN _ = NaN"
| "fmul _ NaN = NaN"
| "fmul (Fin x) PInf = (if x = 0 then NaN else inf_of_sign (0 < x))"
| "fmul (Fin x) NInf = (if x = 0 then NaN else inf_of_sign (x < 0))"
| "fmul PInf (Fin y) = (if y = 0 then NaN else inf_of_sign (0 < y))"
| "fmul NInf (Fin y) = (if y = 0 then NaN else inf_of_sign (y < 0))"
| "fmul PInf PInf = PInf"
| "fmul NInf NInf = PInf"
| "fmul PInf NInf = NInf"
| "fmul NInf PInf = NInf"

fun fdiv :: "float64 \<Rightarrow> float64 \<Rightarrow> float64" where
  "fdiv (Fin x) (Fin y) =
     (if y = 0 then (if x = 0 then NaN else inf_of_sign (0 < x)) else mk (x / y))"
| "fdiv NaN _ = NaN"
| "fdiv _ NaN = NaN"
| "fdiv (Fin x) _ = Fin 0"
| "fdiv PInf (Fin y) = inf_of_sign (0 \<le> y)"
| "fdiv NInf (Fin y) = inf_of_sign (y < 0)"
| "fdiv _ _ = NaN"

fun fless :: "float64 \<Rightarrow> float64 \<Rightarrow> bool" where
  "fless (Fin x) (Fin y) = (x < y)"
| "fless NInf (Fin y) = True"
| "fless NInf PInf = True"
| "fless (Fin x) PInf = True"
| "fless _ _ = False"

fun feq :: "float64 \<Rightarrow> float64 \<Rightarrow> bool" where
  "feq (Fin x) (Fin y) = (x = y)"
| "feq PInf PInf = True"
| "feq NInf NInf = True"
| "feq _ _ = False"

definition fle :: "float64 \<Rightarrow> float64 \<Rightarrow> bool" where
  "fle a b \<longleftrightarrow> fless a b \<or> feq a b"

text \<open>\<open>math.Max\<close>, \<open>math.Min\<close>, \<open>math.Ceil\<close>, \<open>math.Sqrt\<close> and \<open>math.Pow(x, 2)\<close>.\<close>

definition fmax :: "float64 \<Rightarrow> float64 \<Rightarrow> float64" where
  "fmax a b = (if a = PInf \<or> b = PInf then PInf
     else if a = NaN \<or> b = NaN then NaN else if fless b a then a else b)"

definition fmin :: "float64 \<Rightarrow> float64 \<Rightarrow> float64" where
  "fmin a b = (if a = NInf \<or> b = NInf then NInf
     else if a = NaN \<or> b = NaN then NaN else if fless a b then a else b)"

fun fceil :: "float64 \<Rightarrow> float64" where
  "fceil (Fin x) = Fin (of_int \<lceil>x\<rceil>)"
| "fceil a = a"

fun fsqrt :: "float64 \<Rightarrow> float64" where
  "fsqrt (Fin x) = (if x < 0 then NaN else mk (sqrt x))"
| "fsqrt PInf = PInf"
| "fsqrt _ = NaN"

definition fsquare :: "float64 \<Rightarrow> float64" where
  "fsquare a = fmul a a"

text \<open>
  Conversion to an integer truncates towards zero. Out of range (and for NaN and the
  infinities) the Go specification leaves the result to the implementation; the model takes
  amd64's "integer indefinite" value, the most negative integer of the width.
\<close>

definition trunc :: "real \<Rightarrow> int" where
  "trunc x = (if x < 0 then \<lceil>x\<rceil> else \<lfloor>x\<rfloor>)"

fun f2i :: "float64 \<Rightarrow> int" where
  "f2i (Fin x) = (if in_i64 (trunc x) then trunc x else MinInt64)"
| "f2i _ = MinInt64"

fun f2i32 :: "float64 \<Rightarrow> int" where
  "f2i32 (Fin x) = (if in_i32 (trunc x) then trunc x else - (2 ^ 31))"
| "f2i32 _ = - (2 ^ 31)"

subsection \<open>Finite results\<close>

lemma mk_Fin: "\<bar>rnd x\<bar> < huge \<Longrightarrow> mk x = Fin (rnd x)"
  by (auto simp: mk_def Let_def abs_if split: if_splits)

lemma mk_finite:
  assumes "\<bar>x\<bar> \<le> b" and "representable b" and "b < huge"
  shows "mk x = Fin (rnd x)" and "\<bar>rnd x\<bar> \<le> b"
proof -
  have "rnd x \<le> b" and "- b \<le> rnd x"
    using assms rnd_le [of b x] rnd_ge [of "- b" x] representable_minus [of b] by auto
  then show "\<bar>rnd x\<bar> \<le> b" by linarith
  with assms(3) show "mk x = Fin (rnd x)" by (intro mk_Fin) linarith
qed

lemma pow2_le_huge: "n \<le> 1023 \<Longrightarrow> (2::real) ^ n < huge"
  unfolding huge_def by (intro power_strict_increasing) simp_all

lemma mk_of_int: "\<bar>n\<bar> \<le> 2 ^ 53 \<Longrightarrow> mk (of_int n) = Fin (of_int n)"
proof -
  assume n: "\<bar>n\<bar> \<le> 2 ^ 53"
  then have "of_int \<bar>n\<bar> \<le> (of_int (2 ^ 53) :: real)" by (simp only: of_int_le_iff)
  then have "\<bar>real_of_int n\<bar> \<le> 2 ^ 53" by simp
  also have "(2::real) ^ 53 < huge" by (rule pow2_le_huge) simp
  finally show ?thesis using n by (simp add: mk_Fin rnd_of_int)
qed

lemma f64_exact [go_float_simps]: "\<bar>n\<bar> \<le> 2 ^ 53 \<Longrightarrow> f64 n = Fin (of_int n)"
  by (simp add: f64_def mk_of_int)

lemma f2i_f64: "\<bar>n\<bar> \<le> 2 ^ 53 \<Longrightarrow> f2i (f64 n) = n"
  by (simp add: f64_exact trunc_def in_i64_def abs_le_iff)

lemma lit_1 [simp]: "mk 1 = Fin 1" and lit_0 [simp]: "mk 0 = Fin 0"
  using mk_of_int [of 1] mk_of_int [of 0] by simp_all

lemma mk_eq_Fin: "mk x = Fin y \<Longrightarrow> y = rnd x"
  by (simp add: mk_def Let_def split: if_splits)

lemma mk_not_NaN [simp]: "mk x \<noteq> NaN"
  by (simp add: mk_def Let_def)

lemma is_float_mk [simp]: "is_float (mk x)"
  by (auto simp: mk_def Let_def abs_if)

lemma trunc_mono: "x \<le> y \<Longrightarrow> trunc x \<le> trunc y"
proof -
  assume xy: "x \<le> y"
  show ?thesis
  proof (cases "x < 0 \<and> \<not> y < 0")
    case True
    then have "\<lceil>x\<rceil> \<le> 0" and "0 \<le> \<lfloor>y\<rfloor>" by (simp_all add: ceiling_le_iff)
    then have "\<lceil>x\<rceil> \<le> \<lfloor>y\<rfloor>" by (rule order_trans)
    then show ?thesis using True by (simp add: trunc_def)
  next
    case False
    then show ?thesis using xy by (auto simp: trunc_def floor_mono ceiling_mono)
  qed
qed

lemma trunc_of_int [simp]: "trunc (of_int n) = n"
  by (simp add: trunc_def)

lemma f2i_of_int: "in_i64 n \<Longrightarrow> f2i (Fin (of_int n)) = n"
  and f2i32_of_int: "in_i32 n \<Longrightarrow> f2i32 (Fin (of_int n)) = n"
  by simp_all

lemma trunc_nonneg: "0 \<le> x \<Longrightarrow> trunc x = \<lfloor>x\<rfloor>"
  by (simp add: trunc_def)

text \<open>Truncation of a finite value between two in-range integers stays between them.\<close>

lemma f2i_between:
  assumes "of_int a \<le> x" and "x \<le> of_int b" and "in_i64 a" and "in_i64 b"
  shows "a \<le> f2i (Fin x)" and "f2i (Fin x) \<le> b"
proof -
  have "a \<le> trunc x" and "trunc x \<le> b"
    using trunc_mono [OF assms(1)] trunc_mono [OF assms(2)] by simp_all
  moreover from this have "in_i64 (trunc x)" using assms(3,4) by (simp add: in_i64_def)
  ultimately show "a \<le> f2i (Fin x)" and "f2i (Fin x) \<le> b" by simp_all
qed

lemma f2i32_between:
  assumes "of_int a \<le> x" and "x \<le> of_int b" and "in_i32 a" and "in_i32 b"
  shows "a \<le> f2i32 (Fin x)" and "f2i32 (Fin x) \<le> b"
proof -
  have "a \<le> trunc x" and "trunc x \<le> b"
    using trunc_mono [OF assms(1)] trunc_mono [OF assms(2)] by simp_all
  moreover from this have "in_i32 (trunc x)" using assms(3,4) by (simp add: in_i32_def)
  ultimately show "a \<le> f2i32 (Fin x)" and "f2i32 (Fin x) \<le> b" by simp_all
qed

lemma fmax_Fin [simp]: "fmax (Fin x) (Fin y) = Fin (max x y)"
  by (simp add: fmax_def max_def)

lemma fmin_Fin [simp]: "fmin (Fin x) (Fin y) = Fin (min x y)"
  by (simp add: fmin_def min_def)

lemma fmax_NaN: "a \<noteq> PInf \<Longrightarrow> fmax a NaN = NaN"
  by (simp add: fmax_def)

lemma fmin_NaN: "a \<noteq> NInf \<Longrightarrow> fmin a NaN = NaN"
  by (simp add: fmin_def)

lemma fadd_NaN [simp]: "fadd a NaN = NaN"
  by (cases a) simp_all

lemma fmul_NaN [simp]: "fmul a NaN = NaN"
  by (cases a) simp_all

lemma fdiv_NaN [simp]: "fdiv a NaN = NaN"
  by (cases a) simp_all

lemma fsub_Fin [simp]: "fsub (Fin x) (Fin y) = mk (x - y)"
  by (simp add: fsub_def)

lemma fle_Fin [simp]: "fle (Fin x) (Fin y) \<longleftrightarrow> x \<le> y"
  by (auto simp: fle_def)

text \<open>
  Clamping into \<open>[lo, hi]\<close> with \<open>math.Max(lo, math.Min(hi, x))\<close> gives a finite value of
  the interval whatever \<open>x\<close> is, unless it is NaN.
\<close>

lemma clamp_Fin:
  assumes "a \<noteq> NaN" and "lo \<le> hi"
  obtains r where "fmax (Fin lo) (fmin (Fin hi) a) = Fin r" and "lo \<le> r" and "r \<le> hi"
    and "\<And>x. a = Fin x \<Longrightarrow> r = max lo (min hi x)"
proof (cases a)
  case (Fin x)
  then show ?thesis using assms by (intro that [of "max lo (min hi x)"]) auto
next
  case PInf
  then show ?thesis using assms by (intro that [of hi]) (auto simp: fmin_def)
next
  case NInf
  then show ?thesis using assms by (intro that [of lo]) (auto simp: fmin_def fmax_def)
next
  case NaN
  then show ?thesis using assms by simp
qed

lemma clamp_low:
  assumes "a \<noteq> NaN"
  obtains x where "fmax (Fin lo) (fmin (Fin b) a) = Fin x" and "lo \<le> x" and "x \<le> max lo b"
proof (cases a)
  case (Fin x)
  then show ?thesis by (intro that [of "max lo (min b x)"]) auto
next
  case PInf
  then show ?thesis by (intro that [of "max lo b"]) (auto simp: fmin_def)
next
  case NInf
  then show ?thesis by (intro that [of lo]) (auto simp: fmin_def fmax_def)
next
  case NaN
  then show ?thesis using assms by simp
qed

section \<open>Weighted means\<close>

text \<open>
  \<open>(1 - s) * a + s * b\<close> in floating point never falls below 1 when \<open>a\<close> and \<open>b\<close> are at
  least 1: \<open>1 - s\<close> loses at most \<open>2 ^ -54\<close>, and \<open>1 - 2 ^ -54\<close> rounds to 1 (a tie, to even).
\<close>

lemma rnd_complement:
  assumes "0 \<le> s" and "s \<le> 1"
  shows "1 - 2 powi (- 54) \<le> rnd (1 - s) + s" and "0 \<le> rnd (1 - s)" and "rnd (1 - s) \<le> 1"
proof -
  have one: "representable 1" using representable_of_int [of 1] by simp
  show "0 \<le> rnd (1 - s)" using assms by (simp add: rnd_nonneg)
  show "rnd (1 - s) \<le> 1" using assms one by (intro rnd_le) simp_all
  have "2 powi (quantum_exp (1 - s) - 1) \<le> (2::real) powi (- 54)" if "0 < s" "s < 1"
    using that quantum_exp_le [of "1 - s" "- 53"] by (intro power_int_increasing) simp_all
  moreover have "rnd (1 - s) = 1 - s" if "s = 0 \<or> s = 1"
    using that one by (auto simp: representable_def)
  moreover have "0 < s \<and> s < 1 \<or> s = 0 \<or> s = 1" using assms by auto
  moreover have "(0::real) < 2 powi (- 54)" by simp
  ultimately show "1 - 2 powi (- 54) \<le> rnd (1 - s) + s"
    using rnd_error [of "1 - s"] by (smt (verit))
qed

lemma rnd_one_minus_tie: "rnd (1 - 2 powi (- 54)) = 1"
proof -
  let ?x = "1 - 2 powi (- 54) :: real"
  have q: "quantum_exp ?x = - 53" by (rule quantum_exp_eqI) (simp_all add: power_int_def power_divide)
  have y: "?x / 2 powi (- 53) = 9007199254740992 - 1 / 2" by (simp add: power_int_def power_divide)
  have f: "\<lfloor>(9007199254740992 - 1 / 2 :: real)\<rfloor> = 9007199254740991" by (simp add: floor_eq_iff)
  have "rne (?x / 2 powi (- 53)) = 9007199254740992" unfolding y by (simp add: rne_def f Let_def)
  then show ?thesis using q by (simp add: rnd_def power_int_def power_divide)
qed

lemma rnd_weighted_ge_1:
  assumes "0 \<le> s" and "s \<le> 1" and "representable s" and "1 \<le> a" and "1 \<le> b"
  shows "1 \<le> rnd (rnd (rnd (1 - s) * a) + rnd (s * b))"
proof -
  let ?t = "rnd (1 - s)"
  have t: "0 \<le> ?t" and ts: "1 - 2 powi (- 54) \<le> ?t + s"
    using rnd_complement [OF assms(1,2)] by simp_all
  have "?t \<le> ?t * a" using t assms(4) by (simp add: mult_le_cancel_left1)
  then have "?t \<le> rnd (?t * a)" by (intro rnd_ge) simp_all
  moreover have "s \<le> s * b" using assms(1,5) by (simp add: mult_le_cancel_left1)
  then have "s \<le> rnd (s * b)" using assms(3) by (intro rnd_ge)
  ultimately have "1 - 2 powi (- 54) \<le> rnd (?t * a) + rnd (s * b)" using ts by linarith
  then have "rnd (1 - 2 powi (- 54)) \<le> rnd (rnd (?t * a) + rnd (s * b))" by (rule rnd_mono)
  then show ?thesis by (simp only: rnd_one_minus_tie)
qed

lemma rnd_weighted_le:
  assumes "0 \<le> s" and "s \<le> 1" and "0 \<le> a" and "a \<le> 2 ^ n" and "0 \<le> b" and "b \<le> 2 ^ n"
  shows "rnd (1 - s) * a \<le> 2 ^ n" and "s * b \<le> 2 ^ n"
    and "rnd (rnd (1 - s) * a) + rnd (s * b) \<le> 2 ^ Suc n"
    and "0 \<le> rnd (rnd (1 - s) * a) + rnd (s * b)"
proof -
  have n: "representable (2 ^ n)" using representable_pow2 [of "int n"] by simp
  have t: "0 \<le> rnd (1 - s)" "rnd (1 - s) \<le> 1" using rnd_complement [OF assms(1,2)] by simp_all
  show 1: "rnd (1 - s) * a \<le> 2 ^ n" using mult_mono [OF t(2) assms(4)] assms t by simp
  show 2: "s * b \<le> 2 ^ n" using mult_mono [OF assms(2,6)] assms by simp
  show "rnd (rnd (1 - s) * a) + rnd (s * b) \<le> 2 ^ Suc n"
    using rnd_le [OF n 1] rnd_le [OF n 2] by simp
  show "0 \<le> rnd (rnd (1 - s) * a) + rnd (s * b)"
    using assms t by (intro add_nonneg_nonneg rnd_nonneg) simp_all
qed

text \<open>
  Nor does it pass a power of two that bounds \<open>a\<close> and \<open>b\<close>: scaling by it is exact, and
  what \<open>1 - s\<close> gains is rounded away.
\<close>

lemma representable_scale:
  assumes "representable x"
  shows "representable (x * 2 ^ n)"
proof -
  obtain m where m: "x = of_int m * 2 powi quantum_exp x" "\<bar>m\<bar> \<le> 2 ^ 53"
    using assms rnd_form [of x] by (metis representable_def)
  have "x * 2 ^ n = of_int m * 2 powi (quantum_exp x + int n)"
    by (subst m(1)) (simp add: power_int_add)
  moreover have "- 1074 \<le> quantum_exp x + int n" using quantum_exp_ge [of x] by simp
  ultimately show ?thesis using representable_dyadic [OF m(2)] by simp
qed

lemma rnd_complement_le:
  assumes "0 \<le> s" and "s \<le> 1"
  shows "rnd (1 - s) + s \<le> 1 + 1 / 2 ^ 54"
proof (cases "s = 0 \<or> s = 1")
  case True
  then show ?thesis using representable_of_int [of 1] by (auto simp: representable_def)
next
  case False
  then have "quantum_exp (1 - s) \<le> - 53" using assms by (intro quantum_exp_le) simp_all
  then have "2 powi (quantum_exp (1 - s) - 1) \<le> (2::real) powi (- 54)" by (intro power_int_increasing) simp_all
  then have "2 powi (quantum_exp (1 - s) - 1) \<le> (1::real) / 2 ^ 54" by (simp add: power_int_def power_divide)
  then show ?thesis using rnd_error [of "1 - s"] by linarith
qed

lemma rnd_just_above_pow2:
  assumes "x \<le> 2 ^ n * (1 + 1 / 2 ^ 54)"
  shows "rnd x \<le> 2 ^ n"
proof (cases "x \<le> 2 ^ n")
  case True
  then show ?thesis using representable_pow2 [of "int n"] by (intro rnd_le) simp_all
next
  case False
  let ?q = "2 powi (int n - 52) :: real"
  have q: "2 ^ n = ?q * 2 ^ 52" by (simp add: power_int_diff)
  have "quantum_exp x = int n - 52"
    using False assms by (intro quantum_exp_eqI) (auto simp: power_int_add power_int_diff field_simps)
  moreover have "rne (x / ?q) = 2 ^ 52"
  proof (rule rne_eqI)
    have "x / ?q \<le> 2 ^ 52 * (1 + 1 / 2 ^ 54)" using assms q by (simp add: field_simps)
    moreover have "2 ^ 52 < x / ?q" using False q by (simp add: field_simps)
    moreover have "\<bar>y - of_int (2 ^ 52)\<bar> < 1 / 2" if "y \<le> 2 ^ 52 * (1 + 1 / 2 ^ 54)" "2 ^ 52 < y" for y :: real
      using that by simp
    ultimately show "\<bar>x / ?q - of_int (2 ^ 52)\<bar> < 1 / 2" by blast
  qed
  moreover have "x \<noteq> 0" using False by auto
  ultimately show ?thesis using q by (simp add: rnd_def)
qed

lemma rnd_weighted_le_pow2:
  assumes "0 \<le> s" and "s \<le> 1" and "representable s" and "0 \<le> a" and "a \<le> 2 ^ n" and "0 \<le> b" and "b \<le> 2 ^ n"
  shows "rnd (rnd (rnd (1 - s) * a) + rnd (s * b)) \<le> 2 ^ n"
proof -
  have t: "0 \<le> rnd (1 - s)" using rnd_complement [OF assms(1,2)] by simp
  have "rnd (rnd (1 - s) * a) \<le> rnd (1 - s) * 2 ^ n"
    using assms t by (intro rnd_le representable_scale mult_left_mono) simp_all
  moreover have "rnd (s * b) \<le> s * 2 ^ n"
    using assms by (intro rnd_le representable_scale mult_left_mono) simp_all
  ultimately have "rnd (rnd (1 - s) * a) + rnd (s * b) \<le> 2 ^ n * (rnd (1 - s) + s)" by (simp add: algebra_simps)
  also have "\<dots> \<le> 2 ^ n * (1 + 1 / 2 ^ 54)" using rnd_complement_le [OF assms(1,2)] by (intro mult_left_mono) simp_all
  finally show ?thesis by (rule rnd_just_above_pow2)
qed

lemma lit_half: "mk (1 / 2) = Fin (1 / 2)"
proof -
  have "rnd (1 / 2) = 1 / 2" using rnd_dyadic [of 1 "- 1"] by (simp add: power_int_def)
  then show ?thesis using pow2_le_huge [of 0] by (subst mk_Fin) simp_all
qed

text \<open>The weighted mean as the limit algorithms write it.\<close>

definition fmix :: "float64 \<Rightarrow> float64 \<Rightarrow> float64 \<Rightarrow> float64" where
  "fmix s a b = fadd (fmul (fsub (Fin 1) s) a) (fmul s b)"

lemma mk_le_pow2: "0 \<le> x \<Longrightarrow> x \<le> 2 ^ n \<Longrightarrow> n \<le> 1023 \<Longrightarrow> mk x = Fin (rnd x)"
  using mk_finite(1) [of x "2 ^ n"] representable_pow2 [of "int n"] pow2_le_huge [of n] by simp

lemma fmix_Fin:
  assumes "0 \<le> s" and "s \<le> 1" and "0 \<le> a" and "a \<le> 2 ^ n" and "0 \<le> b" and "b \<le> 2 ^ n" and "n < 1023"
  shows "fmix (Fin s) (Fin a) (Fin b) = Fin (rnd (rnd (rnd (1 - s) * a) + rnd (s * b)))"
proof -
  note le = rnd_weighted_le [OF assms(1-6)]
  have t: "0 \<le> rnd (1 - s)" "rnd (1 - s) \<le> 1" using rnd_complement [OF assms(1,2)] by simp_all
  have "mk (1 - s) = Fin (rnd (1 - s))" using assms by (intro mk_le_pow2 [of _ 0]) simp_all
  moreover have "mk (rnd (1 - s) * a) = Fin (rnd (rnd (1 - s) * a))"
    using le(1) assms t by (intro mk_le_pow2 [of _ n]) simp_all
  moreover have "mk (s * b) = Fin (rnd (s * b))"
    using le(2) assms by (intro mk_le_pow2 [of _ n]) simp_all
  moreover have "mk (rnd (rnd (1 - s) * a) + rnd (s * b)) = Fin (rnd (rnd (rnd (1 - s) * a) + rnd (s * b)))"
    using le(3,4) assms by (intro mk_le_pow2 [of _ "Suc n"]) simp_all
  ultimately show ?thesis by (simp add: fmix_def)
qed

lemma fmix_1: "is_float (Fin b) \<Longrightarrow> fmix (Fin 1) (Fin a) (Fin b) = Fin b"
proof -
  assume "is_float (Fin b)"
  then have "mk b = Fin b" by (simp add: mk_Fin representable_def)
  moreover have "mk 0 = Fin 0" using mk_of_int [of 0] by simp
  ultimately show ?thesis by (simp add: fmix_def)
qed

text \<open>A mean of values from 1 to a power of two stays in that range.\<close>

lemma fmix_range:
  assumes "0 \<le> s" and "s \<le> 1" and "representable s" and "1 \<le> a" and "a \<le> 2 ^ n" and "1 \<le> b" and "b \<le> 2 ^ n"
    and "n < 1023"
  obtains x where "fmix (Fin s) (Fin a) (Fin b) = Fin x" and "representable x" and "1 \<le> x" and "x \<le> 2 ^ n"
  using fmix_Fin [of s a n b] rnd_weighted_ge_1 [of s a b] rnd_weighted_le_pow2 [of s a n b] assms
  by simp

end
