(* ===== verification/Core.thy ===== *)
theory Core
  imports Float64
begin

text \<open>
  The package \<open>core\<close>: metric names and the common metric sampler, strategy tokens, request
  contexts, and the three interfaces the rest of the library is written against
  (\<open>MeasurementInterface\<close>, \<open>Limit\<close>, \<open>Strategy\<close>). A Go interface value is a pair of a method
  table and a receiver; the method tables are the records \<open>limit_ops\<close> and \<open>strategy_ops\<close>, and
  what their users rely on is stated in the locales at the end of the theory.
\<close>

section \<open>Effects\<close>

text \<open>
  Calls that leave the modelled state: registrations and samples sent to the metric registry,
  limit-change callbacks (a consumer is identified by a number) and lines given to the
  logger of a \<open>TracedLimit\<close>. Operations return the calls they make, in order.
\<close>

datatype log_arg = LogInt int | LogFloat float64 | LogBool bool

datatype metric_kind = Distribution | Timing | Count | Gauge

datatype effect =
    Register metric_kind string "string list"
  | Sampled metric_kind string "string list" float64
  | Notify nat int
  | Debugf string "log_arg list"

section \<open>Metrics\<close>

definition MetricLimit :: string where "MetricLimit = ''limit''"
definition MetricDropped :: string where "MetricDropped = ''dropped''"
definition MetricInFlight :: string where "MetricInFlight = ''inflight''"
definition MetricPartitionLimit :: string where "MetricPartitionLimit = ''limit.partition''"
definition MetricRTT :: string where "MetricRTT = ''rtt''"
definition MetricMinRTT :: string where "MetricMinRTT = ''min_rtt''"
definition MetricWindowMinRTT :: string where "MetricWindowMinRTT = ''window.min_rtt''"
definition MetricWindowQueueSize :: string where "MetricWindowQueueSize = ''window.queue_size''"
definition MetricQueueSize :: string where "MetricQueueSize = ''queue_size''"
definition MetricQueueLimit :: string where "MetricQueueLimit = ''queue_limit''"

definition PrefixMetricWithName :: "string \<Rightarrow> string \<Rightarrow> string" where
  "PrefixMetricWithName metric name =
     (let name = (if name = '''' then ''default'' else name) in
      if last name = CHR ''.'' then name @ metric else name @ ''.'' @ metric)"

text \<open>
  A registry is absent (\<open>nil\<close>), the empty one, or a real backend. A sample listener obtained
  from the empty registry ignores everything.
\<close>

datatype registry = NilRegistry | EmptyMetricRegistry | BackendRegistry

datatype sample_listener =
    EmptyMetricSampleListener
  | BackendListener metric_kind string "string list"

fun AddSample :: "sample_listener \<Rightarrow> float64 \<Rightarrow> effect list" where
  "AddSample EmptyMetricSampleListener v = []"
| "AddSample (BackendListener k n tags) v = [Sampled k n tags v]"

definition register :: "metric_kind \<Rightarrow> registry \<Rightarrow> string \<Rightarrow> string list \<Rightarrow> sample_listener \<times> effect list" where
  "register k r n tags =
     (if r = BackendRegistry then (BackendListener k n tags, [Register k n tags])
      else (EmptyMetricSampleListener, []))"

definition RegisterDistribution :: "registry \<Rightarrow> string \<Rightarrow> string list \<Rightarrow> sample_listener \<times> effect list" where
  "RegisterDistribution = register Distribution"

definition RegisterTiming :: "registry \<Rightarrow> string \<Rightarrow> string list \<Rightarrow> sample_listener \<times> effect list" where
  "RegisterTiming = register Timing"

definition RegisterCount :: "registry \<Rightarrow> string \<Rightarrow> string list \<Rightarrow> sample_listener \<times> effect list" where
  "RegisterCount = register Count"

definition RegisterGauge :: "registry \<Rightarrow> string \<Rightarrow> string list \<Rightarrow> effect list" where
  "RegisterGauge r n tags = snd (register Gauge r n tags)"

definition registry_or_empty :: "registry \<Rightarrow> registry" where
  "registry_or_empty r = (if r = NilRegistry then EmptyMetricRegistry else r)"

text \<open>A gauge's supplier reads the program's state \<open>'e\<close>; its second result says whether there is a value.\<close>

definition NewIntMetricSupplierWrapper :: "('e \<Rightarrow> int) \<Rightarrow> 'e \<Rightarrow> float64 \<times> bool" where
  "NewIntMetricSupplierWrapper s = (\<lambda>env. let val = s env in (f64 val, True))"

definition NewUint64MetricSupplierWrapper :: "('e \<Rightarrow> int) \<Rightarrow> 'e \<Rightarrow> float64 \<times> bool" where
  "NewUint64MetricSupplierWrapper s = (\<lambda>env. let val = s env in (f64 val, True))"

definition NewFloat64MetricSupplierWrapper :: "('e \<Rightarrow> float64) \<Rightarrow> 'e \<Rightarrow> float64 \<times> bool" where
  "NewFloat64MetricSupplierWrapper s = (\<lambda>env. let val = s env in (val, True))"

record common_sampler =
  RTTListener :: sample_listener
  DropCounterListener :: sample_listener
  InFlightListener :: sample_listener

definition NewCommonMetricSampler :: "registry \<Rightarrow> string \<Rightarrow> string list \<Rightarrow> common_sampler \<times> effect list" where
  "NewCommonMetricSampler r name tags =
     (let r = registry_or_empty r;
          g = RegisterGauge r (PrefixMetricWithName MetricLimit name) tags;
          (rttL, e1) = RegisterTiming r (PrefixMetricWithName MetricRTT name) tags;
          (dropL, e2) = RegisterCount r (PrefixMetricWithName MetricDropped name) tags;
          (inL, e3) = RegisterDistribution r (PrefixMetricWithName MetricInFlight name) tags
      in (\<lparr>RTTListener = rttL, DropCounterListener = dropL, InFlightListener = inL\<rparr>,
          g @ e1 @ e2 @ e3))"

definition NewCommonMetricSamplerOrNil ::
    "registry \<Rightarrow> string \<Rightarrow> string list \<Rightarrow> common_sampler option \<times> effect list" where
  "NewCommonMetricSamplerOrNil r name tags =
     (if r = NilRegistry then (None, [])
      else if r = EmptyMetricRegistry then (None, [])
      else (let (s, e) = NewCommonMetricSampler r name tags in (Some s, e)))"

fun Sample :: "common_sampler option \<Rightarrow> int \<Rightarrow> int \<Rightarrow> bool \<Rightarrow> effect list" where
  "Sample None rtt inFlight didDrop = []"
| "Sample (Some s) rtt inFlight didDrop =
     (if didDrop then AddSample (DropCounterListener s) (lit 1) else [])
     @ AddSample (RTTListener s) (f64 rtt)
     @ AddSample (InFlightListener s) (f64 inFlight)"

section \<open>Tokens\<close>

text \<open>
  A \<open>StaticStrategyToken\<close>. Its \<open>releaseFunc\<close> closes over the strategy and, for partitioned
  strategies, the partition; the closure is represented by what it captures (\<open>'r\<close>) and run
  by the strategy's \<open>release\<close> operation. The empty function of a refused token is \<open>None\<close>.
\<close>

record 'r token =
  acquired :: bool
  inFlightCount :: int
  releaseFunc :: "'r option"

definition NewNotAcquiredStrategyToken :: "int \<Rightarrow> 'r token" where
  "NewNotAcquiredStrategyToken n = \<lparr>acquired = False, inFlightCount = n, releaseFunc = None\<rparr>"

definition NewAcquiredStrategyToken :: "int \<Rightarrow> 'r \<Rightarrow> 'r token" where
  "NewAcquiredStrategyToken n f = \<lparr>acquired = True, inFlightCount = n, releaseFunc = Some f\<rparr>"

definition token_IsAcquired :: "'r token \<Rightarrow> bool" where
  "token_IsAcquired t = acquired t"

definition token_InFlightCount :: "'r token \<Rightarrow> int" where
  "token_InFlightCount t = inFlightCount t"

definition token_Release :: "('r \<Rightarrow> 's \<Rightarrow> 's) \<Rightarrow> 'r token \<Rightarrow> 's \<Rightarrow> 's" where
  "token_Release rel t s = (case releaseFunc t of None \<Rightarrow> s | Some f \<Rightarrow> rel f s)"

lemma token_sel [simp]:
  "acquired (NewNotAcquiredStrategyToken n) = False"
  "inFlightCount (NewNotAcquiredStrategyToken n) = n"
  "releaseFunc (NewNotAcquiredStrategyToken n) = None"
  "acquired (NewAcquiredStrategyToken n f) = True"
  "inFlightCount (NewAcquiredStrategyToken n f) = n"
  "releaseFunc (NewAcquiredStrategyToken n f) = Some f"
  by (simp_all add: NewNotAcquiredStrategyToken_def NewAcquiredStrategyToken_def)

section \<open>Request contexts\<close>

datatype ctx_key = StrategyKey string | LimiterKey | OtherKey nat

datatype ctx_value = StringValue string | LimiterValue nat | OtherValue nat

text \<open>\<open>ctx.Value\<close> returns the innermost binding of a key; \<open>nil\<close> when there is none.\<close>

type_synonym ctx = "(ctx_key \<times> ctx_value) list"

definition Value :: "ctx \<Rightarrow> ctx_key \<Rightarrow> ctx_value option" where
  "Value ctx k = map_of ctx k"

definition WithValue :: "ctx \<Rightarrow> ctx_key \<Rightarrow> ctx_value \<Rightarrow> ctx" where
  "WithValue ctx k v = (k, v) # ctx"

section \<open>Interfaces\<close>

text \<open>
  What an operation reads from its environment is part of its input: \<open>rand.Float64()\<close>,
  \<open>rand.Intn(n)\<close> for the positive \<open>n\<close> it accepts, and \<open>time.Now().UnixNano()\<close>.
\<close>

record rand =
  randFloat64 :: float64
  randIntn :: "int \<Rightarrow> int"
  timeNow :: int

definition rand_ok :: "rand \<Rightarrow> bool" where
  "rand_ok r \<longleftrightarrow> (\<exists>x. randFloat64 r = Fin x \<and> representable x \<and> 0 \<le> x \<and> x < 1)
     \<and> (\<forall>n>0. 0 \<le> randIntn r n \<and> randIntn r n < n)"

text \<open>\<open>core.Limit\<close>: \<open>OnSample startTime rtt inFlight didDrop\<close>.\<close>

record 'l limit_ops =
  EstimatedLimit :: "'l \<Rightarrow> int"
  NotifyOnChange :: "nat \<Rightarrow> 'l \<Rightarrow> 'l"
  OnSample :: "rand \<Rightarrow> int \<Rightarrow> int \<Rightarrow> int \<Rightarrow> bool \<Rightarrow> 'l \<Rightarrow> 'l \<times> effect list"

text \<open>The consumers registered with a limit are called in the order of their registration.\<close>

definition notify_all :: "nat list \<Rightarrow> int \<Rightarrow> effect list" where
  "notify_all listeners newLimit = map (\<lambda>k. Notify k newLimit) listeners"

text \<open>\<open>core.Strategy\<close>: the token and the flag \<open>ok\<close>, with the strategy after the call.\<close>

record ('s, 'r) strategy_ops =
  TryAcquire :: "ctx \<Rightarrow> 's \<Rightarrow> ('r token \<times> bool) \<times> 's \<times> effect list"
  ReleaseFunc :: "'r \<Rightarrow> 's \<Rightarrow> 's"
  SetLimit :: "int \<Rightarrow> 's \<Rightarrow> 's"

section \<open>A client of a strategy\<close>

text \<open>
  A history of calls on a strategy: acquisitions for a request, releases of a token that is
  still outstanding (by its position in the list of outstanding release functions) and
  changes of the limit. The run keeps the strategy and the outstanding release functions.
\<close>

datatype strat_event = EAcquire ctx | ERelease nat | ESetLimit int

fun strat_step :: "('s, 'r) strategy_ops \<Rightarrow> 's \<times> 'r list \<Rightarrow> strat_event \<Rightarrow> 's \<times> 'r list" where
  "strat_step ops (s, out) (EAcquire c) =
     (case TryAcquire ops c s of ((t, ok), s', e) \<Rightarrow>
        (s', (if ok then (case releaseFunc t of None \<Rightarrow> out | Some f \<Rightarrow> f # out) else out)))"
| "strat_step ops (s, out) (ERelease i) =
     (if i < length out
      then (ReleaseFunc ops (out ! i) s, take i out @ drop (Suc i) out) else (s, out))"
| "strat_step ops (s, out) (ESetLimit n) = (SetLimit ops n s, out)"

definition strat_run :: "('s, 'r) strategy_ops \<Rightarrow> 's \<times> 'r list \<Rightarrow> strat_event list \<Rightarrow> 's \<times> 'r list" where
  "strat_run ops = foldl (strat_step ops)"

lemma count_list_remove_nth:
  "i < length xs \<Longrightarrow>
     count_list (take i xs @ drop (Suc i) xs) y = count_list xs y - (if xs ! i = y then 1 else 0)"
proof -
  assume "i < length xs"
  then have "count_list xs y = count_list (take i xs @ xs ! i # drop (Suc i) xs) y"
    by (simp add: id_take_nth_drop [symmetric])
  then show ?thesis by simp
qed

text \<open>
  The contract of \<open>core.Strategy\<close>: \<open>busy\<close> is the in-flight count, \<open>held s f\<close> how many
  outstanding tokens carry the release function \<open>f\<close>. The counters are 32 bits wide, so a
  grant counts one up only below the largest 32-bit value.
\<close>

locale strategy_contract =
  fixes ops :: "('s, 'r) strategy_ops"
    and busy :: "'s \<Rightarrow> int"
    and held :: "'s \<Rightarrow> 'r \<Rightarrow> int"
    and inv :: "'s \<Rightarrow> bool"
  assumes acquire_granted:
      "inv s \<Longrightarrow> busy s < 2 ^ 31 - 1 \<Longrightarrow> TryAcquire ops c s = ((t, True), s', e) \<Longrightarrow>
         inv s' \<and> busy s' = busy s + 1
         \<and> (\<exists>f. releaseFunc t = Some f \<and> held s' = (held s)(f := held s f + 1))"
    and acquire_refused:
      "inv s \<Longrightarrow> TryAcquire ops c s = ((t, False), s', e) \<Longrightarrow> s' = s \<and> releaseFunc t = None"
    and release_held:
      "inv s \<Longrightarrow> 0 < held s f \<Longrightarrow>
         inv (ReleaseFunc ops f s) \<and> busy (ReleaseFunc ops f s) = busy s - 1
         \<and> held (ReleaseFunc ops f s) = (held s)(f := held s f - 1)"
    and setLimit_keeps:
      "inv s \<Longrightarrow> inv (SetLimit ops n s) \<and> busy (SetLimit ops n s) = busy s
         \<and> held (SetLimit ops n s) = held s"
begin

definition balanced :: "'s \<times> 'r list \<Rightarrow> bool" where
  "balanced st \<longleftrightarrow> inv (fst st) \<and> busy (fst st) = int (length (snd st))
     \<and> (\<forall>f. held (fst st) f = int (count_list (snd st) f))"

lemma balanced_step:
  assumes "balanced (s, out)" and "length out < 2 ^ 31 - 1"
  shows "balanced (strat_step ops (s, out) ev)"
proof (cases ev)
  case (EAcquire c)
  obtain t ok s' e where acq: "TryAcquire ops c s = ((t, ok), s', e)"
    by (metis prod.exhaust)
  have "int (length out) < int (2 ^ 31 - 1)" using assms(2) by (simp only: of_nat_less_iff)
  then have room: "busy s < 2 ^ 31 - 1" using assms(1) by (simp add: balanced_def)
  show ?thesis
  proof (cases ok)
    case True
    with acq room assms(1) show ?thesis
      using acquire_granted [of s c t s' e] EAcquire by (auto simp: balanced_def)
  next
    case False
    with acq assms(1) show ?thesis
      using acquire_refused [of s c t s' e] EAcquire by (auto simp: balanced_def)
  qed
next
  case (ERelease i)
  show ?thesis
  proof (cases "i < length out")
    case True
    then have mem: "out ! i \<in> set out" by simp
    then have "0 < count_list out (out ! i)" by (simp add: count_list_0_iff neq0_conv [symmetric] del: neq0_conv)
    then have "0 < held s (out ! i)" using assms(1) by (simp add: balanced_def)
    moreover have "count_list out y - (if out ! i = y then 1 else 0)
        = count_list (take i out @ drop (Suc i) out) y" for y
      using count_list_remove_nth [OF True] by simp
    ultimately show ?thesis using release_held [of s "out ! i"] assms(1) True ERelease
        \<open>0 < count_list out (out ! i)\<close>
      by (auto simp: balanced_def count_list_remove_nth min_def simp del: count_list_append)
  next
    case False
    with assms(1) ERelease show ?thesis by simp
  qed
next
  case (ESetLimit n)
  with assms(1) show ?thesis using setLimit_keeps [of s n] by (simp add: balanced_def)
qed

lemma length_strat_step:
  "length (snd (strat_step ops st ev)) \<le> Suc (length (snd st))"
  by (cases st; cases ev) (auto split: prod.splits option.splits)

lemma balanced_run:
  assumes "balanced st" and "length (snd st) + length evs < 2 ^ 31"
  shows "balanced (strat_run ops st evs)"
  using assms
proof (induction evs arbitrary: st)
  case Nil
  then show ?case by (simp add: strat_run_def)
next
  case (Cons ev evs)
  have "balanced (strat_step ops st ev)"
    using balanced_step [of "fst st" "snd st" ev] Cons.prems by simp
  moreover have "length (snd (strat_step ops st ev)) + length evs < 2 ^ 31"
    using length_strat_step [of st ev] Cons.prems(2) by simp
  ultimately show ?case using Cons.IH by (simp add: strat_run_def)
qed

text \<open>In-flight accounting: the counter is the number of outstanding tokens.\<close>

lemma run_busy:
  assumes "inv s" and "busy s = 0" and "held s = (\<lambda>_. 0)" and "length evs < 2 ^ 31"
    and "strat_run ops (s, []) evs = (s', out)"
  shows "busy s' = int (length out)" and "held s' f = int (count_list out f)"
  using balanced_run [of "(s, [])" evs] assms by (simp_all add: balanced_def)

end

text \<open>
  A strategy whose partitions can be added and removed while tokens are outstanding: a management
  operation leaves every counter alone. A history then mixes requests and management operations.
\<close>

datatype 'm managed_event = Traffic strat_event | Manage 'm

fun managed_step ::
    "('s, 'r) strategy_ops \<Rightarrow> ('m \<Rightarrow> 's \<Rightarrow> 's) \<Rightarrow> 's \<times> 'r list \<Rightarrow> 'm managed_event \<Rightarrow> 's \<times> 'r list" where
  "managed_step ops manage st (Traffic ev) = strat_step ops st ev"
| "managed_step ops manage (s, out) (Manage m) = (manage m s, out)"

definition managed_run ::
    "('s, 'r) strategy_ops \<Rightarrow> ('m \<Rightarrow> 's \<Rightarrow> 's) \<Rightarrow> 's \<times> 'r list \<Rightarrow> 'm managed_event list \<Rightarrow> 's \<times> 'r list" where
  "managed_run ops manage = foldl (managed_step ops manage)"

locale managed_strategy = strategy_contract ops busy held inv
  for ops :: "('s, 'r) strategy_ops" and busy held inv +
  fixes manage :: "'m \<Rightarrow> 's \<Rightarrow> 's"
  assumes manage_keeps: "inv s \<Longrightarrow> inv (manage m s) \<and> busy (manage m s) = busy s \<and> held (manage m s) = held s"
begin

lemma managed_balanced:
  assumes "balanced st" and "length (snd st) + length evs < 2 ^ 31"
  shows "balanced (managed_run ops manage st evs)"
  using assms
proof (induction evs arbitrary: st)
  case Nil
  then show ?case by (simp add: managed_run_def)
next
  case (Cons ev evs)
  obtain s out where st: "st = (s, out)" by fastforce
  have "balanced (managed_step ops manage st ev) \<and> length (snd (managed_step ops manage st ev)) \<le> Suc (length out)"
  proof (cases ev)
    case (Traffic tr)
    then show ?thesis using balanced_step [of s out tr] length_strat_step [of st tr] Cons.prems st by simp
  next
    case (Manage m)
    then show ?thesis using manage_keeps [of s m] Cons.prems(1) st by (simp add: balanced_def)
  qed
  then show ?case using Cons.IH [of "managed_step ops manage st ev"] Cons.prems(2) st by (simp add: managed_run_def)
qed

lemma managed_busy:
  assumes "inv s" and "busy s = 0" and "held s = (\<lambda>_. 0)" and "length evs < 2 ^ 31"
    and "managed_run ops manage (s, []) evs = (s', out)"
  shows "busy s' = int (length out)" and "held s' f = int (count_list out f)"
  using managed_balanced [of "(s, [])" evs] assms by (simp_all add: balanced_def)

end

text \<open>
  Every strategy of the library stores the limit it was last given, at least one and as a
  32-bit integer, and only \<open>SetLimit\<close> changes it.
\<close>

locale limited_strategy = strategy_contract +
  fixes enforced :: "'a \<Rightarrow> int"
  assumes enforced_set: "enforced (SetLimit ops n s) = i32 (max 1 n)"
    and enforced_acquire: "TryAcquire ops c s = (r, s', e) \<Longrightarrow> enforced s' = enforced s"
    and enforced_release: "enforced (ReleaseFunc ops f s) = enforced s"

text \<open>A strict strategy grants a token only below its limit.\<close>

locale strict_strategy = limited_strategy +
  assumes strict: "TryAcquire ops c s = ((t, True), s', e) \<Longrightarrow> busy s < enforced s"

section \<open>Limits that stay in a range\<close>

text \<open>A history of samples given to a limit: \<open>(startTime, rtt, inFlight, didDrop)\<close> with the random numbers.\<close>

type_synonym limit_sample = "rand \<times> int \<times> int \<times> int \<times> bool"

definition limit_run :: "'l limit_ops \<Rightarrow> 'l \<Rightarrow> limit_sample list \<Rightarrow> 'l" where
  "limit_run ops = foldl (\<lambda>l (r, st, rtt, infl, d). fst (OnSample ops r st rtt infl d l))"

lemma limit_run_preserves:
  assumes "\<And>l r st rtt infl d. P l \<Longrightarrow> P (fst (OnSample ops r st rtt infl d l))" and "P l"
  shows "P (limit_run ops l xs)"
  using assms(2) by (induction xs arbitrary: l) (auto simp: limit_run_def assms(1))

text \<open>
  The contract of \<open>core.Limit\<close> its users rely on: the estimated limit stays between
  \<open>lo\<close> and \<open>hi\<close> under every sample that \<open>good\<close> admits.
\<close>

locale bounded_limit =
  fixes ops :: "'l limit_ops"
    and inv :: "'l \<Rightarrow> bool"
    and good :: "limit_sample \<Rightarrow> bool"
    and lo :: int
    and hi :: int
  assumes sample_inv: "inv l \<Longrightarrow> good (r, st, rtt, infl, d) \<Longrightarrow> inv (fst (OnSample ops r st rtt infl d l))"
    and estimate_range: "inv l \<Longrightarrow> lo \<le> EstimatedLimit ops l \<and> EstimatedLimit ops l \<le> hi"
begin

lemma run_inv:
  "inv l \<Longrightarrow> (\<And>x. x \<in> set xs \<Longrightarrow> good x) \<Longrightarrow> inv (limit_run ops l xs)"
  by (induction xs arbitrary: l) (auto simp: limit_run_def sample_inv)

lemma run_range:
  assumes "inv l" and "\<And>x. x \<in> set xs \<Longrightarrow> good x"
  shows "lo \<le> EstimatedLimit ops (limit_run ops l xs)"
    and "EstimatedLimit ops (limit_run ops l xs) \<le> hi"
  using estimate_range [OF run_inv [OF assms]] by simp_all

end

end
