(* ===== verification/Sample_Window.thy ===== *)
theory Sample_Window
  imports Core
begin

text \<open>
  \<open>measurements/immutable_sample_window.go\<close>: the window of samples that the windowed limit and
  the default limiter collect between two updates. \<open>time.Now().UnixNano()\<close> is the argument
  \<open>now\<close>. The window refines the list of the samples it was given.
\<close>

record sample_window =
  sw_startTime :: int
  sw_minRTT :: int
  sw_maxInFlight :: int
  sw_sampleCount :: int
  sw_sum :: int
  sw_didDrop :: bool

definition NewImmutableSampleWindow :: "int \<Rightarrow> int \<Rightarrow> int \<Rightarrow> int \<Rightarrow> int \<Rightarrow> bool \<Rightarrow> sample_window" where
  "NewImmutableSampleWindow startTime minRTT rttSum maxInFlight sampleCount didDrop =
     (let minRTT = (if minRTT = 0 then MaxInt64 else minRTT) in
      \<lparr>sw_startTime = startTime, sw_minRTT = minRTT, sw_maxInFlight = maxInFlight,
       sw_sampleCount = sampleCount, sw_sum = rttSum, sw_didDrop = didDrop\<rparr>)"

definition NewDefaultImmutableSampleWindow :: "int \<Rightarrow> sample_window" where
  "NewDefaultImmutableSampleWindow now = NewImmutableSampleWindow now MaxInt64 0 0 0 False"

definition window_AddSample :: "int \<Rightarrow> int \<Rightarrow> int \<Rightarrow> int \<Rightarrow> sample_window \<Rightarrow> sample_window" where
  "window_AddSample now startTime rtt maxInFlight s =
     (let minRTT = (if rtt < sw_minRTT s then rtt else sw_minRTT s);
          maxInFlight = (if maxInFlight < sw_maxInFlight s then sw_maxInFlight s else maxInFlight);
          startTime = (if startTime < 0 then now else startTime)
      in NewImmutableSampleWindow startTime minRTT (i64 (sw_sum s + rtt)) maxInFlight
           (i64 (sw_sampleCount s + 1)) (sw_didDrop s))"

definition window_AddDroppedSample :: "int \<Rightarrow> int \<Rightarrow> int \<Rightarrow> sample_window \<Rightarrow> sample_window" where
  "window_AddDroppedSample now startTime maxInFlight s =
     (let maxInFlight = (if maxInFlight < sw_maxInFlight s then sw_maxInFlight s else maxInFlight);
          startTime = (if startTime < 0 then now else startTime)
      in NewImmutableSampleWindow startTime (sw_minRTT s) (sw_sum s) maxInFlight (sw_sampleCount s) True)"

definition StartTimeNanoseconds :: "sample_window \<Rightarrow> int" where
  "StartTimeNanoseconds s = sw_startTime s"

definition CandidateRTTNanoseconds :: "sample_window \<Rightarrow> int" where
  "CandidateRTTNanoseconds s = sw_minRTT s"

definition AverageRTTNanoseconds :: "sample_window \<Rightarrow> int" where
  "AverageRTTNanoseconds s = (if sw_sampleCount s = 0 then 0 else quot64 (sw_sum s) (sw_sampleCount s))"

definition MaxInFlight :: "sample_window \<Rightarrow> int" where
  "MaxInFlight s = sw_maxInFlight s"

definition SampleCount :: "sample_window \<Rightarrow> int" where
  "SampleCount s = sw_sampleCount s"

definition DidDrop :: "sample_window \<Rightarrow> bool" where
  "DidDrop s = sw_didDrop s"

section \<open>The list of samples\<close>

text \<open>
  A sample is a completed request with its round-trip time and the requests in flight, or a
  dropped one. The abstract window is the list of the samples since its creation.
\<close>

datatype win_sample = Completed int int | Dropped int

fun win_step :: "int \<Rightarrow> sample_window \<Rightarrow> win_sample \<Rightarrow> sample_window" where
  "win_step now s (Completed rtt n) = window_AddSample now (-1) rtt n s"
| "win_step now s (Dropped n) = window_AddDroppedSample now (-1) n s"

definition win_run :: "int \<Rightarrow> win_sample list \<Rightarrow> sample_window" where
  "win_run now xs = foldl (win_step now) (NewDefaultImmutableSampleWindow now) xs"

fun rtts :: "win_sample list \<Rightarrow> int list" where
  "rtts [] = []"
| "rtts (Completed rtt n # xs) = rtt # rtts xs"
| "rtts (Dropped n # xs) = rtts xs"

fun inflights :: "win_sample list \<Rightarrow> int list" where
  "inflights [] = []"
| "inflights (Completed rtt n # xs) = n # inflights xs"
| "inflights (Dropped n # xs) = n # inflights xs"

fun is_dropped :: "win_sample \<Rightarrow> bool" where
  "is_dropped (Dropped n) = True"
| "is_dropped (Completed rtt n) = False"

text \<open>What a window that has seen the samples \<open>xs\<close> holds.\<close>

definition window_of :: "win_sample list \<Rightarrow> sample_window \<Rightarrow> bool" where
  "window_of xs s \<longleftrightarrow> sw_minRTT s = foldr min (rtts xs) MaxInt64
     \<and> sw_maxInFlight s = foldr max (inflights xs) 0
     \<and> sw_sampleCount s = int (length (rtts xs)) \<and> sw_sum s = sum_list (rtts xs)
     \<and> (sw_didDrop s \<longleftrightarrow> (\<exists>x\<in>set xs. is_dropped x))"

definition good_samples :: "win_sample list \<Rightarrow> bool" where
  "good_samples xs \<longleftrightarrow> (\<forall>r\<in>set (rtts xs). 0 < r \<and> r \<le> 2 ^ 40) \<and> length xs \<le> 2 ^ 20"

lemma foldr_min_snoc: "foldr min xs (min x z) = min x (foldr min xs (z::int))"
  by (induction xs) (auto simp: min.left_commute)

lemma foldr_max_snoc: "foldr max xs (max x z) = max x (foldr max xs (z::int))"
  by (induction xs) (auto simp: max.left_commute)

lemma rtts_append [simp]: "rtts (xs @ ys) = rtts xs @ rtts ys"
  and inflights_append [simp]: "inflights (xs @ ys) = inflights xs @ inflights ys"
  by (induction xs rule: rtts.induct) simp_all

lemma length_rtts: "length (rtts xs) \<le> length xs"
  by (induction xs rule: rtts.induct) simp_all

lemma foldr_min_pos: "(\<forall>x\<in>set xs. 0 < x) \<Longrightarrow> 0 < z \<Longrightarrow> 0 < foldr min xs (z::int)"
  by (induction xs) auto

lemma sum_list_bounds:
  "(\<forall>x\<in>set xs. 0 < x \<and> x \<le> b) \<Longrightarrow> 0 \<le> sum_list xs \<and> sum_list xs \<le> b * int (length xs)" for b :: int
  by (induction xs) (auto simp: algebra_simps)

lemma window_of_sum:
  assumes "good_samples xs"
  shows "0 \<le> sum_list (rtts xs)" and "sum_list (rtts xs) \<le> 2 ^ 60" and "int (length (rtts xs)) \<le> 2 ^ 20"
proof -
  have "length (rtts xs) \<le> 2 ^ 20" using assms length_rtts [of xs] by (simp add: good_samples_def)
  then have len: "int (length (rtts xs)) \<le> int (2 ^ 20)" by (simp only: of_nat_le_iff)
  then show "int (length (rtts xs)) \<le> 2 ^ 20" by simp
  have sum: "0 \<le> sum_list (rtts xs) \<and> sum_list (rtts xs) \<le> 2 ^ 40 * int (length (rtts xs))"
    using assms by (intro sum_list_bounds) (auto simp: good_samples_def)
  then show "0 \<le> sum_list (rtts xs)" by simp
  have "2 ^ 40 * int (length (rtts xs)) \<le> 2 ^ 40 * 2 ^ 20" using len by simp
  then show "sum_list (rtts xs) \<le> 2 ^ 60" using sum by simp
qed

lemma good_samples_butlast: "good_samples (xs @ [x]) \<Longrightarrow> good_samples xs"
  by (auto simp: good_samples_def)

lemma window_of_step:
  assumes "window_of xs s" and "good_samples (xs @ [x])"
  shows "window_of (xs @ [x]) (win_step now s x)"
proof (cases x)
  case (Completed rtt n)
  note b = window_of_sum [OF assms(2)]
  have "i64 (sum_list (rtts xs) + rtt) = sum_list (rtts xs) + rtt"
    using b(1,2) Completed by (intro i64_id) (simp add: in_i64_def)
  moreover have "i64 (int (length (rtts xs)) + 1) = int (length (rtts xs)) + 1"
    using b(3) Completed by (intro i64_id) (simp add: in_i64_def)
  moreover have "0 < foldr min (rtts xs) MaxInt64" and "0 < rtt"
    using assms(2) Completed by (auto intro!: foldr_min_pos simp: good_samples_def)
  ultimately show ?thesis using assms(1) Completed
    by (auto simp: window_of_def window_AddSample_def NewImmutableSampleWindow_def Let_def
        foldr_min_snoc foldr_max_snoc)
next
  case (Dropped n)
  have "0 < foldr min (rtts xs) MaxInt64"
    using assms(2) by (intro foldr_min_pos) (auto simp: good_samples_def)
  then show ?thesis using assms(1) Dropped
    by (auto simp: window_of_def window_AddDroppedSample_def NewImmutableSampleWindow_def Let_def
        foldr_max_snoc)
qed

lemma window_of_run: "good_samples xs \<Longrightarrow> window_of xs (win_run now xs)"
proof (induction xs rule: rev_induct)
  case Nil
  then show ?case
    by (simp add: window_of_def win_run_def NewDefaultImmutableSampleWindow_def NewImmutableSampleWindow_def)
next
  case (snoc x xs)
  then have "window_of xs (win_run now xs)" by (blast intro: good_samples_butlast)
  then show ?case using window_of_step [OF _ snoc.prems] by (simp add: win_run_def)
qed

text \<open>C29: The sample window aggregates its samples: for up to a million samples with positive
  round-trip times of up to eighteen minutes, the candidate is the least round-trip time, the
  average is the integer part of their mean without the dropped requests (zero when all were
  dropped), the maximum covers the requests in flight of all samples, the count is the number of
  completed requests and the drop flag says whether any was dropped.\<close>

theorem window_aggregates:
  assumes "good_samples xs"
  shows "CandidateRTTNanoseconds (win_run now xs) = foldr min (rtts xs) MaxInt64
    \<and> AverageRTTNanoseconds (win_run now xs)
        = (if rtts xs = [] then 0 else sum_list (rtts xs) div int (length (rtts xs)))
    \<and> MaxInFlight (win_run now xs) = foldr max (inflights xs) 0
    \<and> SampleCount (win_run now xs) = int (length (rtts xs))
    \<and> (DidDrop (win_run now xs) \<longleftrightarrow> (\<exists>x\<in>set xs. is_dropped x))"
proof -
  have "sum_list (rtts xs) < 2 ^ 63" using window_of_sum(2) [OF assms] by simp
  then show ?thesis
    using window_of_run [OF assms, of now] window_of_sum(1) [OF assms]
    by (auto simp: window_of_def CandidateRTTNanoseconds_def AverageRTTNanoseconds_def MaxInFlight_def
        SampleCount_def DidDrop_def quot64_nonneg)
qed

theorem window_aggregates_witness:
  "AverageRTTNanoseconds (win_run 0 [Completed 10 3, Dropped 7, Completed 21 2]) = 15
   \<and> MaxInFlight (win_run 0 [Completed 10 3, Dropped 7, Completed 21 2]) = 7"
  using window_aggregates [of "[Completed 10 3, Dropped 7, Completed 21 2]" 0] by (simp add: good_samples_def)

end
