(* ===== verification/Limit_Functions.thy ===== *)
theory Limit_Functions
  imports Core
begin

text \<open>
  \<open>limit/functions\<close>: the functions of the estimated limit that the Vegas and gradient limits
  are configured with, and the tables that \<open>init\<close> precomputes for them. A lookup at a negative
  index panics (\<open>None\<close>). The value of the environment variable that sizes a table is an
  argument (\<open>None\<close>: not set); \<open>math.Log10\<close>, which is not correctly rounded, is one too.
\<close>

definition max_fn :: "int \<Rightarrow> int \<Rightarrow> int" where
  "max_fn a b = (if a > b then a else b)"

definition FixedQueueSizeFunc :: "int \<Rightarrow> int \<Rightarrow> int" where
  "FixedQueueSizeFunc queueSize = (\<lambda>_. queueSize)"

section \<open>Precomputed tables\<close>

text \<open>\<open>strconv.Atoi\<close>: an optional sign and at least one decimal digit, in the 64-bit range.\<close>

definition digit :: "char \<Rightarrow> int option" where
  "digit c = (let n = of_char c :: int in if 48 \<le> n \<and> n \<le> 57 then Some (n - 48) else None)"

fun digits :: "string \<Rightarrow> int \<Rightarrow> int option" where
  "digits [] acc = Some acc"
| "digits (c # cs) acc = (case digit c of None \<Rightarrow> None | Some d \<Rightarrow> digits cs (10 * acc + d))"

definition Atoi :: "string \<Rightarrow> int option" where
  "Atoi s =
     (let (neg, t) = (case s of c # cs \<Rightarrow> if c = CHR ''-'' then (True, cs)
                                          else if c = CHR ''+'' then (False, cs) else (False, s)
                              | [] \<Rightarrow> (False, []))
      in if t = [] then None
         else case digits t 0 of None \<Rightarrow> None
              | Some n \<Rightarrow> (let v = (if neg then - n else n) in if in_i64 v then Some v else None))"

definition table_size :: "string option \<Rightarrow> int" where
  "table_size env =
     (let defaultVal = 1000;
          valStr = (case env of None \<Rightarrow> ''1000'' | Some v \<Rightarrow> v);
          val = (case Atoi valStr of None \<Rightarrow> defaultVal | Some v \<Rightarrow> v)
      in if val < defaultVal then defaultVal else val)"

text \<open>\<open>initSqrtFunc\<close> and \<open>initLog10RootFunc\<close> append one entry per index to an empty table.\<close>

definition sqrtRootLookup :: "string option \<Rightarrow> int list" where
  "sqrtRootLookup env =
     map (\<lambda>i. f2i (fmax (lit 1) (f64 (f2i (fsqrt (f64 i)))))) [0..table_size env - 1]"

definition log10RootLookup :: "(float64 \<Rightarrow> float64) \<Rightarrow> string option \<Rightarrow> int list" where
  "log10RootLookup Log10 env =
     map (\<lambda>i. f2i (fmax (lit 1) (f64 (f2i (Log10 (f64 i)))))) [0..table_size env - 1]"

definition index :: "'a list \<Rightarrow> int \<Rightarrow> 'a option" where
  "index xs i = (if 0 \<le> i \<and> i < int (length xs) then Some (xs ! nat i) else None)"

definition SqrtRootFunction :: "int list \<Rightarrow> int \<Rightarrow> int \<Rightarrow> int option" where
  "SqrtRootFunction table baseline estimatedLimit =
     (if estimatedLimit < int (length table)
      then map_option (max_fn baseline) (index table estimatedLimit)
      else Some (max_fn baseline (f2i (fsqrt (f64 estimatedLimit)))))"

definition Log10RootFunction ::
    "(float64 \<Rightarrow> float64) \<Rightarrow> int list \<Rightarrow> int \<Rightarrow> int \<Rightarrow> int option" where
  "Log10RootFunction Log10 table baseline estimatedLimit =
     (if estimatedLimit < int (length table)
      then map_option (\<lambda>v. i64 (baseline + v)) (index table estimatedLimit)
      else Some (i64 (baseline + f2i (Log10 (f64 estimatedLimit)))))"

definition Log10RootFloatFunction ::
    "(float64 \<Rightarrow> float64) \<Rightarrow> int list \<Rightarrow> float64 \<Rightarrow> float64 \<Rightarrow> float64 option" where
  "Log10RootFloatFunction Log10 table baseline estimatedLimit =
     (if f2i estimatedLimit < int (length table)
      then map_option (\<lambda>v. fadd baseline (f64 v)) (index table (f2i estimatedLimit))
      else Some (fadd baseline (Log10 estimatedLimit)))"

section \<open>Integer square roots in floating point\<close>

lemma table_size_ge: "1000 \<le> table_size env"
  by (simp add: table_size_def Let_def)

lemma length_sqrtRootLookup: "int (length (sqrtRootLookup env)) = table_size env"
  using table_size_ge [of env] by (simp add: sqrtRootLookup_def)

lemma length_log10RootLookup: "int (length (log10RootLookup Log10 env)) = table_size env"
  using table_size_ge [of env] by (simp add: log10RootLookup_def)

text \<open>
  Below \<open>2 ^ 52\<close> a square root that is not an integer is further than one quantum away from
  the next integer, so rounding does not change its integer part.
\<close>

lemma floor_rnd_sqrt:
  assumes "0 \<le> n" and "n < 2 ^ 52"
  shows "\<lfloor>rnd (sqrt (of_int n))\<rfloor> = \<lfloor>sqrt (of_int n)\<rfloor>"
proof -
  define k where "k = \<lfloor>sqrt (of_int n)\<rfloor>"
  let ?b = "of_int (k + 1) - 1 / 2 ^ 27 :: real"
  have k0: "0 \<le> k" using assms by (simp add: k_def)
  have lo: "of_int k \<le> sqrt (of_int n)" and hi: "sqrt (of_int n) < of_int k + 1"
    using floor_correct [of "sqrt (of_int n)"] by (simp_all add: k_def)
  have "of_int n < (2::real) ^ 52" using assms(2) by (metis of_int_less_iff of_int_numeral of_int_power)
  then have "sqrt (of_int n) < sqrt ((2 ^ 26)\<^sup>2)" by (intro real_sqrt_less_mono) simp
  then have "of_int k < (2::real) ^ 26" using lo by simp
  then have k26: "k < 2 ^ 26" by (metis of_int_less_iff of_int_numeral of_int_power)
  then have k26r: "of_int (k + 1) \<le> (2::real) ^ 26" by (metis of_int_le_iff of_int_numeral of_int_power zless_imp_add1_zle)
  have "sqrt (of_int n) ^ 2 < (of_int k + 1) ^ 2" using hi assms(1) by (intro power_strict_mono) simp_all
  then have "of_int n < (of_int ((k + 1) ^ 2) :: real)" using assms(1) by simp
  then have "n \<le> (k + 1) ^ 2 - 1" by (simp only: of_int_less_iff)
  then have n_le: "of_int n \<le> (of_int (k + 1) :: real) ^ 2 - 1" by (metis of_int_1 of_int_diff of_int_le_iff of_int_power)
  have sq: "y ^ 2 - 1 \<le> (y - 1 / 2 ^ 27) ^ 2" if "y \<le> 2 ^ 26" for y :: real
    using that by (simp add: power2_diff) (simp add: power2_eq_square)
  have "(of_int (k + 1)) ^ 2 - 1 \<le> ?b ^ 2" using sq [OF k26r] .
  with n_le have "sqrt (of_int n) \<le> sqrt (?b ^ 2)" by (intro real_sqrt_le_mono) linarith
  also have "sqrt (?b ^ 2) = ?b" using k0 by simp
  finally have le: "sqrt (of_int n) \<le> ?b" .
  have "?b = of_int ((k + 1) * 2 ^ 27 - 1) * 2 powi (- 27)" by (simp add: field_simps power_int_def)
  moreover have "\<bar>(k + 1) * 2 ^ 27 - 1\<bar> \<le> 2 ^ 53" using k0 k26 by simp
  ultimately have "representable ?b" using representable_dyadic [of "(k + 1) * 2 ^ 27 - 1" "- 27"] by (simp only: order.refl)
  from rnd_le [OF this le] have "rnd (sqrt (of_int n)) < of_int k + 1" by simp
  moreover have "of_int k \<le> rnd (sqrt (of_int n))"
    using lo k0 k26 by (intro rnd_ge representable_of_int) simp_all
  ultimately have "\<lfloor>rnd (sqrt (of_int n))\<rfloor> = k" by (intro floor_unique) simp_all
  then show ?thesis by (simp add: k_def)
qed

lemma f2i_fsqrt:
  assumes "0 \<le> n" and "n < 2 ^ 52"
  shows "f2i (fsqrt (f64 n)) = \<lfloor>sqrt (of_int n)\<rfloor>" and "\<lfloor>sqrt (of_int n)\<rfloor> < 2 ^ 26" and "0 \<le> \<lfloor>sqrt (of_int n)\<rfloor>"
proof -
  have "of_int n < (2::real) ^ 52" using assms(2) by (metis of_int_less_iff of_int_numeral of_int_power)
  then have "sqrt (of_int n) < sqrt ((2 ^ 26)\<^sup>2)" by (intro real_sqrt_less_mono) simp
  then have lt: "sqrt (of_int n) < 2 ^ 26" by simp
  then show le: "\<lfloor>sqrt (of_int n)\<rfloor> < 2 ^ 26" by (simp add: floor_less_iff)
  show nn: "0 \<le> \<lfloor>sqrt (of_int n)\<rfloor>" using assms(1) by simp
  have "mk (sqrt (of_int n)) = Fin (rnd (sqrt (of_int n)))"
    using lt assms(1) by (intro mk_le_pow2 [of _ 26]) simp_all
  moreover have "f64 n = Fin (of_int n)" using assms by (intro f64_exact) simp
  moreover have "0 \<le> rnd (sqrt (of_int n))" using assms(1) by (intro rnd_nonneg) simp
  moreover have "in_i64 \<lfloor>sqrt (of_int n)\<rfloor>" using nn le less_imp_le [THEN order_trans, of _ "2 ^ 26" "2 ^ 53"] by (intro in_i64_nonneg) simp_all
  ultimately show "f2i (fsqrt (f64 n)) = \<lfloor>sqrt (of_int n)\<rfloor>"
    using assms by (simp add: trunc_nonneg floor_rnd_sqrt)
qed

lemma f2i_max_1: "\<bar>n\<bar> \<le> 2 ^ 53 \<Longrightarrow> f2i (fmax (lit 1) (f64 n)) = max 1 n"
proof -
  assume n: "\<bar>n\<bar> \<le> 2 ^ 53"
  then have "in_i64 (max 1 n)" by (intro in_i64_nonneg) (simp_all add: abs_le_iff)
  then have "f2i (Fin (of_int (max 1 n))) = max 1 n" by (rule f2i_of_int)
  then show ?thesis using n by (simp add: f64_exact of_int_max)
qed

lemma sqrtRootLookup_nth:
  assumes "0 \<le> i" and "i < table_size env" and "i < 2 ^ 52"
  shows "index (sqrtRootLookup env) i = Some (max 1 \<lfloor>sqrt (of_int i)\<rfloor>)"
proof -
  have "\<bar>\<lfloor>sqrt (of_int i)\<rfloor>\<bar> \<le> 2 ^ 53" using f2i_fsqrt(2,3) [OF assms(1,3)] by simp
  then have "f2i (fmax (lit 1) (f64 (f2i (fsqrt (f64 i))))) = max 1 \<lfloor>sqrt (of_int i)\<rfloor>"
    using f2i_fsqrt(1) [OF assms(1,3)] by (simp add: f2i_max_1 del: lit_1)
  then show ?thesis
    using assms by (simp add: index_def length_sqrtRootLookup) (simp add: sqrtRootLookup_def)
qed

text \<open>C40: The precomputed square roots agree with the direct computation: for every limit from
  1 to below \<open>2 ^ 52\<close>, whether it falls in the table or not and whatever its configured size, the
  function returns the larger of the baseline and the integer square root, although both are
  computed with a rounded floating-point square root. A negative limit panics.\<close>

theorem sqrt_table_correct:
  assumes "1 \<le> n" and "n < 2 ^ 52" and "m < 0"
  shows "SqrtRootFunction (sqrtRootLookup env) baseline n = Some (max baseline \<lfloor>sqrt (of_int n)\<rfloor>)
    \<and> SqrtRootFunction (sqrtRootLookup env) baseline m = None"
proof
  have one: "1 \<le> \<lfloor>sqrt (of_int n)\<rfloor>" using assms(1) by (simp add: le_floor_iff)
  show "SqrtRootFunction (sqrtRootLookup env) baseline n = Some (max baseline \<lfloor>sqrt (of_int n)\<rfloor>)"
  proof (cases "n < table_size env")
    case True
    then show ?thesis using sqrtRootLookup_nth [of n env] assms one
      by (auto simp: SqrtRootFunction_def length_sqrtRootLookup max_fn_def)
  next
    case False
    then show ?thesis using f2i_fsqrt(1) [of n] assms
      by (auto simp: SqrtRootFunction_def length_sqrtRootLookup max_fn_def)
  qed
  show "SqrtRootFunction (sqrtRootLookup env) baseline m = None"
    using assms(3) by (simp add: SqrtRootFunction_def index_def)
qed

theorem sqrt_table_correct_witness:
  "SqrtRootFunction (sqrtRootLookup None) 4 2500 = Some 50
   \<and> SqrtRootFunction (sqrtRootLookup None) 4 (- 1) = None"
proof -
  have "sqrt 2500 = 50" using real_sqrt_abs [of 50] by simp
  then show ?thesis using sqrt_table_correct [of 2500 "- 1" None 4] by simp
qed

text \<open>
  What the library relies on from \<open>math.Log10\<close>: for limits it can meet, a finite result of
  moderate size. Rounding the exact logarithm is one such function.
\<close>

definition Log10_ok :: "(float64 \<Rightarrow> float64) \<Rightarrow> bool" where
  "Log10_ok Log10 \<longleftrightarrow>
     (\<forall>x. representable x \<and> 1 \<le> x \<and> x \<le> 2 ^ 53 \<longrightarrow> (\<exists>y. Log10 (Fin x) = Fin y \<and> 0 \<le> y \<and> y \<le> 16))"

fun Log10_rounded :: "float64 \<Rightarrow> float64" where
  "Log10_rounded (Fin x) = (if x < 0 then NaN else if x = 0 then NInf else mk (log 10 x))"
| "Log10_rounded PInf = PInf"
| "Log10_rounded _ = NaN"

lemma Log10_rounded_ok: "Log10_ok Log10_rounded"
proof -
  have "\<exists>y. Log10_rounded (Fin x) = Fin y \<and> 0 \<le> y \<and> y \<le> 16" if "1 \<le> x" "x \<le> 2 ^ 53" for x
  proof -
    have "log 10 x \<le> log 10 (10 ^ 16)" using that by (subst log_le_cancel_iff) simp_all
    moreover have "log 10 (10 ^ 16) = (16 :: real)" by (subst log_nat_power) simp_all
    ultimately have le: "log 10 x \<le> 16" by (simp only:)
    have ge: "0 \<le> log 10 x" using that by (simp add: zero_le_log_cancel_iff)
    have "mk (log 10 x) = Fin (rnd (log 10 x))" using le ge by (intro mk_le_pow2 [of _ 4]) simp_all
    moreover have "rnd (log 10 x) \<le> 16" using le representable_of_int [of 16] by (intro rnd_le) simp_all
    ultimately show ?thesis using that rnd_nonneg [OF ge] by simp
  qed
  then show ?thesis by (simp add: Log10_ok_def)
qed

lemma Log10_index:
  assumes "Log10_ok Log10" and "1 \<le> n" and "n \<le> 2 ^ 52"
  obtains u where "f2i (Log10 (f64 n)) = u" and "0 \<le> u" and "u \<le> 16"
    and "n < table_size env \<Longrightarrow> index (log10RootLookup Log10 env) n = Some (max 1 u)"
proof -
  have n: "\<bar>n\<bar> \<le> 2 ^ 53" using assms(2,3) by simp
  then have rep: "representable (of_int n)" by (rule representable_of_int)
  have "of_int n \<le> (of_int (2 ^ 53) :: real)" using n by (simp only: of_int_le_iff)
  then obtain y where y: "Log10 (Fin (of_int n)) = Fin y" "0 \<le> y" "y \<le> 16"
    using assms(1,2) rep by (auto simp: Log10_ok_def)
  define u where "u = f2i (Log10 (f64 n))"
  have uy: "u = f2i (Fin y)" using y(1) f64_exact [OF n] by (simp only: u_def)
  have u: "0 \<le> u" "u \<le> 16" unfolding uy using f2i_between [of 0 y 16] y(2,3) by (simp_all add: in_i64_def)
  have "index (log10RootLookup Log10 env) n = Some (max 1 u)" if "n < table_size env"
  proof -
    have "f2i (fmax (lit 1) (f64 (f2i (Log10 (f64 n))))) = max 1 u"
      unfolding u_def [symmetric] using u by (intro f2i_max_1) simp
    then show ?thesis using that assms(2)
      by (simp add: index_def length_log10RootLookup) (simp add: log10RootLookup_def)
  qed
  then show thesis using u by (intro that [of u]) (simp_all add: u_def)
qed

lemma Log10RootFunction_range:
  assumes "Log10_ok Log10" and "1 \<le> n" and "n \<le> 2 ^ 52" and "\<bar>baseline\<bar> \<le> 2 ^ 60"
  obtains v where "Log10RootFunction Log10 (log10RootLookup Log10 env) baseline n = Some (baseline + v)"
    and "0 \<le> v" and "v \<le> 16" and "n < table_size env \<Longrightarrow> 1 \<le> v"
proof -
  obtain u where u: "f2i (Log10 (f64 n)) = u" "0 \<le> u" "u \<le> 16"
    "n < table_size env \<Longrightarrow> index (log10RootLookup Log10 env) n = Some (max 1 u)"
    using Log10_index [OF assms(1-3), of env] by metis
  have id: "i64 (baseline + v) = baseline + v" if "0 \<le> v" "v \<le> 16" for v
    using that assms(4) by (intro i64_id in_i64_abs) simp
  show thesis
  proof (cases "n < table_size env")
    case True
    then show thesis using u(2-4) id [of "max 1 u"]
      by (intro that [of "max 1 u"]) (simp_all add: Log10RootFunction_def length_log10RootLookup)
  next
    case False
    then show thesis using id [of u] u
      by (intro that [of u]) (simp_all add: Log10RootFunction_def length_log10RootLookup)
  qed
qed

lemma Log10RootFloatFunction_range:
  assumes "Log10_ok Log10" and "representable x" and "1 \<le> x" and "x \<le> 2 ^ 52"
  obtains v where "Log10RootFloatFunction Log10 (log10RootLookup Log10 env) (Fin 0) (Fin x) = Some (Fin v)"
    and "0 \<le> v" and "v \<le> 16" and "x < 1000 \<Longrightarrow> 1 \<le> v"
proof (cases "f2i (Fin x) < table_size env")
  case True
  have n: "1 \<le> f2i (Fin x)" "f2i (Fin x) \<le> 2 ^ 52"
    using f2i_between [of 1 x "2 ^ 52"] assms(3,4) by (simp_all add: in_i64_def del: f2i.simps)
  obtain u where u: "0 \<le> u" "u \<le> 16" "index (log10RootLookup Log10 env) (f2i (Fin x)) = Some (max 1 u)"
    using Log10_index [OF assms(1) n, of env] True by metis
  have "fadd (Fin 0) (f64 (max 1 u)) = Fin (of_int (max 1 u))"
    using f64_exact [of "max 1 u"] mk_of_int [of "max 1 u"] u(1,2) by (simp del: of_int_max)
  then show thesis using u True
    by (intro that [of "of_int (max 1 u)"]) (simp_all add: Log10RootFloatFunction_def length_log10RootLookup
        del: f2i.simps)
next
  case False
  obtain y where y: "Log10 (Fin x) = Fin y" "0 \<le> y" "y \<le> 16" using assms by (auto simp: Log10_ok_def)
  have "mk y = Fin (rnd y)" using y(2,3) by (intro mk_le_pow2 [of _ 4]) simp_all
  moreover have "rnd y \<le> 16" using y(3) representable_of_int [of 16] by (intro rnd_le) simp_all
  moreover have "\<not> x < 1000"
  proof
    assume "x < 1000"
    then have "f2i (Fin x) < 1000" using assms(3) by (simp add: trunc_nonneg floor_less_iff in_i64_def)
    then show False using False table_size_ge [of env] by simp
  qed
  ultimately show thesis using y False rnd_nonneg [OF y(2)]
    by (intro that [of "rnd y"]) (simp_all add: Log10RootFloatFunction_def length_log10RootLookup del: f2i.simps)
qed

end
