(* ===== verification/Limit_Basic.thy ===== *)
theory Limit_Basic
  imports Core
begin

text \<open>
  The limits that do not adapt: \<open>limit/fixed.go\<close>, \<open>limit/settable.go\<close> and the logging wrapper
  \<open>limit/traced.go\<close>.
\<close>

section \<open>FixedLimit\<close>

record fixed =
  fx_limit :: int
  fx_registry :: registry
  fx_commonSampler :: "common_sampler option"

definition NewFixedLimit :: "string \<Rightarrow> int \<Rightarrow> registry \<Rightarrow> string list \<Rightarrow> fixed \<times> effect list" where
  "NewFixedLimit name lmt registry tags =
     (let lmt = (if lmt < 0 then 10 else lmt);
          registry = registry_or_empty registry;
          (sampler, e) = NewCommonMetricSamplerOrNil registry name tags
      in (\<lparr>fx_limit = lmt, fx_registry = registry, fx_commonSampler = sampler\<rparr>, e))"

definition fixed_EstimatedLimit :: "fixed \<Rightarrow> int" where
  "fixed_EstimatedLimit l = fx_limit l"

definition fixed_NotifyOnChange :: "nat \<Rightarrow> fixed \<Rightarrow> fixed" where
  "fixed_NotifyOnChange consumer l = l"

definition fixed_OnSample :: "int \<Rightarrow> int \<Rightarrow> int \<Rightarrow> bool \<Rightarrow> fixed \<Rightarrow> fixed \<times> effect list" where
  "fixed_OnSample startTime rtt inFlight didDrop l = (l, Sample (fx_commonSampler l) rtt inFlight didDrop)"

definition fixed_ops :: "fixed limit_ops" where
  "fixed_ops = \<lparr>EstimatedLimit = fixed_EstimatedLimit, NotifyOnChange = fixed_NotifyOnChange,
     OnSample = (\<lambda>_. fixed_OnSample)\<rparr>"

section \<open>SettableLimit\<close>

record settable =
  st_limit :: int
  st_listeners :: "nat list"
  st_commonSampler :: "common_sampler option"

definition NewSettableLimit :: "string \<Rightarrow> int \<Rightarrow> registry \<Rightarrow> string list \<Rightarrow> settable \<times> effect list" where
  "NewSettableLimit name lmt registry tags =
     (let lmt = (if lmt < 0 then 10 else lmt);
          registry = registry_or_empty registry;
          (sampler, e) = NewCommonMetricSamplerOrNil registry name tags
      in (\<lparr>st_limit = i32 lmt, st_listeners = [], st_commonSampler = sampler\<rparr>, e))"

definition settable_EstimatedLimit :: "settable \<Rightarrow> int" where
  "settable_EstimatedLimit l = st_limit l"

definition settable_NotifyOnChange :: "nat \<Rightarrow> settable \<Rightarrow> settable" where
  "settable_NotifyOnChange consumer l = l\<lparr>st_listeners := st_listeners l @ [consumer]\<rparr>"

definition settable_notifyListeners :: "int \<Rightarrow> settable \<Rightarrow> effect list" where
  "settable_notifyListeners newLimit l = notify_all (st_listeners l) newLimit"

definition settable_OnSample :: "int \<Rightarrow> int \<Rightarrow> int \<Rightarrow> bool \<Rightarrow> settable \<Rightarrow> settable \<times> effect list" where
  "settable_OnSample startTime rtt inFlight didDrop l =
     (l, Sample (st_commonSampler l) rtt inFlight didDrop)"

definition settable_SetLimit :: "int \<Rightarrow> settable \<Rightarrow> settable \<times> effect list" where
  "settable_SetLimit lmt l =
     (let l' = l\<lparr>st_limit := i32 lmt\<rparr> in (l', settable_notifyListeners lmt l'))"

definition settable_ops :: "settable limit_ops" where
  "settable_ops = \<lparr>EstimatedLimit = settable_EstimatedLimit, NotifyOnChange = settable_NotifyOnChange,
     OnSample = (\<lambda>_. settable_OnSample)\<rparr>"

section \<open>TracedLimit\<close>

datatype logger = NoopLimitLogger | BuiltinLimitLogger

fun logger_Debugf :: "logger \<Rightarrow> string \<Rightarrow> log_arg list \<Rightarrow> effect list" where
  "logger_Debugf NoopLimitLogger msg params = []"
| "logger_Debugf BuiltinLimitLogger msg params = [Debugf msg params]"

fun logger_IsDebugEnabled :: "logger \<Rightarrow> bool" where
  "logger_IsDebugEnabled NoopLimitLogger = False"
| "logger_IsDebugEnabled BuiltinLimitLogger = True"

record 'l traced =
  tr_limit :: 'l
  tr_logger :: logger

definition NewTracedLimit :: "'l \<Rightarrow> logger \<Rightarrow> 'l traced" where
  "NewTracedLimit lmt logger = \<lparr>tr_limit = lmt, tr_logger = logger\<rparr>"

definition traced_EstimatedLimit :: "'l limit_ops \<Rightarrow> 'l traced \<Rightarrow> int \<times> effect list" where
  "traced_EstimatedLimit ops l =
     (let estimatedLimit = EstimatedLimit ops (tr_limit l)
      in (estimatedLimit, logger_Debugf (tr_logger l) (''estimatedLimit=%d'' @ [CHR 0x0A]) [LogInt estimatedLimit]))"

definition traced_NotifyOnChange :: "'l limit_ops \<Rightarrow> nat \<Rightarrow> 'l traced \<Rightarrow> 'l traced" where
  "traced_NotifyOnChange ops consumer l = l\<lparr>tr_limit := NotifyOnChange ops consumer (tr_limit l)\<rparr>"

text \<open>The round-trip time is logged in milliseconds.\<close>

definition traced_OnSample ::
    "'l limit_ops \<Rightarrow> rand \<Rightarrow> int \<Rightarrow> int \<Rightarrow> int \<Rightarrow> bool \<Rightarrow> 'l traced \<Rightarrow> 'l traced \<times> effect list" where
  "traced_OnSample ops rd startTime rtt inFlight didDrop l =
     (let e = logger_Debugf (tr_logger l) ''startTime=%d, rtt=%d ms, inFlight=%d, didDrop=%t''
                [LogInt startTime, LogInt (quot rtt 1000000), LogInt inFlight, LogBool didDrop];
          (l', e') = OnSample ops rd startTime rtt inFlight didDrop (tr_limit l)
      in (l\<lparr>tr_limit := l'\<rparr>, e @ e'))"

definition traced_ops :: "'l limit_ops \<Rightarrow> 'l traced limit_ops" where
  "traced_ops ops = \<lparr>EstimatedLimit = (\<lambda>l. fst (traced_EstimatedLimit ops l)),
     NotifyOnChange = traced_NotifyOnChange ops, OnSample = traced_OnSample ops\<rparr>"

section \<open>Contracts\<close>

interpretation fixed_limit: bounded_limit fixed_ops "\<lambda>l. fx_limit l = n" "\<lambda>_. True" n n for n
  by unfold_locales (simp_all add: fixed_ops_def fixed_OnSample_def fixed_EstimatedLimit_def)

interpretation settable_limit: bounded_limit settable_ops "\<lambda>l. st_limit l = n" "\<lambda>_. True" n n for n
  by unfold_locales (simp_all add: settable_ops_def settable_OnSample_def settable_EstimatedLimit_def)

lemma traced_OnSample_limit:
  "tr_limit (fst (OnSample (traced_ops ops) r st rtt infl d l)) = fst (OnSample ops r st rtt infl d (tr_limit l))"
  by (simp add: traced_ops_def traced_OnSample_def case_prod_beta)

lemma traced_Estimated: "EstimatedLimit (traced_ops ops) l = EstimatedLimit ops (tr_limit l)"
  by (simp add: traced_ops_def traced_EstimatedLimit_def Let_def)

lemma traced_run_limit: "tr_limit (limit_run (traced_ops ops) l xs) = limit_run ops (tr_limit l) xs"
  by (induction xs arbitrary: l) (auto simp: limit_run_def traced_OnSample_limit)

text \<open>Tracing is transparent: for every limit and every sequence of samples the traced
  limit holds the same inner state and reports the same estimate as the limit itself, and each
  sample causes the inner limit's effects in the same order, after at most one log line.\<close>

theorem traced_transparent:
  "tr_limit (limit_run (traced_ops ops) (NewTracedLimit l lg) xs) = limit_run ops l xs
   \<and> EstimatedLimit (traced_ops ops) (limit_run (traced_ops ops) (NewTracedLimit l lg) xs)
       = EstimatedLimit ops (limit_run ops l xs)
   \<and> (\<exists>line. snd (OnSample (traced_ops ops) r st rtt infl d (NewTracedLimit l lg))
         = line @ snd (OnSample ops r st rtt infl d l)
       \<and> length line \<le> 1 \<and> (line = [] \<longleftrightarrow> lg = NoopLimitLogger))"
proof -
  let ?line = "logger_Debugf lg ''startTime=%d, rtt=%d ms, inFlight=%d, didDrop=%t''
      [LogInt st, LogInt (quot rtt 1000000), LogInt infl, LogBool d]"
  have "snd (OnSample (traced_ops ops) r st rtt infl d (NewTracedLimit l lg))
      = ?line @ snd (OnSample ops r st rtt infl d l)"
    by (simp add: traced_ops_def traced_OnSample_def NewTracedLimit_def split: prod.splits)
  moreover have "length ?line \<le> 1 \<and> (?line = [] \<longleftrightarrow> lg = NoopLimitLogger)" by (cases lg) simp_all
  ultimately show ?thesis by (auto simp: traced_run_limit traced_Estimated NewTracedLimit_def)
qed

text \<open>Setting a limit stores its lowest 32 bits but tells the listeners the value it was
  given: for values in the 32-bit range every listener is told what \<open>EstimatedLimit\<close> then
  returns, and for the value \<open>2 ^ 32\<close> it is told \<open>2 ^ 32\<close> while the limit is zero.\<close>

theorem settable_SetLimit_notifies:
  assumes "in_i32 n"
  shows "settable_EstimatedLimit (fst (settable_SetLimit n l)) = n
    \<and> snd (settable_SetLimit n l) = map (\<lambda>k. Notify k n) (st_listeners l)
    \<and> settable_EstimatedLimit (fst (settable_SetLimit (2 ^ 32) l)) = 0
    \<and> snd (settable_SetLimit (2 ^ 32) l) = map (\<lambda>k. Notify k (2 ^ 32)) (st_listeners l)"
proof -
  have "i32 (2 ^ 32) = 0" by (simp add: i32_def)
  then show ?thesis using assms
    by (simp add: settable_SetLimit_def settable_EstimatedLimit_def settable_notifyListeners_def
        notify_all_def i32_id)
qed

theorem settable_SetLimit_notifies_witness:
  "snd (settable_SetLimit 7 (settable_NotifyOnChange 3 (fst (NewSettableLimit ''a'' 5 NilRegistry []))))
     = [Notify 3 7]"
  using settable_SetLimit_notifies [of 7 "settable_NotifyOnChange 3 (fst (NewSettableLimit ''a'' 5 NilRegistry []))"]
  by (simp add: in_i32_def settable_NotifyOnChange_def NewSettableLimit_def registry_or_empty_def
      NewCommonMetricSamplerOrNil_def)

end
