(* ===== verification/Measurements.thy ===== *)
theory Measurements
  imports Core
begin

text \<open>
  The package \<open>measurements\<close> without the sample window: the implementations of
  \<open>core.MeasurementInterface\<close>. \<open>Add\<close> returns the current value and whether it changed. The
  locales state what the interface documents; the implementations that keep it are
  interpretations.
\<close>

section \<open>MinimumMeasurement\<close>

record minimum =
  mn_value :: float64

definition minimum_zero :: minimum where
  "minimum_zero = \<lparr>mn_value = Fin 0\<rparr>"

definition minimum_Add :: "float64 \<Rightarrow> minimum \<Rightarrow> (float64 \<times> bool) \<times> minimum" where
  "minimum_Add sample m =
     (let oldValue = mn_value m;
          m' = (if feq oldValue (lit 0) \<or> fless sample oldValue then m\<lparr>mn_value := sample\<rparr> else m)
      in ((mn_value m', feq oldValue (mn_value m')), m'))"

definition minimum_Get :: "minimum \<Rightarrow> float64" where
  "minimum_Get m = mn_value m"

definition minimum_Reset :: "minimum \<Rightarrow> minimum" where
  "minimum_Reset m = m\<lparr>mn_value := lit 0\<rparr>"

definition minimum_Update :: "(float64 \<Rightarrow> float64) \<Rightarrow> minimum \<Rightarrow> minimum" where
  "minimum_Update operation m = (let current = mn_value m in snd (minimum_Add (operation current) m))"

section \<open>SingleMeasurement\<close>

record single =
  sg_value :: float64

definition single_Add :: "float64 \<Rightarrow> single \<Rightarrow> (float64 \<times> bool) \<times> single" where
  "single_Add value m = (let m' = m\<lparr>sg_value := value\<rparr> in ((sg_value m', True), m'))"

definition single_Get :: "single \<Rightarrow> float64" where
  "single_Get m = sg_value m"

definition single_Reset :: "single \<Rightarrow> single" where
  "single_Reset m = m\<lparr>sg_value := lit 0\<rparr>"

definition single_Update :: "(float64 \<Rightarrow> float64) \<Rightarrow> single \<Rightarrow> single" where
  "single_Update operation m = m\<lparr>sg_value := operation (sg_value m)\<rparr>"

section \<open>ExponentialAverageMeasurement\<close>

record expavg =
  ea_value :: float64
  ea_sum :: float64
  ea_window :: int
  ea_warmupWindow :: int
  ea_count :: int

definition NewExponentialAverageMeasurement :: "int \<Rightarrow> int \<Rightarrow> expavg" where
  "NewExponentialAverageMeasurement window warmupWindow =
     \<lparr>ea_value = Fin 0, ea_sum = Fin 0, ea_window = window, ea_warmupWindow = warmupWindow, ea_count = 0\<rparr>"

definition factor :: "int \<Rightarrow> float64" where
  "factor n = fdiv (lit 2) (f64 (i64 (n + 1)))"

definition expavg_Add :: "float64 \<Rightarrow> expavg \<Rightarrow> (float64 \<times> bool) \<times> expavg" where
  "expavg_Add value m =
     (let m' = (if ea_count m < ea_warmupWindow m
                then let c = i64 (ea_count m + 1); s = fadd (ea_sum m) value
                     in m\<lparr>ea_count := c, ea_sum := s, ea_value := fdiv s (f64 c)\<rparr>
                else let f = factor (ea_window m)
                     in m\<lparr>ea_value := fadd (fmul (ea_value m) (fsub (lit 1) f)) (fmul value f)\<rparr>)
      in ((ea_value m', True), m'))"

definition expavg_Get :: "expavg \<Rightarrow> float64" where
  "expavg_Get m = ea_value m"

definition expavg_Reset :: "expavg \<Rightarrow> expavg" where
  "expavg_Reset m = m\<lparr>ea_value := lit 0, ea_count := 0, ea_sum := lit 0\<rparr>"

definition expavg_Update :: "(float64 \<Rightarrow> float64) \<Rightarrow> expavg \<Rightarrow> expavg" where
  "expavg_Update operation m = m\<lparr>ea_value := operation (ea_value m)\<rparr>"

section \<open>SimpleExponentialMovingAverage\<close>

record sema =
  sm_alpha :: float64
  sm_initialAlpha :: float64
  sm_minSamples :: int
  sm_seenSamples :: int
  sm_value :: float64

datatype measurement_error = AlphaRange | PercentileRange

text \<open>\<open>math.Trunc\<close> of a value that \<open>math.Ceil\<close> made integral is that value.\<close>

definition NewSimpleExponentialMovingAverage :: "float64 \<Rightarrow> measurement_error + sema" where
  "NewSimpleExponentialMovingAverage alpha =
     (if fless alpha (lit 0) \<or> fless (lit 1) alpha then Inl AlphaRange
      else Inr \<lparr>sm_alpha = alpha, sm_initialAlpha = alpha,
                sm_minSamples = f2i (fceil (fdiv (lit 1) alpha)),
                sm_seenSamples = 0, sm_value = Fin 0\<rparr>)"

definition sema_add :: "float64 \<Rightarrow> sema \<Rightarrow> (float64 \<times> bool) \<times> sema" where
  "sema_add value m =
     (let seen = (if sm_seenSamples m < sm_minSamples m then i64 (sm_seenSamples m + 1) else sm_seenSamples m);
          alpha = (if seen \<ge> sm_minSamples m then sm_alpha m else fdiv (lit 1) (f64 seen));
          newValue = fadd (fmul (fsub (lit 1) alpha) (sm_value m)) (fmul alpha value);
          changed = (\<not> feq newValue (sm_value m))
      in ((newValue, changed), m\<lparr>sm_seenSamples := seen, sm_value := newValue\<rparr>))"

definition sema_Add :: "float64 \<Rightarrow> sema \<Rightarrow> (float64 \<times> bool) \<times> sema" where
  "sema_Add value m = sema_add value m"

definition sema_Get :: "sema \<Rightarrow> float64" where
  "sema_Get m = sm_value m"

definition sema_Reset :: "sema \<Rightarrow> sema" where
  "sema_Reset m = m\<lparr>sm_seenSamples := 0, sm_value := lit 0, sm_alpha := sm_initialAlpha m\<rparr>"

definition sema_Update :: "(float64 \<Rightarrow> float64) \<Rightarrow> sema \<Rightarrow> sema" where
  "sema_Update operation m =
     (let ((newValue, _), m') = sema_add (sm_value m) m in m'\<lparr>sm_value := operation newValue\<rparr>)"

section \<open>SimpleMovingVariance\<close>

record mvar =
  mv_average :: sema
  mv_variance :: sema
  mv_stdev :: float64
  mv_normalized :: float64

definition NewSimpleMovingVariance :: "float64 \<Rightarrow> float64 \<Rightarrow> measurement_error + mvar" where
  "NewSimpleMovingVariance alphaAverage alphaVariance =
     (case NewSimpleExponentialMovingAverage alphaAverage of
        Inl err \<Rightarrow> Inl err
      | Inr movingAverage \<Rightarrow>
          (case NewSimpleExponentialMovingAverage alphaVariance of
             Inl err \<Rightarrow> Inl err
           | Inr variance \<Rightarrow> Inr \<lparr>mv_average = movingAverage, mv_variance = variance,
                                  mv_stdev = Fin 0, mv_normalized = Fin 0\<rparr>))"

definition mvar_Add :: "float64 \<Rightarrow> mvar \<Rightarrow> (float64 \<times> bool) \<times> mvar" where
  "mvar_Add value m =
     (let v = (if sm_seenSamples (mv_average m) > 0
               then snd (sema_Add (fsquare (fsub value (sema_Get (mv_average m)))) (mv_variance m))
               else mv_variance m);
          a = snd (sema_Add value (mv_average m));
          mean = sema_Get a;
          variance = sema_Get v;
          stdev = fsqrt variance;
          normalized = (if \<not> feq stdev (lit 0) then fdiv (fsub value mean) stdev else mv_normalized m);
          changed = (\<not> feq stdev (mv_stdev m) \<or> \<not> feq normalized (mv_normalized m))
      in ((stdev, changed),
          m\<lparr>mv_average := a, mv_variance := v, mv_stdev := stdev, mv_normalized := normalized\<rparr>))"

definition mvar_Get :: "mvar \<Rightarrow> float64" where
  "mvar_Get m = sema_Get (mv_variance m)"

definition mvar_Reset :: "mvar \<Rightarrow> mvar" where
  "mvar_Reset m =
     m\<lparr>mv_average := sema_Reset (mv_average m), mv_variance := sema_Reset (mv_variance m),
       mv_stdev := lit 0, mv_normalized := lit 0\<rparr>"

definition mvar_Update :: "(float64 \<Rightarrow> float64) \<Rightarrow> mvar \<Rightarrow> mvar" where
  "mvar_Update operation m = m\<lparr>mv_stdev := operation (sema_Get (mv_variance m))\<rparr>"

section \<open>WindowlessMovingPercentile\<close>

record wpct =
  wp_p :: float64
  wp_deltaInitial :: float64
  wp_value :: float64
  wp_delta :: float64
  wp_deltaState :: mvar
  wp_seenCount :: int

definition NewWindowlessMovingPercentile ::
    "float64 \<Rightarrow> float64 \<Rightarrow> float64 \<Rightarrow> float64 \<Rightarrow> measurement_error + wpct" where
  "NewWindowlessMovingPercentile p deltaInitial movingAvgAlphaAvg movingVarianceAlphaVar =
     (if fle p (lit 0) \<or> fle (lit 1) p then Inl PercentileRange
      else case NewSimpleMovingVariance movingAvgAlphaAvg movingVarianceAlphaVar of
             Inl err \<Rightarrow> Inl err
           | Inr variance \<Rightarrow> Inr \<lparr>wp_p = p, wp_deltaInitial = deltaInitial, wp_value = Fin 0,
                                  wp_delta = deltaInitial, wp_deltaState = variance, wp_seenCount = 0\<rparr>)"

definition wpct_add :: "float64 \<Rightarrow> wpct \<Rightarrow> (float64 \<times> bool) \<times> wpct" where
  "wpct_add value m =
     (let seen = (if wp_seenCount m < 2 then wp_seenCount m + 1 else wp_seenCount m);
          originalDelta = wp_delta m;
          ((stdev, _), ds) = mvar_Add value (wp_deltaState m);
          delta = (if seen \<ge> 2 then fmul (wp_deltaInitial m) stdev else wp_delta m);
          changed = (seen \<ge> 2 \<and> \<not> feq delta originalDelta);
          newValue = (if seen = 1 then value
                      else if fless value (wp_value m) then fsub (wp_value m) (fdiv delta (wp_p m))
                      else if fless (wp_value m) value
                           then fadd (wp_value m) (fdiv delta (fsub (lit 1) (wp_p m)))
                      else wp_value m);
          changed = (changed \<or> seen = 1 \<or> \<not> feq newValue (wp_value m))
      in ((newValue, changed),
          m\<lparr>wp_seenCount := seen, wp_deltaState := ds, wp_delta := delta, wp_value := newValue\<rparr>))"

definition wpct_Add :: "float64 \<Rightarrow> wpct \<Rightarrow> (float64 \<times> bool) \<times> wpct" where
  "wpct_Add value m = wpct_add value m"

definition wpct_Get :: "wpct \<Rightarrow> float64" where
  "wpct_Get m = wp_value m"

definition wpct_Reset :: "wpct \<Rightarrow> wpct" where
  "wpct_Reset m = m\<lparr>wp_value := lit 0, wp_seenCount := 0\<rparr>"

definition wpct_Update :: "(float64 \<Rightarrow> float64) \<Rightarrow> wpct \<Rightarrow> wpct" where
  "wpct_Update operation m =
     (let ((newValue, _), m') = wpct_add (wp_value m) m in m'\<lparr>wp_value := operation newValue\<rparr>)"

section \<open>The interface\<close>

text \<open>A value of the interface type is one of the implementations; calls dispatch on it.\<close>

datatype measurement =
    Minimum minimum | Single single | ExponentialAverage expavg
  | SimpleEMA sema | MovingVariance mvar | MovingPercentile wpct

definition lift_Add :: "('m \<Rightarrow> measurement) \<Rightarrow> (float64 \<times> bool) \<times> 'm \<Rightarrow> (float64 \<times> bool) \<times> measurement" where
  "lift_Add c r = (fst r, c (snd r))"

fun meas_Add :: "float64 \<Rightarrow> measurement \<Rightarrow> (float64 \<times> bool) \<times> measurement" where
  "meas_Add v (Minimum m) = lift_Add Minimum (minimum_Add v m)"
| "meas_Add v (Single m) = lift_Add Single (single_Add v m)"
| "meas_Add v (ExponentialAverage m) = lift_Add ExponentialAverage (expavg_Add v m)"
| "meas_Add v (SimpleEMA m) = lift_Add SimpleEMA (sema_Add v m)"
| "meas_Add v (MovingVariance m) = lift_Add MovingVariance (mvar_Add v m)"
| "meas_Add v (MovingPercentile m) = lift_Add MovingPercentile (wpct_Add v m)"

fun meas_Get :: "measurement \<Rightarrow> float64" where
  "meas_Get (Minimum m) = minimum_Get m"
| "meas_Get (Single m) = single_Get m"
| "meas_Get (ExponentialAverage m) = expavg_Get m"
| "meas_Get (SimpleEMA m) = sema_Get m"
| "meas_Get (MovingVariance m) = mvar_Get m"
| "meas_Get (MovingPercentile m) = wpct_Get m"

fun meas_Reset :: "measurement \<Rightarrow> measurement" where
  "meas_Reset (Minimum m) = Minimum (minimum_Reset m)"
| "meas_Reset (Single m) = Single (single_Reset m)"
| "meas_Reset (ExponentialAverage m) = ExponentialAverage (expavg_Reset m)"
| "meas_Reset (SimpleEMA m) = SimpleEMA (sema_Reset m)"
| "meas_Reset (MovingVariance m) = MovingVariance (mvar_Reset m)"
| "meas_Reset (MovingPercentile m) = MovingPercentile (wpct_Reset m)"

fun meas_Update :: "(float64 \<Rightarrow> float64) \<Rightarrow> measurement \<Rightarrow> measurement" where
  "meas_Update f (Minimum m) = Minimum (minimum_Update f m)"
| "meas_Update f (Single m) = Single (single_Update f m)"
| "meas_Update f (ExponentialAverage m) = ExponentialAverage (expavg_Update f m)"
| "meas_Update f (SimpleEMA m) = SimpleEMA (sema_Update f m)"
| "meas_Update f (MovingVariance m) = MovingVariance (mvar_Update f m)"
| "meas_Update f (MovingPercentile m) = MovingPercentile (wpct_Update f m)"

definition adds :: "(float64 \<Rightarrow> 'm \<Rightarrow> (float64 \<times> bool) \<times> 'm) \<Rightarrow> 'm \<Rightarrow> float64 list \<Rightarrow> 'm" where
  "adds add m xs = foldl (\<lambda>m v. snd (add v m)) m xs"

text \<open>
  The contract: \<open>Reset\<close> makes the state as if no samples were ever added, and \<open>Add\<close> returns
  the current value.
\<close>

locale resettable =
  fixes add :: "float64 \<Rightarrow> 'm \<Rightarrow> (float64 \<times> bool) \<times> 'm"
    and get :: "'m \<Rightarrow> float64"
    and reset :: "'m \<Rightarrow> 'm"
  assumes get_reset: "get (reset m) = Fin 0"
    and reset_forgets: "reset (snd (add v m)) = reset m"
begin

lemma reset_adds: "reset (adds add m xs) = reset m"
  by (induction xs arbitrary: m) (simp_all add: adds_def reset_forgets)

lemma adds_after_reset: "adds add (reset (adds add m xs)) ys = adds add (reset m) ys"
  by (simp add: reset_adds)

end

locale measurement_contract = resettable +
  assumes add_returns_get: "fst (fst (add v m)) = get (snd (add v m))"
begin

lemma adds_last: "get (adds add m (xs @ [x])) = fst (fst (add x (adds add m xs)))"
  by (simp add: adds_def add_returns_get)

end

interpretation minimum_meas: measurement_contract minimum_Add minimum_Get minimum_Reset
  by unfold_locales (auto simp: minimum_Add_def minimum_Get_def minimum_Reset_def Let_def)

interpretation single_meas: measurement_contract single_Add single_Get single_Reset
  by unfold_locales (auto simp: single_Add_def single_Get_def single_Reset_def Let_def)

interpretation expavg_meas: measurement_contract expavg_Add expavg_Get expavg_Reset
  by unfold_locales (auto simp: expavg_Add_def expavg_Get_def expavg_Reset_def Let_def)

interpretation sema_meas: measurement_contract sema_Add sema_Get sema_Reset
  by unfold_locales (auto simp: sema_Add_def sema_add_def sema_Get_def sema_Reset_def Let_def)

interpretation mvar_meas: resettable mvar_Add mvar_Get mvar_Reset
  using sema_meas.reset_forgets
  by unfold_locales (auto simp: mvar_Add_def mvar_Get_def mvar_Reset_def sema_meas.get_reset Let_def)

section \<open>Properties\<close>

lemma minimum_step:
  "mn_value m = Fin a \<Longrightarrow> a \<noteq> 0 \<Longrightarrow> mn_value (snd (minimum_Add (Fin x) m)) = Fin (min a x)"
  by (auto simp: minimum_Add_def Let_def min_def)

text \<open>The minimum measurement is the minimum: after adding any non-empty sequence of non-zero
  finite samples to a fresh measurement, its value is the smallest of them.\<close>

theorem minimum_correct:
  assumes "xs \<noteq> []" and "0 \<notin> set xs"
  shows "minimum_Get (adds minimum_Add minimum_zero (map Fin xs)) = Fin (Min (set xs))"
  using assms
proof (induction xs rule: rev_induct)
  case Nil
  then show ?case by simp
next
  case (snoc x xs)
  show ?case
  proof (cases "xs = []")
    case True
    then show ?thesis by (simp add: adds_def minimum_Add_def minimum_zero_def minimum_Get_def)
  next
    case False
    let ?m = "adds minimum_Add minimum_zero (map Fin xs)"
    have val: "mn_value ?m = Fin (Min (set xs))" using snoc False by (simp add: minimum_Get_def)
    moreover have "Min (set xs) \<in> set xs" using False by (intro Min_in) simp_all
    then have "Min (set xs) \<noteq> 0" using snoc.prems(2) by (metis Un_iff set_append)
    moreover have "adds minimum_Add minimum_zero (map Fin (xs @ [x])) = snd (minimum_Add (Fin x) ?m)"
      by (simp add: adds_def)
    ultimately show ?thesis using False minimum_step [of ?m "Min (set xs)" x]
      by (simp add: minimum_Get_def min.commute)
  qed
qed

theorem minimum_correct_witness:
  "minimum_Get (adds minimum_Add minimum_zero (map Fin [5, 3, 4])) = Fin 3"
  using minimum_correct [of "[5, 3, 4]"] by simp

lemma meas_adds:
  "adds meas_Add (Minimum a) xs = Minimum (adds minimum_Add a xs)"
  "adds meas_Add (Single b) xs = Single (adds single_Add b xs)"
  "adds meas_Add (ExponentialAverage c) xs = ExponentialAverage (adds expavg_Add c xs)"
  "adds meas_Add (SimpleEMA d) xs = SimpleEMA (adds sema_Add d xs)"
  "adds meas_Add (MovingVariance e) xs = MovingVariance (adds mvar_Add e xs)"
  by (induction xs arbitrary: a b c d e) (simp_all add: adds_def lift_Add_def)

text \<open>Resetting a measurement makes it as if no samples were ever added, for every
  implementation but the moving percentile: whatever was added before, the state after a reset is
  the same and its value is zero.\<close>

theorem measurement_reset_fresh:
  assumes "case m of MovingPercentile w \<Rightarrow> False | _ \<Rightarrow> True"
  shows "meas_Reset (adds meas_Add m xs) = meas_Reset m \<and> meas_Get (meas_Reset m) = Fin 0"
  using assms
  by (cases m) (simp_all add: meas_adds minimum_meas.reset_adds single_meas.reset_adds
      expavg_meas.reset_adds sema_meas.reset_adds mvar_meas.reset_adds minimum_meas.get_reset
      single_meas.get_reset expavg_meas.get_reset sema_meas.get_reset mvar_meas.get_reset)

theorem measurement_reset_fresh_witness:
  "meas_Reset (adds meas_Add (ExponentialAverage (NewExponentialAverageMeasurement 4 2)) [Fin 1, Fin 2])
     = meas_Reset (ExponentialAverage (NewExponentialAverageMeasurement 4 2))"
  using measurement_reset_fresh [of "ExponentialAverage (NewExponentialAverageMeasurement 4 2)"] by simp

text \<open>Resetting a moving percentile keeps the state of its variance estimate: a percentile
  that has seen a sample is not, after a reset, the one it was before.\<close>

theorem percentile_reset_keeps_variance:
  "\<exists>m. NewWindowlessMovingPercentile (lit (1 / 2)) (lit 1) (lit 1) (lit 1) = Inr m
     \<and> wpct_Reset m = m \<and> wpct_Reset (snd (wpct_Add (lit 1) m)) \<noteq> m
     \<and> sm_seenSamples (mv_average (wp_deltaState (wpct_Reset (snd (wpct_Add (lit 1) m))))) = 1"
proof -
  have half: "rnd (1 / 2) = 1 / 2" using rnd_dyadic [of 1 "- 1"] by (simp add: power_int_def)
  have "mk (1 / 2) = Fin (1 / 2)" using pow2_le_huge [of 0] by (subst mk_Fin) (simp_all add: half)
  moreover have "i64 1 = 1" by (rule i64_id) (simp add: in_i64_def)
  ultimately show ?thesis
    by (auto simp: NewWindowlessMovingPercentile_def NewSimpleMovingVariance_def trunc_def
        NewSimpleExponentialMovingAverage_def wpct_Reset_def wpct_Add_def wpct_add_def mvar_Add_def
        sema_Add_def sema_add_def Let_def in_i64_def f64_exact split: prod.splits)
qed

section \<open>The range of the exponential average\<close>

definition expavg_inv :: "expavg \<Rightarrow> bool" where
  "expavg_inv m \<longleftrightarrow> 1 \<le> ea_window m \<and> ea_window m \<le> 2 ^ 31 \<and> ea_warmupWindow m \<le> 2 ^ 31
     \<and> 0 \<le> ea_count m \<and> ea_count m \<le> 2 ^ 31
     \<and> (\<exists>s. ea_sum m = Fin s \<and> of_int (ea_count m) \<le> s \<and> s \<le> of_int (ea_count m) * 2 ^ 63)
     \<and> (ea_count m < ea_warmupWindow m \<or> (\<exists>x. ea_value m = Fin x \<and> representable x \<and> 1 \<le> x \<and> x \<le> 2 ^ 63))"

lemma factor_range:
  assumes "1 \<le> n" and "n \<le> 2 ^ 31"
  obtains f where "factor n = Fin f" and "representable f" and "0 \<le> f" and "f \<le> 1"
proof -
  have one: "representable 1" using representable_of_int [of 1] by simp
  have q: "0 \<le> 2 / (of_int n + 1 :: real)" "2 / (of_int n + 1 :: real) \<le> 1" using assms(1) by (simp_all add: field_simps)
  have "f64 (i64 (n + 1)) = Fin (of_int n + 1)"
    using assms f64_exact [of "n + 1"] by (simp add: i64_id in_i64_def)
  moreover have "mk 2 = Fin 2" using mk_of_int [of 2] by simp
  moreover have "mk (2 / (of_int n + 1)) = Fin (rnd (2 / (of_int n + 1)))"
    using q by (intro mk_le_pow2 [of _ 0]) simp_all
  ultimately have "factor n = Fin (rnd (2 / (of_int n + 1)))" using assms(1) by (simp add: factor_def)
  then show thesis using q one
    by (intro that [of "rnd (2 / (of_int n + 1))"] rnd_nonneg rnd_le representable_rnd) simp_all
qed

lemma expavg_warmup:
  assumes "0 \<le> c" and "c < 2 ^ 31" and "of_int c \<le> s" and "s \<le> of_int c * 2 ^ 63" and "1 \<le> v" and "v \<le> 2 ^ 63"
  obtains s' x where "fadd (Fin s) (Fin v) = Fin s'" and "of_int (c + 1) \<le> s'" and "s' \<le> of_int (c + 1) * 2 ^ 63"
    and "fdiv (Fin s') (f64 (c + 1)) = Fin x" and "representable x" and "1 \<le> x" and "x \<le> 2 ^ 63"
proof -
  have c1: "\<bar>c + 1\<bar> \<le> 2 ^ 53" using assms(1,2) by simp
  then have rc: "representable (of_int (c + 1))" by (rule representable_of_int)
  have cr: "of_int (c + 1) \<le> (2::real) ^ 31" using assms(2)
    by (metis of_int_le_iff of_int_numeral of_int_power zless_imp_add1_zle)
  have "of_int (c + 1) * 2 ^ 63 \<le> (2::real) ^ 31 * 2 ^ 63" using cr by (intro mult_right_mono) simp_all
  then have big: "of_int (c + 1) * 2 ^ 63 \<le> (2::real) ^ 94" by simp
  have lo: "of_int (c + 1) \<le> s + v" and hi: "s + v \<le> of_int (c + 1) * 2 ^ 63" using assms(3-6) by (simp_all add: algebra_simps)
  have pos: "0 \<le> s + v" using lo assms(1) by simp
  have s': "fadd (Fin s) (Fin v) = Fin (rnd (s + v))"
    using hi big pos by (simp add: mk_le_pow2 [of _ 94])
  have slo: "of_int (c + 1) \<le> rnd (s + v)" using lo rc by (intro rnd_ge)
  have shi: "rnd (s + v) \<le> of_int (c + 1) * 2 ^ 63" using hi by (intro rnd_le representable_scale rc)
  let ?q = "rnd (s + v) / of_int (c + 1)"
  have q: "1 \<le> ?q" "?q \<le> 2 ^ 63" using slo shi assms(1) by (simp_all add: field_simps)
  have "fdiv (Fin (rnd (s + v))) (f64 (c + 1)) = mk ?q"
    using f64_exact [OF c1] assms(1) by simp
  also have "\<dots> = Fin (rnd ?q)" using q by (intro mk_le_pow2 [of _ 63]) simp_all
  finally have d: "fdiv (Fin (rnd (s + v))) (f64 (c + 1)) = Fin (rnd ?q)" .
  have "1 \<le> rnd ?q" using q representable_of_int [of 1] by (intro rnd_ge) simp_all
  moreover have "rnd ?q \<le> 2 ^ 63" using q representable_pow2 [of 63] by (intro rnd_le) simp_all
  ultimately show thesis using s' slo shi d by (intro that) simp_all
qed

lemma expavg_inv_Add:
  assumes "expavg_inv m" and "1 \<le> v" and "v \<le> 2 ^ 63"
  shows "expavg_inv (snd (expavg_Add (Fin v) m))"
    and "\<exists>x. expavg_Get (snd (expavg_Add (Fin v) m)) = Fin x \<and> representable x \<and> 1 \<le> x \<and> x \<le> 2 ^ 63"
proof -
  have m: "1 \<le> ea_window m" "ea_window m \<le> 2 ^ 31" "ea_warmupWindow m \<le> 2 ^ 31"
    "0 \<le> ea_count m" "ea_count m \<le> 2 ^ 31" using assms(1) by (simp_all add: expavg_inv_def)
  have "expavg_inv (snd (expavg_Add (Fin v) m))
    \<and> (\<exists>x. ea_value (snd (expavg_Add (Fin v) m)) = Fin x \<and> representable x \<and> 1 \<le> x \<and> x \<le> 2 ^ 63)"
  proof (cases "ea_count m < ea_warmupWindow m")
    case True
    then have lt: "ea_count m < 2 ^ 31" using m(3) by simp
    have i: "i64 (ea_count m + 1) = ea_count m + 1" using m(4) lt by (intro i64_id) (simp add: in_i64_def)
    obtain s where s: "ea_sum m = Fin s" "of_int (ea_count m) \<le> s" "s \<le> of_int (ea_count m) * 2 ^ 63"
      using assms(1) by (auto simp: expavg_inv_def)
    obtain s' x where s': "fadd (Fin s) (Fin v) = Fin s'" "of_int (ea_count m + 1) \<le> s'"
        "s' \<le> of_int (ea_count m + 1) * 2 ^ 63"
      and x: "fdiv (Fin s') (f64 (ea_count m + 1)) = Fin x" "representable x" "1 \<le> x" "x \<le> 2 ^ 63"
      using expavg_warmup [OF m(4) lt s(2,3) assms(2,3)] by blast
    have "snd (expavg_Add (Fin v) m) = m\<lparr>ea_count := ea_count m + 1, ea_sum := Fin s', ea_value := Fin x\<rparr>"
      using True by (simp add: expavg_Add_def Let_def i s(1) s'(1) x(1) del: fadd.simps fdiv.simps)
    then show ?thesis using m lt s'(2,3) x(2-4) by (simp add: expavg_inv_def)
  next
    case False
    then obtain x where x: "ea_value m = Fin x" "representable x" "1 \<le> x" "x \<le> 2 ^ 63"
      using assms(1) by (auto simp: expavg_inv_def)
    obtain f where f: "factor (ea_window m) = Fin f" "representable f" "0 \<le> f" "f \<le> 1"
      using factor_range [OF m(1,2)] .
    have "fmul (Fin x) (fsub (lit 1) (Fin f)) = fmul (fsub (lit 1) (Fin f)) (Fin x)"
      by (cases "mk (1 - f)") (simp_all add: mult.commute)
    then have "fadd (fmul (Fin x) (fsub (lit 1) (Fin f))) (fmul (Fin v) (Fin f)) = fmix (Fin f) (Fin x) (Fin v)"
      by (simp add: fmix_def mult.commute)
    with fmix_range [OF f(3,4,2) x(3,4) assms(2,3)] obtain y where
      y: "fadd (fmul (Fin x) (fsub (lit 1) (Fin f))) (fmul (Fin v) (Fin f)) = Fin y" "representable y" "1 \<le> y" "y \<le> 2 ^ 63"
      by auto
    show ?thesis using assms(1) False x(1) f(1) y by (simp add: expavg_Add_def expavg_inv_def)
  qed
  then show "expavg_inv (snd (expavg_Add (Fin v) m))"
    and "\<exists>x. expavg_Get (snd (expavg_Add (Fin v) m)) = Fin x \<and> representable x \<and> 1 \<le> x \<and> x \<le> 2 ^ 63"
    by (simp_all add: expavg_Get_def)
qed

lemma expavg_inv_New:
  "1 \<le> w \<Longrightarrow> w \<le> 2 ^ 31 \<Longrightarrow> 1 \<le> u \<Longrightarrow> u \<le> 2 ^ 31 \<Longrightarrow> expavg_inv (NewExponentialAverageMeasurement w u)"
  by (simp add: expavg_inv_def NewExponentialAverageMeasurement_def)

lemma expavg_inv_adds:
  "expavg_inv m \<Longrightarrow> (\<And>v. v \<in> set vs \<Longrightarrow> 1 \<le> v \<and> v \<le> 2 ^ 63) \<Longrightarrow> expavg_inv (adds expavg_Add m (map Fin vs))"
  by (induction vs arbitrary: m) (simp_all add: adds_def expavg_inv_Add)

text \<open>The exponential average stays in the range of its samples' bounds despite rounding:
  if every sample is between 1 and \<open>2 ^ 63\<close>, so is the average after each of them, through the
  warm-up phase and after it. In particular it is never zero, infinite or NaN.\<close>

theorem expavg_stays_in_range:
  assumes "1 \<le> w" and "w \<le> 2 ^ 31" and "1 \<le> u" and "u \<le> 2 ^ 31"
    and "\<And>v. v \<in> set vs \<Longrightarrow> 1 \<le> v \<and> v \<le> 2 ^ 63" and "vs \<noteq> []"
  shows "\<exists>x. expavg_Get (adds expavg_Add (NewExponentialAverageMeasurement w u) (map Fin vs)) = Fin x
    \<and> 1 \<le> x \<and> x \<le> 2 ^ 63"
proof -
  let ?m = "adds expavg_Add (NewExponentialAverageMeasurement w u) (map Fin (butlast vs))"
  have "expavg_inv ?m" using assms
    by (intro expavg_inv_adds expavg_inv_New) (auto dest: in_set_butlastD)
  moreover have "1 \<le> last vs \<and> last vs \<le> 2 ^ 63" using assms(5,6) by simp
  moreover have "adds expavg_Add (NewExponentialAverageMeasurement w u) (map Fin (butlast vs @ [last vs]))
      = snd (expavg_Add (Fin (last vs)) ?m)" by (simp add: adds_def)
  ultimately show ?thesis using expavg_inv_Add(2) [of ?m "last vs"] assms(6) by auto
qed

theorem expavg_stays_in_range_witness:
  "\<exists>x. expavg_Get (adds expavg_Add (NewExponentialAverageMeasurement 10 1) (map Fin [1, 7, 3])) = Fin x \<and> 1 \<le> x"
proof -
  have "\<exists>x. expavg_Get (adds expavg_Add (NewExponentialAverageMeasurement 10 1) (map Fin [1, 7, 3])) = Fin x
      \<and> 1 \<le> x \<and> x \<le> 2 ^ 63"
    by (rule expavg_stays_in_range) auto
  then show ?thesis by blast
qed

end
