(* ===== verification/Limit_Vegas.thy ===== *)
theory Limit_Vegas
  imports Limit_Functions Limit_Basic Measurements "HOL-Library.Monad_Syntax"
begin

text \<open>
  \<open>limit/vegas.go\<close>: the limit that estimates the queue from the ratio of the round-trip time
  to the one without load. The functions it is configured with may panic (the default ones index
  a table), so an update is an \<open>option\<close>. Every operation holds the mutex.
\<close>

record vegas =
  vg_estimatedLimit :: float64
  vg_maxLimit :: int
  vg_rttNoLoad :: measurement
  vg_smoothing :: float64
  vg_alphaFunc :: "int \<Rightarrow> int option"
  vg_betaFunc :: "int \<Rightarrow> int option"
  vg_thresholdFunc :: "int \<Rightarrow> int option"
  vg_increaseFunc :: "float64 \<Rightarrow> float64 option"
  vg_decreaseFunc :: "float64 \<Rightarrow> float64 option"
  vg_rttSampleListener :: sample_listener
  vg_commonSampler :: "common_sampler option"
  vg_probeMultipler :: int
  vg_probeJitter :: float64
  vg_probeCount :: int
  vg_listeners :: "nat list"
  vg_registry :: registry
  vg_logger :: logger

definition ProbeDisabled :: int where
  "ProbeDisabled = - 1"

definition newProbeJitter :: "rand \<Rightarrow> float64" where
  "newProbeJitter rd = fadd (fdiv (randFloat64 rd) (lit 2)) (lit (1 / 2))"

text \<open>
  The argument \<open>Log10\<close> stands for \<open>math.Log10\<close> and \<open>table\<close> for the package's precomputed
  logarithms; they occur in the functions used when the caller passes nil.
\<close>

definition NewVegasLimitWithRegistry ::
    "(float64 \<Rightarrow> float64) \<Rightarrow> int list \<Rightarrow> rand \<Rightarrow> string \<Rightarrow> int \<Rightarrow> measurement option \<Rightarrow> int \<Rightarrow> float64
     \<Rightarrow> (int \<Rightarrow> int option) option \<Rightarrow> (int \<Rightarrow> int option) option \<Rightarrow> (int \<Rightarrow> int option) option
     \<Rightarrow> (float64 \<Rightarrow> float64 option) option \<Rightarrow> (float64 \<Rightarrow> float64 option) option
     \<Rightarrow> int \<Rightarrow> logger option \<Rightarrow> registry \<Rightarrow> string list \<Rightarrow> vegas \<times> effect list" where
  "NewVegasLimitWithRegistry Log10 table rd name initialLimit rttNoLoad maxConcurrency smoothing
     alphaFunc betaFunc thresholdFunc increaseFunc decreaseFunc probeMultiplier logger registry tags =
   (let initialLimit = (if initialLimit < 1 then 20 else initialLimit);
        rttNoLoad = (case rttNoLoad of None \<Rightarrow> Minimum minimum_zero | Some m \<Rightarrow> m);
        maxConcurrency = (if maxConcurrency < 0 then 1000 else maxConcurrency);
        smoothing = (if fless smoothing (lit 0) \<or> fless (lit 1) smoothing then lit 1 else smoothing);
        probeMultiplier = (if probeMultiplier \<le> 0 then 30 else probeMultiplier);
        defaultLogFunc = Log10RootFunction Log10 table 0;
        alphaFunc = (case alphaFunc of None \<Rightarrow> (\<lambda>l. map_option (\<lambda>v. i64 (3 * v)) (defaultLogFunc l)) | Some f \<Rightarrow> f);
        betaFunc = (case betaFunc of None \<Rightarrow> (\<lambda>l. map_option (\<lambda>v. i64 (6 * v)) (defaultLogFunc l)) | Some f \<Rightarrow> f);
        thresholdFunc = (case thresholdFunc of None \<Rightarrow> defaultLogFunc | Some f \<Rightarrow> f);
        defaultLogFloatFunc = Log10RootFloatFunction Log10 table (lit 0);
        increaseFunc = (case increaseFunc of None \<Rightarrow> (\<lambda>l. map_option (fadd l) (defaultLogFloatFunc l)) | Some f \<Rightarrow> f);
        decreaseFunc = (case decreaseFunc of None \<Rightarrow> (\<lambda>l. map_option (fsub l) (defaultLogFloatFunc l)) | Some f \<Rightarrow> f);
        logger = (case logger of None \<Rightarrow> NoopLimitLogger | Some g \<Rightarrow> g);
        registry = registry_or_empty registry;
        (rttListener, e1) = RegisterDistribution registry (PrefixMetricWithName MetricMinRTT name) tags;
        (sampler, e2) = NewCommonMetricSamplerOrNil registry name tags
    in (\<lparr>vg_estimatedLimit = f64 initialLimit, vg_maxLimit = maxConcurrency, vg_rttNoLoad = rttNoLoad,
         vg_smoothing = smoothing, vg_alphaFunc = alphaFunc, vg_betaFunc = betaFunc,
         vg_thresholdFunc = thresholdFunc, vg_increaseFunc = increaseFunc, vg_decreaseFunc = decreaseFunc,
         vg_rttSampleListener = rttListener, vg_commonSampler = sampler,
         vg_probeMultipler = probeMultiplier, vg_probeJitter = newProbeJitter rd, vg_probeCount = 0,
         vg_listeners = [], vg_registry = registry, vg_logger = logger\<rparr>, e1 @ e2))"

definition NewDefaultVegasLimitWithLimit ::
    "(float64 \<Rightarrow> float64) \<Rightarrow> int list \<Rightarrow> rand \<Rightarrow> string \<Rightarrow> int \<Rightarrow> logger option \<Rightarrow> registry \<Rightarrow> string list
     \<Rightarrow> vegas \<times> effect list" where
  "NewDefaultVegasLimitWithLimit Log10 table rd name initialLimit logger registry tags =
     NewVegasLimitWithRegistry Log10 table rd name initialLimit None (- 1) (lit (- 1))
       None None None None None (- 1) logger registry tags"

definition NewDefaultVegasLimit ::
    "(float64 \<Rightarrow> float64) \<Rightarrow> int list \<Rightarrow> rand \<Rightarrow> string \<Rightarrow> logger option \<Rightarrow> registry \<Rightarrow> string list
     \<Rightarrow> vegas \<times> effect list" where
  "NewDefaultVegasLimit Log10 table rd name logger registry tags =
     NewVegasLimitWithRegistry Log10 table rd name (- 1) None (- 1) (lit (- 1))
       None None None None None (- 1) logger registry tags"

definition vegas_EstimatedLimit :: "vegas \<Rightarrow> int" where
  "vegas_EstimatedLimit l = f2i (vg_estimatedLimit l)"

definition vegas_NotifyOnChange :: "nat \<Rightarrow> vegas \<Rightarrow> vegas" where
  "vegas_NotifyOnChange consumer l = l\<lparr>vg_listeners := vg_listeners l @ [consumer]\<rparr>"

definition vegas_notifyListeners :: "float64 \<Rightarrow> vegas \<Rightarrow> effect list" where
  "vegas_notifyListeners newLimit l = notify_all (vg_listeners l) (f2i newLimit)"

definition vegas_shouldProbe :: "vegas \<Rightarrow> bool" where
  "vegas_shouldProbe l \<longleftrightarrow>
     f2i (fmul (fmul (vg_probeJitter l) (f64 (vg_probeMultipler l))) (vg_estimatedLimit l)) \<le> vg_probeCount l"

text \<open>
  The new limit before clamping: \<open>Some None\<close> is a return that leaves the limit alone,
  \<open>None\<close> a panic of one of the functions.
\<close>

definition vegas_newLimit :: "int \<Rightarrow> int \<Rightarrow> bool \<Rightarrow> vegas \<Rightarrow> float64 option option" where
  "vegas_newLimit queueSize inFlight didDrop l =
     (if didDrop then map_option Some (vg_decreaseFunc l (vg_estimatedLimit l))
      else if fless (fmul (f64 inFlight) (lit 2)) (vg_estimatedLimit l) then Some None
      else do {
        alpha \<leftarrow> vg_alphaFunc l (f2i (vg_estimatedLimit l));
        beta \<leftarrow> vg_betaFunc l (f2i (vg_estimatedLimit l));
        threshold \<leftarrow> vg_thresholdFunc l (f2i (vg_estimatedLimit l));
        if queueSize < threshold then Some (Some (fadd (vg_estimatedLimit l) (f64 beta)))
        else if queueSize < alpha then map_option Some (vg_increaseFunc l (vg_estimatedLimit l))
        else if queueSize > beta then map_option Some (vg_decreaseFunc l (vg_estimatedLimit l))
        else Some None
      })"

definition vegas_queueSize :: "int \<Rightarrow> vegas \<Rightarrow> int" where
  "vegas_queueSize rtt l =
     f2i (fceil (fmul (vg_estimatedLimit l) (fsub (lit 1) (fdiv (meas_Get (vg_rttNoLoad l)) (f64 rtt)))))"

definition vegas_updateEstimatedLimit ::
    "int \<Rightarrow> int \<Rightarrow> int \<Rightarrow> bool \<Rightarrow> vegas \<Rightarrow> (vegas \<times> effect list) option" where
  "vegas_updateEstimatedLimit startTime rtt inFlight didDrop l =
     (let queueSize = vegas_queueSize rtt l in
      case vegas_newLimit queueSize inFlight didDrop l of
        None \<Rightarrow> None
      | Some None \<Rightarrow> Some (l, [])
      | Some (Some newLimit) \<Rightarrow>
          (let newLimit = fmax (lit 1) (fmin (f64 (vg_maxLimit l)) newLimit);
               newLimit = fadd (fmul (fsub (lit 1) (vg_smoothing l)) (vg_estimatedLimit l))
                               (fmul (vg_smoothing l) newLimit);
               e = (if f2i newLimit \<noteq> f2i (vg_estimatedLimit l) \<and> logger_IsDebugEnabled (vg_logger l)
                    then logger_Debugf (vg_logger l) ''New limit=%d, minRTT=%d ms, winRTT=%d ms, queueSize=%d''
                           (map LogInt [f2i newLimit, quot (f2i (meas_Get (vg_rttNoLoad l))) 1000000, quot rtt 1000000, queueSize])
                    else []);
               l' = l\<lparr>vg_estimatedLimit := newLimit\<rparr>
           in Some (l', e @ vegas_notifyListeners (vg_estimatedLimit l') l')))"

definition vegas_OnSample ::
    "rand \<Rightarrow> int \<Rightarrow> int \<Rightarrow> int \<Rightarrow> bool \<Rightarrow> vegas \<Rightarrow> (vegas \<times> effect list) option" where
  "vegas_OnSample rd startTime rtt inFlight didDrop l =
     (let e = Sample (vg_commonSampler l) rtt inFlight didDrop;
          l = l\<lparr>vg_probeCount := i64 (vg_probeCount l + 1)\<rparr>
      in if vegas_shouldProbe l then
           (let d = logger_Debugf (vg_logger l) ''Probe triggered update to RTT No Load %d ms from %d ms''
                      (map LogInt [quot rtt 1000000, quot (f2i (meas_Get (vg_rttNoLoad l))) 1000000])
            in Some (l\<lparr>vg_probeJitter := newProbeJitter rd, vg_probeCount := 0,
                       vg_rttNoLoad := snd (meas_Add (f64 rtt) (Minimum minimum_zero))\<rparr>, e @ d))
         else if feq (meas_Get (vg_rttNoLoad l)) (lit 0) \<or> fless (f64 rtt) (meas_Get (vg_rttNoLoad l)) then
           (let d = logger_Debugf (vg_logger l) ''Update RTT No Load to %d ms from %d ms''
                      (map LogInt [quot rtt 1000000, quot (f2i (meas_Get (vg_rttNoLoad l))) 1000000])
            in Some (l\<lparr>vg_rttNoLoad := snd (meas_Add (f64 rtt) (vg_rttNoLoad l))\<rparr>, e @ d))
         else
           (let s = AddSample (vg_rttSampleListener l) (meas_Get (vg_rttNoLoad l))
            in map_option (\<lambda>(l', e'). (l', e @ s @ e')) (vegas_updateEstimatedLimit startTime rtt inFlight didDrop l)))"

definition vegas_RTTNoLoad :: "vegas \<Rightarrow> int" where
  "vegas_RTTNoLoad l = f2i (meas_Get (vg_rttNoLoad l))"

text \<open>The method table; a sample whose processing panics leaves no successor state.\<close>

definition vegas_ops :: "vegas limit_ops" where
  "vegas_ops = \<lparr>EstimatedLimit = vegas_EstimatedLimit, NotifyOnChange = vegas_NotifyOnChange,
     OnSample = (\<lambda>rd st rtt infl d l. case vegas_OnSample rd st rtt infl d l of None \<Rightarrow> (l, []) | Some r \<Rightarrow> r)\<rparr>"

section \<open>The range of the limit\<close>

definition vegas_funcs_ok :: "int \<Rightarrow> vegas \<Rightarrow> bool" where
  "vegas_funcs_ok hi l \<longleftrightarrow>
     (\<forall>n. 1 \<le> n \<and> n \<le> hi \<longrightarrow> vg_alphaFunc l n \<noteq> None \<and> vg_betaFunc l n \<noteq> None \<and> vg_thresholdFunc l n \<noteq> None)
   \<and> (\<forall>x. representable x \<and> 1 \<le> x \<and> x \<le> of_int hi \<longrightarrow>
        (\<exists>v. vg_increaseFunc l (Fin x) = Some v \<and> v \<noteq> NaN) \<and> (\<exists>v. vg_decreaseFunc l (Fin x) = Some v \<and> v \<noteq> NaN))"

definition vegas_inv :: "int \<Rightarrow> vegas \<Rightarrow> bool" where
  "vegas_inv hi l \<longleftrightarrow> 1 \<le> hi \<and> hi \<le> 2 ^ 52 \<and> 0 \<le> vg_maxLimit l \<and> vg_maxLimit l \<le> hi \<and> vegas_funcs_ok hi l
     \<and> (\<exists>x. vg_estimatedLimit l = Fin x \<and> representable x \<and> 1 \<le> x \<and> x \<le> of_int hi)
     \<and> (\<exists>s. vg_smoothing l = Fin s \<and> representable s \<and> 0 \<le> s \<and> s \<le> 1 \<and> (s = 1 \<or> (\<exists>k. hi = 2 ^ k)))"

lemma pow2_int_le: "(2::int) ^ k \<le> 2 ^ 52 \<Longrightarrow> k \<le> 52"
  using power_le_imp_le_exp [of "2::int" k 52] by simp

text \<open>Smoothing between an estimate and a candidate in range stays in range.\<close>

lemma smooth_range:
  assumes "1 \<le> hi" and "hi \<le> 2 ^ 52" and "1 \<le> a" and "a \<le> of_int hi" and "1 \<le> b" and "b \<le> of_int hi"
    and "representable s" and "0 \<le> s" and "s \<le> 1" and "s = 1 \<or> (\<exists>k. hi = 2 ^ k)"
  obtains x where "fmix (Fin s) (Fin a) (Fin b) = Fin x" and "representable x" and "1 \<le> x" and "x \<le> of_int hi"
    and "s = 1 \<Longrightarrow> x = rnd b"
proof -
  have "of_int hi \<le> (of_int (2 ^ 52) :: real)" using assms(2) by (simp only: of_int_le_iff)
  then have hi: "of_int hi \<le> (2::real) ^ 52" by simp
  have mix: "fmix (Fin s) (Fin a) (Fin b) = Fin (rnd (rnd (rnd (1 - s) * a) + rnd (s * b)))"
    using assms hi by (intro fmix_Fin [where n = 52]) simp_all
  show thesis
  proof (cases "s = 1")
    case True
    have "representable (of_int hi)" using assms(1,2) by (intro representable_of_int) simp
    then have "rnd b \<le> of_int hi" using assms(6) by (rule rnd_le)
    moreover have "1 \<le> rnd b" using assms(5) representable_of_int [of 1] by (intro rnd_ge) simp_all
    ultimately show thesis using mix True by (intro that [of "rnd b"]) simp_all
  next
    case False
    then obtain k where k: "hi = 2 ^ k" using assms(10) by blast
    then have "k < 1023" using assms(2) pow2_int_le [of k] by simp
    then show thesis
      using fmix_range [OF assms(8,9,7), of a k b] assms(3-6) k False that by auto
  qed
qed

lemma vegas_newLimit_ok:
  assumes "vegas_inv hi l"
  obtains r where "vegas_newLimit q infl d l = Some r" and "\<And>v. r = Some v \<Longrightarrow> v \<noteq> NaN"
proof -
  obtain x where x: "vg_estimatedLimit l = Fin x" "representable x" "1 \<le> x" "x \<le> of_int hi"
    using assms by (auto simp: vegas_inv_def)
  have "in_i64 hi" using assms by (intro in_i64_nonneg) (simp_all add: vegas_inv_def)
  then have n: "1 \<le> f2i (Fin x)" "f2i (Fin x) \<le> hi"
    using f2i_between [of 1 x hi] x(3,4) by (simp_all add: in_i64_def del: f2i.simps)
  then obtain a b t where f: "vg_alphaFunc l (f2i (Fin x)) = Some a" "vg_betaFunc l (f2i (Fin x)) = Some b"
      "vg_thresholdFunc l (f2i (Fin x)) = Some t"
    using assms by (auto simp: vegas_inv_def vegas_funcs_ok_def simp del: f2i.simps)
  obtain i d' where g: "vg_increaseFunc l (Fin x) = Some i" "i \<noteq> NaN" "vg_decreaseFunc l (Fin x) = Some d'" "d' \<noteq> NaN"
    using assms x(2-4) by (auto simp: vegas_inv_def vegas_funcs_ok_def)
  have "fadd (Fin x) (f64 b) \<noteq> NaN" by (cases "f64 b") (auto simp: f64_def)
  then have "\<exists>r. vegas_newLimit q infl d l = Some r \<and> (\<forall>v. r = Some v \<longrightarrow> v \<noteq> NaN)"
    using g(2,4) by (simp add: vegas_newLimit_def x(1) f g(1,3) del: f2i.simps fadd.simps)
  then show thesis using that by blast
qed

lemma vegas_update_ok:
  assumes "vegas_inv hi l"
  obtains l' e where "vegas_updateEstimatedLimit st rtt infl d l = Some (l', e)" and "vegas_inv hi l'"
proof -
  obtain r where r: "vegas_newLimit (vegas_queueSize rtt l) infl d l = Some r" "\<And>v. r = Some v \<Longrightarrow> v \<noteq> NaN"
    using vegas_newLimit_ok [OF assms, of "vegas_queueSize rtt l" infl d] by blast
  obtain x where x: "vg_estimatedLimit l = Fin x" "representable x" "1 \<le> x" "x \<le> of_int hi"
    using assms by (auto simp: vegas_inv_def)
  obtain s where s: "vg_smoothing l = Fin s" "representable s" "0 \<le> s" "s \<le> 1" "s = 1 \<or> (\<exists>k. hi = 2 ^ k)"
    using assms by (auto simp: vegas_inv_def)
  have hi: "1 \<le> hi" "hi \<le> 2 ^ 52" "0 \<le> vg_maxLimit l" "vg_maxLimit l \<le> hi" using assms by (auto simp: vegas_inv_def)
  show thesis
  proof (cases r)
    case None
    then show thesis using r(1) assms that by (simp add: vegas_updateEstimatedLimit_def)
  next
    case (Some v)
    have m: "f64 (vg_maxLimit l) = Fin (of_int (vg_maxLimit l))" by (rule f64_exact) (use hi in simp)
    obtain y where y: "fmax (Fin 1) (fmin (Fin (of_int (vg_maxLimit l))) v) = Fin y" "1 \<le> y"
        "y \<le> max 1 (of_int (vg_maxLimit l))"
      using clamp_low r(2) [OF Some] by blast
    have "max 1 (of_int (vg_maxLimit l)) \<le> (of_int hi :: real)" using hi by simp
    then have "y \<le> of_int hi" using y(3) by linarith
    from smooth_range [OF hi(1,2) x(3,4) y(2) this s(2-5)] obtain z where
      z: "fmix (Fin s) (Fin x) (Fin y) = Fin z" "representable z" "1 \<le> z" "z \<le> of_int hi" by blast
    have new: "fadd (fmul (fsub (Fin 1) (vg_smoothing l)) (vg_estimatedLimit l))
        (fmul (vg_smoothing l) (fmax (Fin 1) (fmin (f64 (vg_maxLimit l)) v))) = Fin z"
      using z(1) by (simp only: fmix_def s(1) x(1) m y(1))
    have "vegas_inv hi (l\<lparr>vg_estimatedLimit := Fin z\<rparr>)"
      using assms z(2-4) by (simp add: vegas_inv_def vegas_funcs_ok_def)
    then show thesis using r(1) Some that
      by (simp add: vegas_updateEstimatedLimit_def Let_def new del: fadd.simps fmul.simps)
  qed
qed

lemma vegas_inv_cong:
  "vegas_inv hi (l\<lparr>vg_probeCount := c\<rparr>) = vegas_inv hi l"
  "vegas_inv hi (l\<lparr>vg_rttNoLoad := m\<rparr>) = vegas_inv hi l"
  "vegas_inv hi (l\<lparr>vg_probeJitter := j\<rparr>) = vegas_inv hi l"
  by (simp_all add: vegas_inv_def vegas_funcs_ok_def)

lemma vegas_OnSample_ok:
  assumes "vegas_inv hi l"
  obtains l' e where "vegas_OnSample rd st rtt infl d l = Some (l', e)" and "vegas_inv hi l'"
proof -
  let ?l = "l\<lparr>vg_probeCount := i64 (vg_probeCount l + 1)\<rparr>"
  have inv: "vegas_inv hi ?l" using assms by (simp add: vegas_inv_cong)
  obtain l' e where u: "vegas_updateEstimatedLimit st rtt infl d ?l = Some (l', e)" "vegas_inv hi l'"
    using vegas_update_ok [OF inv, of st rtt infl d] by blast
  then show thesis using assms
    by (cases "vegas_OnSample rd st rtt infl d l")
       (auto simp: vegas_OnSample_def Let_def vegas_inv_cong intro: that split: if_splits)
qed

interpretation vegas_limit: bounded_limit vegas_ops "vegas_inv hi" "\<lambda>_. True" 1 hi for hi
proof unfold_locales
  fix l r st rtt infl d
  assume "vegas_inv hi l"
  then obtain l' e where "vegas_OnSample r st rtt infl d l = Some (l', e)" "vegas_inv hi l'"
    using vegas_OnSample_ok [of hi l r st rtt infl d] by blast
  then show "vegas_inv hi (fst (OnSample vegas_ops r st rtt infl d l))" by (simp add: vegas_ops_def)
next
  fix l
  assume inv: "vegas_inv hi l"
  then obtain x where "vg_estimatedLimit l = Fin x" "1 \<le> x" "x \<le> of_int hi" by (auto simp: vegas_inv_def)
  moreover have "in_i64 hi" using inv by (intro in_i64_nonneg) (simp_all add: vegas_inv_def)
  ultimately show "1 \<le> EstimatedLimit vegas_ops l \<and> EstimatedLimit vegas_ops l \<le> hi"
    using f2i_between [of 1 x hi] by (simp add: vegas_ops_def vegas_EstimatedLimit_def in_i64_def del: f2i.simps)
qed

text \<open>Effective smoothing of the constructor: values outside \<open>[0, 1]\<close> are replaced by 1.\<close>

definition full_smoothing :: "float64 \<Rightarrow> bool" where
  "full_smoothing s \<longleftrightarrow> fless s (Fin 0) \<or> fle (Fin 1) s"

lemma smoothing_cases:
  assumes "s \<noteq> NaN" and "is_float s"
  obtains x where "(if fless s (Fin 0) \<or> fless (Fin 1) s then Fin 1 else s) = Fin x" and "representable x"
    and "0 \<le> x" and "x \<le> 1" and "full_smoothing s \<longleftrightarrow> x = 1"
proof (cases s)
  case (Fin r)
  have "representable 1" using representable_of_int [of 1] by simp
  then show thesis using that [of 1] that [of r] Fin assms(2)
    by (cases "r < 0 \<or> 1 < r") (auto simp: full_smoothing_def)
next
  case PInf
  then show thesis using that [of 1] representable_of_int [of 1] by (simp add: full_smoothing_def fle_def)
next
  case NInf
  then show thesis using that [of 1] representable_of_int [of 1] by (simp add: full_smoothing_def)
next
  case NaN
  then show thesis using assms(1) by simp
qed

lemma vegas_new_fields:
  assumes "NewVegasLimitWithRegistry Log10 (log10RootLookup Log10 env) rd name n m maxc s None None None None None
      pm lg reg tags = (l, e)" and "1 \<le> n" and "0 \<le> maxc"
  shows "vg_estimatedLimit l = f64 n" and "vg_maxLimit l = maxc"
    and "vg_smoothing l = (if fless s (Fin 0) \<or> fless (Fin 1) s then Fin 1 else s)"
    and "vg_alphaFunc l = (\<lambda>l. map_option (\<lambda>v. i64 (3 * v)) (Log10RootFunction Log10 (log10RootLookup Log10 env) 0 l))"
    and "vg_betaFunc l = (\<lambda>l. map_option (\<lambda>v. i64 (6 * v)) (Log10RootFunction Log10 (log10RootLookup Log10 env) 0 l))"
    and "vg_thresholdFunc l = Log10RootFunction Log10 (log10RootLookup Log10 env) 0"
    and "vg_increaseFunc l = (\<lambda>l. map_option (fadd l) (Log10RootFloatFunction Log10 (log10RootLookup Log10 env) (Fin 0) l))"
    and "vg_decreaseFunc l = (\<lambda>l. map_option (fsub l) (Log10RootFloatFunction Log10 (log10RootLookup Log10 env) (Fin 0) l))"
  using assms by (auto simp: NewVegasLimitWithRegistry_def Let_def split: prod.splits)

lemma vegas_new_inv:
  assumes new: "NewVegasLimitWithRegistry Log10 (log10RootLookup Log10 env) rd name n m maxc s None None None None None
      pm lg reg tags = (l, e)"
    and ok: "Log10_ok Log10" and n: "1 \<le> n" "n \<le> hi" and mx: "0 \<le> maxc" "maxc \<le> hi" and hi: "hi \<le> 2 ^ 52"
    and s: "s \<noteq> NaN" "is_float s" "full_smoothing s \<or> (\<exists>k. hi = 2 ^ k)"
  shows "vegas_inv hi l"
proof -
  note f = vegas_new_fields [OF new n(1) mx(1)]
  have hi_r: "of_int hi \<le> (2::real) ^ 52" using hi by (metis of_int_le_iff of_int_numeral of_int_power)
  have int_funcs: "vg_alphaFunc l j \<noteq> None \<and> vg_betaFunc l j \<noteq> None \<and> vg_thresholdFunc l j \<noteq> None"
    if "1 \<le> j" "j \<le> hi" for j
    using Log10RootFunction_range [OF ok that(1), of 0 env] that(2) hi by (auto simp: f)
  have "fadd (Fin x) (Fin v) \<noteq> NaN \<and> fsub (Fin x) (Fin v) \<noteq> NaN" for x v by simp
  then have float_funcs: "(\<exists>v. vg_increaseFunc l (Fin x) = Some v \<and> v \<noteq> NaN) \<and> (\<exists>v. vg_decreaseFunc l (Fin x) = Some v \<and> v \<noteq> NaN)"
    if "representable x" "1 \<le> x" "x \<le> of_int hi" for x
    using Log10RootFloatFunction_range [OF ok that(1,2), of env] that(3) hi_r
    by (metis (no_types, lifting) f(7,8) option.simps(9) order_trans)
  have est: "vg_estimatedLimit l = Fin (of_int n)" using f(1) f64_exact [of n] n hi by simp
  have rep: "representable (of_int n)" using n hi by (intro representable_of_int) simp
  obtain x where x: "vg_smoothing l = Fin x" "representable x" "0 \<le> x" "x \<le> 1" "full_smoothing s \<longleftrightarrow> x = 1"
    using smoothing_cases [OF s(1,2)] f(3) by metis
  show ?thesis unfolding vegas_inv_def vegas_funcs_ok_def
    using int_funcs float_funcs est rep x s(3) n mx hi by (auto simp: f(2))
qed

text \<open>C11: The Vegas limit stays in range and never panics: created with its default functions,
  an initial limit and a maximum of at most \<open>2 ^ k\<close> and any smoothing that is not NaN, after any
  sequence of samples (whatever their round-trip times) the limit is between 1 and \<open>2 ^ k\<close>, and
  between 1 and the larger of initial limit and maximum when the smoothing is 1, the default; the
  next sample is processed without a panic. Floating-point rounding never pushes it out.\<close>

theorem vegas_range:
  assumes "NewVegasLimitWithRegistry Log10 (log10RootLookup Log10 env) rd name n m maxc s None None None None None
      pm lg reg tags = (l, e)"
    and "Log10_ok Log10" and "1 \<le> n" and "n \<le> 2 ^ k" and "0 \<le> maxc" and "maxc \<le> 2 ^ k" and "k \<le> 52"
    and "s \<noteq> NaN" and "is_float s"
  shows "1 \<le> vegas_EstimatedLimit (limit_run vegas_ops l xs)
    \<and> vegas_EstimatedLimit (limit_run vegas_ops l xs) \<le> 2 ^ k
    \<and> (full_smoothing s \<longrightarrow> vegas_EstimatedLimit (limit_run vegas_ops l xs) \<le> max n maxc)
    \<and> vegas_OnSample rd' st rtt infl d (limit_run vegas_ops l xs) \<noteq> None"
proof -
  have k: "(2::int) ^ k \<le> 2 ^ 52" using assms(7) by (intro power_increasing) simp_all
  then have inv: "vegas_inv (2 ^ k) l" using assms by (intro vegas_new_inv [OF assms(1)]) auto
  have "vegas_inv (2 ^ k) (limit_run vegas_ops l xs)" using inv by (intro vegas_limit.run_inv) simp_all
  then have "vegas_OnSample rd' st rtt infl d (limit_run vegas_ops l xs) \<noteq> None"
    using vegas_OnSample_ok by (metis option.distinct(1))
  moreover have "vegas_EstimatedLimit (limit_run vegas_ops l xs) \<le> max n maxc" if "full_smoothing s"
  proof -
    have "vegas_inv (max n maxc) l" using assms that k by (intro vegas_new_inv [OF assms(1)]) auto
    from vegas_limit.run_range(2) [OF this, of xs] show ?thesis by (simp add: vegas_ops_def)
  qed
  ultimately show ?thesis
    using vegas_limit.run_range [OF inv, of xs] by (simp add: vegas_ops_def)
qed

theorem vegas_range_witness:
  "\<exists>l e. NewVegasLimitWithRegistry Log10_rounded (log10RootLookup Log10_rounded None) undefined ''v'' 20 None 1000 (Fin 1)
      None None None None None 30 None NilRegistry [] = (l, e)
    \<and> vegas_EstimatedLimit (limit_run vegas_ops l [(undefined, 0, 5, 40, False), (undefined, 5, 3, 40, False)]) \<le> 1000"
proof -
  obtain l e where new: "NewVegasLimitWithRegistry Log10_rounded (log10RootLookup Log10_rounded None) undefined ''v'' 20
      None 1000 (Fin 1) None None None None None 30 None NilRegistry [] = (l, e)" by (metis prod.exhaust)
  have "is_float (Fin 1)" using representable_of_int [of 1] pow2_le_huge [of 0] by simp
  then have "vegas_EstimatedLimit (limit_run vegas_ops l [(undefined, 0, 5, 40, False), (undefined, 5, 3, 40, False)]) \<le> 1000"
    using vegas_range [OF new Log10_rounded_ok, of 10 "[(undefined, 0, 5, 40, False), (undefined, 5, 3, 40, False)]"]
    by (simp add: full_smoothing_def)
  with new show ?thesis by blast
qed

lemma vegas_OnSample_fields:
  assumes "vegas_OnSample rd st rtt infl d l = Some (l', e)"
  shows "vg_smoothing l' = vg_smoothing l" and "vg_decreaseFunc l' = vg_decreaseFunc l"
    and "vg_maxLimit l' = vg_maxLimit l"
  using assms
  by (auto simp: vegas_OnSample_def vegas_updateEstimatedLimit_def Let_def split: if_splits option.splits)

text \<open>
  What a sample can do to the estimate: nothing, when it probes, lowers the reference
  round-trip time or leaves the estimate alone, or an update.
\<close>

lemma vegas_drop_estimate:
  assumes "vegas_inv hi l" and "vg_smoothing l = Fin 1" and "vg_estimatedLimit l = Fin x"
    and "vg_decreaseFunc l (Fin x) = Some (Fin v)" and "v \<le> x"
    and "vegas_OnSample rd st rtt infl True l = Some (l', e)"
  obtains y where "vg_estimatedLimit l' = Fin y" and "y \<le> x"
proof (cases "vg_estimatedLimit l' = Fin x")
  case True
  then show thesis using that by simp
next
  case False
  let ?l = "l\<lparr>vg_probeCount := i64 (vg_probeCount l + 1)\<rparr>"
  obtain x' where "vg_estimatedLimit l = Fin x'" "representable x'" "1 \<le> x'" "x' \<le> of_int hi" "0 \<le> vg_maxLimit l"
      "vg_maxLimit l \<le> hi" "hi \<le> 2 ^ 52" "1 \<le> hi"
    using assms(1) by (auto simp: vegas_inv_def)
  note x = this(2-) [unfolded this(1) [symmetric]]
  with assms(3) have x: "representable x" "1 \<le> x" "x \<le> of_int hi" "0 \<le> vg_maxLimit l" "vg_maxLimit l \<le> hi"
    "hi \<le> 2 ^ 52" "1 \<le> hi" using \<open>vg_estimatedLimit l = Fin x'\<close> by simp_all
  have m: "f64 (vg_maxLimit l) = Fin (of_int (vg_maxLimit l))" by (rule f64_exact) (use x in simp)
  let ?b = "max 1 (min (of_int (vg_maxLimit l)) v)"
  have "?b \<le> of_int hi" using x(5,7) by (simp add: min.coboundedI1)
  moreover have b1: "1 \<le> ?b" by simp
  moreover have "representable 1" using representable_of_int [of 1] by simp
  ultimately obtain z where z: "fmix (Fin 1) (Fin x) (Fin ?b) = Fin z" "z = rnd ?b"
    using smooth_range [OF x(7,6,2,3) b1, of 1] by auto
  have "?b \<le> x" using assms(5) x(2) by simp
  then have "z \<le> x" using z(2) x(1) rnd_le by blast
  moreover have "vg_estimatedLimit l' = fmix (Fin 1) (Fin x) (Fin ?b)"
    using assms(2-4,6) False m
    by (auto simp: vegas_OnSample_def vegas_updateEstimatedLimit_def vegas_newLimit_def fmix_def Let_def
        simp del: fadd.simps fmul.simps split: if_splits option.splits)
  ultimately show thesis using z(1) that by simp
qed

text \<open>A dropped request never raises the Vegas limit: created with the default functions and
  the default smoothing, after any sequence of samples a sample with the drop flag leaves the limit
  as it is or lowers it.\<close>

theorem vegas_drop_never_raises:
  assumes "NewDefaultVegasLimitWithLimit Log10 (log10RootLookup Log10 env) rd name n lg reg tags = (l, e)"
    and "Log10_ok Log10" and "1 \<le> n" and "n \<le> 2 ^ 52"
    and "vegas_OnSample rd' st rtt infl True (limit_run vegas_ops l xs) = Some (l', e')"
  shows "vegas_EstimatedLimit l' \<le> vegas_EstimatedLimit (limit_run vegas_ops l xs)"
proof -
  let ?hi = "max n 1000" and ?cur = "limit_run vegas_ops l xs"
  have new: "NewVegasLimitWithRegistry Log10 (log10RootLookup Log10 env) rd name n None 1000 (Fin 1)
      None None None None None (- 1) lg reg tags = (l, e)"
  proof -
    have "mk (- 1) = Fin (- 1)" using mk_of_int [of "- 1"] by simp
    then show ?thesis using assms(1) by (simp add: NewDefaultVegasLimitWithLimit_def NewVegasLimitWithRegistry_def)
  qed
  have "is_float (Fin 1)" using representable_of_int [of 1] pow2_le_huge [of 0] by simp
  then have "vegas_inv ?hi l" using assms by (intro vegas_new_inv [OF new]) (auto simp: full_smoothing_def)
  then have inv: "vegas_inv ?hi ?cur" by (intro vegas_limit.run_inv) simp_all
  note f = vegas_new_fields [OF new assms(3)]
  have fields: "vg_smoothing ?cur = Fin 1 \<and> vg_decreaseFunc ?cur = vg_decreaseFunc l"
  proof (rule limit_run_preserves)
    fix l0 :: vegas and r0 st0 rtt0 infl0 d0
    assume P: "vg_smoothing l0 = Fin 1 \<and> vg_decreaseFunc l0 = vg_decreaseFunc l"
    show "vg_smoothing (fst (OnSample vegas_ops r0 st0 rtt0 infl0 d0 l0)) = Fin 1
        \<and> vg_decreaseFunc (fst (OnSample vegas_ops r0 st0 rtt0 infl0 d0 l0)) = vg_decreaseFunc l"
      using P vegas_OnSample_fields [of r0 st0 rtt0 infl0 d0 l0]
      by (cases "vegas_OnSample r0 st0 rtt0 infl0 d0 l0") (auto simp: vegas_ops_def)
  qed (use f(3) in simp)
  obtain x where x: "vg_estimatedLimit ?cur = Fin x" "representable x" "1 \<le> x" "x \<le> of_int ?hi"
    using inv by (auto simp: vegas_inv_def)
  have "of_int ?hi \<le> (of_int (2 ^ 52) :: real)" using assms(4) by (simp only: of_int_le_iff) simp
  then have x52: "x \<le> 2 ^ 52" using x(4) by simp
  obtain v where v: "Log10RootFloatFunction Log10 (log10RootLookup Log10 env) (Fin 0) (Fin x) = Some (Fin v)"
      "0 \<le> v" "v \<le> 16"
    using Log10RootFloatFunction_range [OF assms(2) x(2,3) x52, of env] by blast
  have "\<bar>x - v\<bar> \<le> 2 ^ 53" using x(3) x52 v(2,3) by simp
  then have mk: "mk (x - v) = Fin (rnd (x - v))"
    using mk_finite(1) [of "x - v" "2 ^ 53"] representable_pow2 [of 53] pow2_le_huge [of 53] by simp
  have "rnd (x - v) \<le> x" using v(2) x(2) by (intro rnd_le) simp_all
  then obtain y where y: "vg_estimatedLimit l' = Fin y" "y \<le> x"
    using vegas_drop_estimate [OF inv _ x(1) _ _ assms(5), of "rnd (x - v)"] fields f(8) v(1) mk by auto
  have inv': "vegas_inv ?hi l'" using vegas_OnSample_ok [OF inv, of rd' st rtt infl True] assms(5) by auto
  then have "1 \<le> y" using y(1) by (auto simp: vegas_inv_def)
  moreover have "in_i64 (trunc x)" "in_i64 (trunc y)"
    using \<open>1 \<le> y\<close> y(2) x52 trunc_mono [of x "2 ^ 52"] trunc_mono [of y "2 ^ 52"] trunc_mono [of 0 x] trunc_mono [of 0 y]
      trunc_of_int [of "2 ^ 52"] trunc_of_int [of 0]
    by (auto intro!: in_i64_nonneg)
  ultimately show ?thesis using x(1) y trunc_mono by (simp add: vegas_EstimatedLimit_def)
qed

theorem vegas_drop_never_raises_witness:
  "\<exists>l e l' e'. NewDefaultVegasLimitWithLimit Log10_rounded (log10RootLookup Log10_rounded None) undefined ''v'' 20
      None NilRegistry [] = (l, e) \<and> vegas_OnSample undefined 0 5 40 True l = Some (l', e')
    \<and> vegas_EstimatedLimit l' \<le> vegas_EstimatedLimit l"
proof -
  obtain l e where new: "NewDefaultVegasLimitWithLimit Log10_rounded (log10RootLookup Log10_rounded None) undefined ''v'' 20
      None NilRegistry [] = (l, e)" by (metis prod.exhaust)
  have fl: "is_float (Fin 1)" using representable_of_int [of 1] pow2_le_huge [of 0] by simp
  have "mk (- 1) = Fin (- 1)" using mk_of_int [of "- 1"] by simp
  then have new': "NewVegasLimitWithRegistry Log10_rounded (log10RootLookup Log10_rounded None) undefined ''v'' 20 None 1000 (Fin 1)
      None None None None None (- 1) None NilRegistry [] = (l, e)"
    using new by (simp add: NewDefaultVegasLimitWithLimit_def NewVegasLimitWithRegistry_def)
  have "vegas_inv 1000 l"
    by (rule vegas_new_inv [OF new' Log10_rounded_ok]) (use fl in \<open>simp_all add: full_smoothing_def\<close>)
  then obtain l' e' where on: "vegas_OnSample undefined 0 5 40 True l = Some (l', e')"
    using vegas_OnSample_ok by metis
  have "vegas_EstimatedLimit l' \<le> vegas_EstimatedLimit (limit_run vegas_ops l [])"
    by (rule vegas_drop_never_raises [OF new Log10_rounded_ok, where xs = "[]"]) (use on in \<open>simp_all add: limit_run_def\<close>)
  then show ?thesis using new on by (auto simp: limit_run_def)
qed

end
