(* ===== verification/Limit_Gradient2.thy ===== *)
theory Limit_Gradient2
  imports Limit_Basic Limit_Functions Measurements
begin

text \<open>
  \<open>limit/gradient2.go\<close>: the limit that follows the gradient of the current round-trip time
  against a long-term average. The queue-size function may panic, so processing a sample is an
  \<open>option\<close>. Every operation holds the mutex.
\<close>

record gradient2 =
  g2_estimatedLimit :: float64
  g2_shortRTT :: measurement
  g2_longRTT :: measurement
  g2_maxLimit :: int
  g2_minLimit :: int
  g2_queueSizeFunc :: "int \<Rightarrow> int option"
  g2_smoothing :: float64
  g2_commonSampler :: "common_sampler option"
  g2_longRTTSampleListener :: sample_listener
  g2_shortRTTSampleListener :: sample_listener
  g2_queueSizeSampleListener :: sample_listener
  g2_listeners :: "nat list"
  g2_logger :: logger
  g2_registry :: registry

datatype gradient2_error = MinAboveMax

definition NewGradient2Limit ::
    "string \<Rightarrow> int \<Rightarrow> int \<Rightarrow> int \<Rightarrow> (int \<Rightarrow> int option) option \<Rightarrow> float64 \<Rightarrow> int \<Rightarrow> logger option
     \<Rightarrow> registry \<Rightarrow> string list \<Rightarrow> gradient2_error + gradient2 \<times> effect list" where
  "NewGradient2Limit name initialLimit maxConurrency minLimit queueSizeFunc smoothing longWindow logger registry tags =
   (let smoothing = (if fless (lit 1) smoothing \<or> fless smoothing (lit 0) then lit (2 / 10) else smoothing);
        maxConurrency = (if maxConurrency \<le> 0 then 1000 else maxConurrency);
        minLimit = (if minLimit \<le> 0 then 4 else minLimit);
        longWindow = (if longWindow < 0 then 100 else longWindow);
        logger = (case logger of None \<Rightarrow> NoopLimitLogger | Some g \<Rightarrow> g);
        registry = registry_or_empty registry
    in if minLimit > maxConurrency then Inl MinAboveMax
       else let queueSizeFunc = (case queueSizeFunc of None \<Rightarrow> (\<lambda>_. Some 4) | Some f \<Rightarrow> f);
                initialLimit = (if initialLimit \<le> 0 then 4 else initialLimit);
                (longL, e1) = RegisterDistribution registry (PrefixMetricWithName MetricMinRTT name) tags;
                (shortL, e2) = RegisterDistribution registry (PrefixMetricWithName MetricWindowMinRTT name) tags;
                (queueL, e3) = RegisterDistribution registry (PrefixMetricWithName MetricWindowQueueSize name) tags;
                (sampler, e4) = NewCommonMetricSamplerOrNil registry name tags
            in Inr (\<lparr>g2_estimatedLimit = f64 initialLimit, g2_shortRTT = Single \<lparr>sg_value = Fin 0\<rparr>,
                     g2_longRTT = ExponentialAverage (NewExponentialAverageMeasurement longWindow 10),
                     g2_maxLimit = maxConurrency, g2_minLimit = minLimit, g2_queueSizeFunc = queueSizeFunc,
                     g2_smoothing = smoothing, g2_commonSampler = sampler,
                     g2_longRTTSampleListener = longL, g2_shortRTTSampleListener = shortL,
                     g2_queueSizeSampleListener = queueL, g2_listeners = [], g2_logger = logger,
                     g2_registry = registry\<rparr>, e1 @ e2 @ e3 @ e4))"

text \<open>The arguments of the default constructor are accepted, so its result is never nil.\<close>

definition NewDefaultGradient2Limit ::
    "string \<Rightarrow> logger option \<Rightarrow> registry \<Rightarrow> string list \<Rightarrow> (gradient2 \<times> effect list) option" where
  "NewDefaultGradient2Limit name logger registry tags =
     (case NewGradient2Limit name 20 200 20 (Some (\<lambda>_. Some 4)) (lit (2 / 10)) 600 logger registry tags of
        Inl _ \<Rightarrow> None | Inr l \<Rightarrow> Some l)"

definition gradient2_EstimatedLimit :: "gradient2 \<Rightarrow> int" where
  "gradient2_EstimatedLimit l = f2i (g2_estimatedLimit l)"

definition gradient2_NotifyOnChange :: "nat \<Rightarrow> gradient2 \<Rightarrow> gradient2" where
  "gradient2_NotifyOnChange consumer l = l\<lparr>g2_listeners := g2_listeners l @ [consumer]\<rparr>"

definition gradient2_notifyListeners :: "int \<Rightarrow> gradient2 \<Rightarrow> effect list" where
  "gradient2_notifyListeners newLimit l = notify_all (g2_listeners l) newLimit"

text \<open>The update of the estimate from the averages, after the check that the caller used the limit.\<close>

definition gradient2_newLimit :: "float64 \<Rightarrow> float64 \<Rightarrow> int \<Rightarrow> gradient2 \<Rightarrow> float64" where
  "gradient2_newLimit shortRTT longRTT queueSize l =
     (let gradient = fmax (lit (1 / 2)) (fmin (lit 1) (fdiv longRTT shortRTT));
          newLimit = fadd (fmul (g2_estimatedLimit l) gradient) (f64 queueSize);
          newLimit = fadd (fmul (g2_estimatedLimit l) (fsub (lit 1) (g2_smoothing l)))
                          (fmul newLimit (g2_smoothing l))
      in fmax (f64 (g2_minLimit l)) (fmin (f64 (g2_maxLimit l)) newLimit))"

text \<open>
  The samples added to both averages: their values, and the limit with the long-term average
  reduced when it is more than twice the current round-trip time.
\<close>

definition gradient2_measure :: "int \<Rightarrow> gradient2 \<Rightarrow> float64 \<times> float64 \<times> gradient2" where
  "gradient2_measure rtt l =
     (let (short, sm) = meas_Add (f64 rtt) (g2_shortRTT l); shortRTT = fst short;
          (long, lm) = meas_Add (f64 rtt) (g2_longRTT l); longRTT = fst long;
          lm = (if fless (lit 2) (fdiv longRTT shortRTT)
                then meas_Update (\<lambda>value. fmul value (lit (9 / 10))) lm else lm)
      in (shortRTT, longRTT, l\<lparr>g2_shortRTT := sm, g2_longRTT := lm\<rparr>))"

definition gradient2_OnSample ::
    "int \<Rightarrow> int \<Rightarrow> int \<Rightarrow> bool \<Rightarrow> gradient2 \<Rightarrow> (gradient2 \<times> effect list) option" where
  "gradient2_OnSample startTime rtt inFlight didDrop l =
     (let e1 = Sample (g2_commonSampler l) rtt inFlight didDrop in
      case g2_queueSizeFunc l (f2i (g2_estimatedLimit l)) of
        None \<Rightarrow> None
      | Some queueSize \<Rightarrow>
          (let (shortRTT, longRTT, l) = gradient2_measure rtt l;
               e2 = AddSample (g2_shortRTTSampleListener l) shortRTT
                    @ AddSample (g2_longRTTSampleListener l) longRTT
                    @ AddSample (g2_queueSizeSampleListener l) (f64 queueSize)
           in if fless (f64 inFlight) (fdiv (g2_estimatedLimit l) (lit 2)) then Some (l, e1 @ e2)
              else let newLimit = gradient2_newLimit shortRTT longRTT queueSize l;
                       e3 = (if \<not> feq newLimit (g2_estimatedLimit l) \<and> logger_IsDebugEnabled (g2_logger l)
                             then logger_Debugf (g2_logger l)
                               ''new limit=%0.2f, shortRTT=%0.2f ms, longRTT=%0.2f ms, queueSize=%d, gradient=%0.2f''
                               [LogFloat newLimit, LogFloat (fdiv shortRTT (lit 1000000)),
                                LogFloat (fdiv longRTT (lit 1000000)), LogInt queueSize,
                                LogFloat (fmax (lit (1 / 2)) (fmin (lit 1) (fdiv longRTT shortRTT)))]
                             else []);
                       l' = l\<lparr>g2_estimatedLimit := newLimit\<rparr>
                   in Some (l', e1 @ e2 @ e3 @ gradient2_notifyListeners (f2i (g2_estimatedLimit l')) l')))"

text \<open>The method table; a sample whose processing panics leaves no successor state.\<close>

definition gradient2_ops :: "gradient2 limit_ops" where
  "gradient2_ops = \<lparr>EstimatedLimit = gradient2_EstimatedLimit, NotifyOnChange = gradient2_NotifyOnChange,
     OnSample = (\<lambda>_ st rtt infl d l. case gradient2_OnSample st rtt infl d l of None \<Rightarrow> (l, []) | Some r \<Rightarrow> r)\<rparr>"

section \<open>The range of the limit\<close>

definition gradient2_inv :: "int \<Rightarrow> int \<Rightarrow> gradient2 \<Rightarrow> bool" where
  "gradient2_inv lo hi l \<longleftrightarrow> 1 \<le> lo \<and> hi \<le> 2 ^ 52 \<and> lo \<le> g2_minLimit l \<and> g2_minLimit l \<le> g2_maxLimit l
     \<and> g2_maxLimit l \<le> hi
     \<and> (\<exists>x. g2_estimatedLimit l = Fin x \<and> of_int lo \<le> x \<and> x \<le> of_int hi)
     \<and> (\<exists>s. g2_smoothing l = Fin s \<and> 0 \<le> s \<and> s \<le> 1)
     \<and> (\<forall>n. lo \<le> n \<and> n \<le> hi \<longrightarrow> (\<exists>q. g2_queueSizeFunc l n = Some q \<and> in_i64 q))
     \<and> (\<exists>m. g2_shortRTT l = Single m) \<and> (\<exists>m. g2_longRTT l = ExponentialAverage m \<and> expavg_inv m)"

text \<open>Samples a completed request can give: a round-trip time of at least a nanosecond.\<close>

definition positive_rtt :: "limit_sample \<Rightarrow> bool" where
  "positive_rtt = (\<lambda>(r, st, rtt, infl, d). 1 \<le> rtt \<and> in_i64 rtt)"

lemma mk_bounded: "\<bar>x\<bar> \<le> 2 ^ n \<Longrightarrow> n \<le> 1023 \<Longrightarrow> mk x = Fin (rnd x) \<and> \<bar>rnd x\<bar> \<le> 2 ^ n"
  using mk_finite [of x "2 ^ n"] representable_pow2 [of "int n"] pow2_le_huge [of n] by simp

lemma f64_in_i64:
  assumes "in_i64 n"
  obtains x where "f64 n = Fin x" and "\<bar>x\<bar> \<le> 2 ^ 63" and "1 \<le> n \<Longrightarrow> 1 \<le> x" and "representable x"
proof -
  have "\<bar>n\<bar> \<le> 2 ^ 63" using assms by (auto simp: in_i64_def)
  then have "of_int \<bar>n\<bar> \<le> (of_int (2 ^ 63) :: real)" by (simp only: of_int_le_iff)
  then have mk: "mk (of_int n) = Fin (rnd (of_int n)) \<and> \<bar>rnd (of_int n)\<bar> \<le> 2 ^ 63" by (intro mk_bounded) simp_all
  moreover have "1 \<le> rnd (of_int n)" if "1 \<le> n" using that representable_of_int [of 1] by (intro rnd_ge) simp_all
  ultimately show thesis by (intro that [of "rnd (of_int n)"]) (simp_all add: f64_def)
qed

lemma abs_prod_le: "\<bar>a\<bar> \<le> A \<Longrightarrow> \<bar>b\<bar> \<le> B \<Longrightarrow> \<bar>a * b\<bar> \<le> A * (B::real)"
  by (simp add: abs_mult mult_mono)

lemma gradient2_newLimit_range:
  assumes "gradient2_inv lo hi l" and "1 \<le> s" and "s \<le> 2 ^ 63" and "1 \<le> t" and "t \<le> 2 ^ 63" and "in_i64 q"
  obtains x where "gradient2_newLimit (Fin s) (Fin t) q l = Fin x" and "of_int (g2_minLimit l) \<le> x"
    and "x \<le> of_int (g2_maxLimit l)"
proof -
  obtain x where x: "g2_estimatedLimit l = Fin x" "of_int lo \<le> x" "x \<le> of_int hi"
    using assms(1) by (auto simp: gradient2_inv_def)
  obtain c where c: "g2_smoothing l = Fin c" "0 \<le> c" "c \<le> 1" using assms(1) by (auto simp: gradient2_inv_def)
  have b: "1 \<le> lo" "hi \<le> 2 ^ 52" "lo \<le> g2_minLimit l" "g2_minLimit l \<le> g2_maxLimit l" "g2_maxLimit l \<le> hi"
    using assms(1) by (auto simp: gradient2_inv_def)
  have "of_int hi \<le> (of_int (2 ^ 52) :: real)" using b(2) by (simp only: of_int_le_iff)
  moreover have "1 \<le> (of_int lo :: real)" using b(1) by simp
  ultimately have x52: "\<bar>x\<bar> \<le> 2 ^ 52" using x(2,3) by simp
  have "t / s \<le> 2 ^ 63 / 1" using assms(2,4,5) by (intro frac_le) simp_all
  then have "mk (t / s) = Fin (rnd (t / s))" using assms(2,4) by (intro mk_le_pow2 [of _ 63]) simp_all
  then have div: "fdiv (Fin t) (Fin s) = Fin (rnd (t / s))" using assms(2) by simp
  define g where "g = max (1 / 2) (min 1 (rnd (t / s)))"
  have grad: "fmax (lit (1 / 2)) (fmin (Fin 1) (fdiv (Fin t) (Fin s))) = Fin g"
    unfolding div lit_half by (simp add: g_def)
  have g: "\<bar>g\<bar> \<le> 1" by (simp add: g_def)
  obtain qr where qr: "f64 q = Fin qr" "\<bar>qr\<bar> \<le> 2 ^ 63" using f64_in_i64 [OF assms(6)] by blast
  have "\<bar>x * g\<bar> \<le> 2 ^ 52 * 1" using x52 g by (rule abs_prod_le)
  then have 1: "mk (x * g) = Fin (rnd (x * g))" "\<bar>rnd (x * g)\<bar> \<le> 2 ^ 52" using mk_bounded [of "x * g" 52] by auto
  have "\<bar>rnd (x * g) + qr\<bar> \<le> 2 ^ 64" using 1(2) qr(2) by (simp add: abs_le_iff)
  then have 2: "mk (rnd (x * g) + qr) = Fin (rnd (rnd (x * g) + qr))" "\<bar>rnd (rnd (x * g) + qr)\<bar> \<le> 2 ^ 64"
    using mk_bounded [of "rnd (x * g) + qr" 64] by auto
  have 3: "mk (1 - c) = Fin (rnd (1 - c))" "\<bar>rnd (1 - c)\<bar> \<le> 1" using mk_bounded [of "1 - c" 0] c(2,3) by auto
  have "\<bar>x * rnd (1 - c)\<bar> \<le> 2 ^ 52 * 1" using x52 3(2) by (rule abs_prod_le)
  then have 4: "mk (x * rnd (1 - c)) = Fin (rnd (x * rnd (1 - c)))" using mk_bounded [of "x * rnd (1 - c)" 52] by auto
  have "\<bar>c\<bar> \<le> 1" using c(2,3) by simp
  then have "\<bar>rnd (rnd (x * g) + qr) * c\<bar> \<le> 2 ^ 64 * 1" by (rule abs_prod_le [OF 2(2)])
  then have 5: "mk (rnd (rnd (x * g) + qr) * c) = Fin (rnd (rnd (rnd (x * g) + qr) * c))"
    using mk_bounded [of "rnd (rnd (x * g) + qr) * c" 64] by auto
  have mm: "f64 (g2_minLimit l) = Fin (of_int (g2_minLimit l))" "f64 (g2_maxLimit l) = Fin (of_int (g2_maxLimit l))"
    by (rule f64_exact, use b in simp)+
  have new: "gradient2_newLimit (Fin s) (Fin t) q l = fmax (Fin (of_int (g2_minLimit l)))
      (fmin (Fin (of_int (g2_maxLimit l))) (mk (rnd (x * rnd (1 - c)) + rnd (rnd (rnd (x * g) + qr) * c))))"
    unfolding gradient2_newLimit_def grad Let_def x(1) c(1) mm lit_1 by (simp add: 1(1) 2(1) 3(1) 4 5 qr(1))
  show thesis
    by (rule clamp_Fin [of "mk (rnd (x * rnd (1 - c)) + rnd (rnd (rnd (x * g) + qr) * c))"
          "of_int (g2_minLimit l)" "of_int (g2_maxLimit l)"])
       (use b(4) new that in \<open>simp_all\<close>)
qed

lemma long_rtt_reduced:
  assumes "expavg_inv m" and "ea_value m = Fin t" and "1 \<le> s" and "t \<le> 2 ^ 63" and "fless (lit 2) (fdiv (Fin t) (Fin s))"
  shows "expavg_inv (expavg_Update (\<lambda>value. fmul value (lit (9 / 10))) m)"
proof -
  have two: "mk 2 = Fin 2" using mk_of_int [of 2] by simp
  have "2 \<le> t"
  proof (rule ccontr)
    assume "\<not> 2 \<le> t"
    then have "t \<le> 2 * s" using assms(3) by linarith
    then have "t / s \<le> 2" using assms(3) by (simp add: field_simps)
    moreover have "representable 2" using representable_of_int [of 2] by simp
    ultimately have "rnd (t / s) \<le> 2" by (intro rnd_le)
    moreover have "huge \<le> rnd (t / s) \<or> mk (t / s) = Fin (rnd (t / s)) \<or> mk (t / s) = NInf"
      by (simp add: mk_def Let_def)
    moreover have "2 < huge" using pow2_le_huge [of 1] by simp
    ultimately show False using assms(3,5) two by auto
  qed
  define r where "r = rnd (9 / 10)"
  have r: "1 / 2 \<le> r" "r \<le> 1"
    using rnd_ge [of "1 / 2" "9 / 10"] rnd_le [of 1 "9 / 10"] representable_pow2 [of "- 1"] representable_pow2 [of 0]
    by (simp_all add: r_def power_int_def)
  have "mk (9 / 10) = Fin r" using mk_le_pow2 [of "9 / 10" 0] by (simp add: r_def)
  moreover have "t * r \<le> 2 ^ 63 * 1" and "2 * (1 / 2) \<le> t * r"
    using r \<open>2 \<le> t\<close> assms(4) by (intro mult_mono; simp)+
  then have tr: "1 \<le> t * r" "t * r \<le> 2 ^ 63" by simp_all
  moreover have "mk (t * r) = Fin (rnd (t * r))" using tr by (intro mk_le_pow2 [of _ 63]) simp_all
  moreover have "1 \<le> rnd (t * r)" using tr(1) representable_of_int [of 1] by (intro rnd_ge) simp_all
  moreover have "rnd (t * r) \<le> 2 ^ 63" using tr(2) representable_pow2 [of 63] by (intro rnd_le) simp_all
  ultimately show ?thesis using assms(1,2) by (simp add: expavg_inv_def expavg_Update_def)
qed

lemma gradient2_OnSample_state:
  assumes "g2_queueSizeFunc l (f2i (g2_estimatedLimit l)) = Some q" and "gradient2_measure rtt l = (s, t, k)"
  obtains e where "gradient2_OnSample st rtt infl d l =
     Some ((if fless (f64 infl) (fdiv (g2_estimatedLimit k) (lit 2)) then k
            else k\<lparr>g2_estimatedLimit := gradient2_newLimit s t q k\<rparr>), e)"
  using assms
  by (cases "fless (f64 infl) (fdiv (g2_estimatedLimit k) (lit 2))") (auto simp: gradient2_OnSample_def Let_def)

lemma gradient2_measure_ok:
  assumes "gradient2_inv lo hi l" and "1 \<le> rtt" and "in_i64 rtt"
  obtains s t k where "gradient2_measure rtt l = (Fin s, Fin t, k)" and "gradient2_inv lo hi k"
    and "1 \<le> s" and "s \<le> 2 ^ 63" and "1 \<le> t" and "t \<le> 2 ^ 63"
    and "g2_estimatedLimit k = g2_estimatedLimit l" and "g2_minLimit k = g2_minLimit l"
    and "g2_maxLimit k = g2_maxLimit l"
proof -
  obtain r where r: "f64 rtt = Fin r" "\<bar>r\<bar> \<le> 2 ^ 63" "1 \<le> r" using f64_in_i64 [OF assms(3)] assms(2) by metis
  have r63: "r \<le> 2 ^ 63" using r(2) by simp
  obtain sm lm where m: "g2_shortRTT l = Single sm" "g2_longRTT l = ExponentialAverage lm" "expavg_inv lm"
    using assms(1) by (auto simp: gradient2_inv_def)
  let ?lm = "snd (expavg_Add (Fin r) lm)"
  obtain t where t: "ea_value ?lm = Fin t" "1 \<le> t" "t \<le> 2 ^ 63" "expavg_inv ?lm"
    using expavg_inv_Add [OF m(3) r(3) r63] by (auto simp: expavg_Get_def)
  have ret: "fst (fst (expavg_Add (Fin r) lm)) = Fin t"
    using expavg_meas.add_returns_get t(1) by (simp add: expavg_Get_def)
  define lm' where "lm' = (if fless (lit 2) (fdiv (Fin t) (Fin r))
      then expavg_Update (\<lambda>value. fmul value (lit (9 / 10))) ?lm else ?lm)"
  have lm': "expavg_inv lm'" unfolding lm'_def using long_rtt_reduced [OF t(4,1) r(3) t(3)] t(4) by simp
  let ?k = "l\<lparr>g2_shortRTT := Single (sm\<lparr>sg_value := Fin r\<rparr>), g2_longRTT := ExponentialAverage lm'\<rparr>"
  have "gradient2_measure rtt l = (Fin r, Fin t, ?k)"
    unfolding gradient2_measure_def m r(1) meas_Add.simps lift_Add_def
    by (simp add: single_Add_def Let_def ret lm'_def del: fdiv.simps)
  moreover have "gradient2_inv lo hi ?k" using assms(1) lm' by (simp add: gradient2_inv_def)
  ultimately show thesis using r(3) r63 t(2,3) that by simp
qed

lemma gradient2_OnSample_ok:
  assumes inv: "gradient2_inv lo hi l" and rtt: "1 \<le> rtt" "in_i64 rtt"
  obtains l' e where "gradient2_OnSample st rtt infl d l = Some (l', e)" and "gradient2_inv lo hi l'"
proof -
  obtain x where x: "g2_estimatedLimit l = Fin x" "of_int lo \<le> x" "x \<le> of_int hi"
    using inv by (auto simp: gradient2_inv_def)
  have b: "1 \<le> lo" "hi \<le> 2 ^ 52" "lo \<le> g2_minLimit l" "g2_minLimit l \<le> g2_maxLimit l" "g2_maxLimit l \<le> hi"
    using inv by (auto simp: gradient2_inv_def)
  have "in_i64 lo" "in_i64 hi" using b by (auto intro!: in_i64_nonneg)
  then obtain q where q: "g2_queueSizeFunc l (f2i (Fin x)) = Some q" "in_i64 q"
    using inv f2i_between [OF x(2,3)] by (auto simp: gradient2_inv_def simp del: f2i.simps)
  obtain s t k where m: "gradient2_measure rtt l = (Fin s, Fin t, k)" "gradient2_inv lo hi k"
      "1 \<le> s" "s \<le> 2 ^ 63" "1 \<le> t" "t \<le> 2 ^ 63" "g2_minLimit k = g2_minLimit l" "g2_maxLimit k = g2_maxLimit l"
    using gradient2_measure_ok [OF inv rtt] by metis
  obtain y where y: "gradient2_newLimit (Fin s) (Fin t) q k = Fin y" "of_int (g2_minLimit k) \<le> y"
      "y \<le> of_int (g2_maxLimit k)"
    using gradient2_newLimit_range [OF m(2-6) q(2)] by blast
  have "of_int lo \<le> (of_int (g2_minLimit l) :: real)" "of_int (g2_maxLimit l) \<le> (of_int hi :: real)"
    using b(3,5) by (simp_all only: of_int_le_iff)
  then have "of_int lo \<le> y" "y \<le> of_int hi" using y(2,3) m(7,8) by simp_all
  then have "gradient2_inv lo hi (k\<lparr>g2_estimatedLimit := gradient2_newLimit (Fin s) (Fin t) q k\<rparr>)"
    using m(2) y(1) by (simp add: gradient2_inv_def)
  moreover obtain e where "gradient2_OnSample st rtt infl d l =
     Some ((if fless (f64 infl) (fdiv (g2_estimatedLimit k) (lit 2)) then k
            else k\<lparr>g2_estimatedLimit := gradient2_newLimit (Fin s) (Fin t) q k\<rparr>), e)"
    using gradient2_OnSample_state [OF _ m(1)] q(1) x(1) by metis
  ultimately show thesis using m(2) that by (simp split: if_splits)
qed

interpretation gradient2_limit: bounded_limit gradient2_ops "gradient2_inv lo hi" positive_rtt lo hi for lo hi
proof unfold_locales
  fix l r st rtt infl d
  assume "gradient2_inv lo hi l" and "positive_rtt (r, st, rtt, infl, d)"
  then obtain l' e where "gradient2_OnSample st rtt infl d l = Some (l', e)" "gradient2_inv lo hi l'"
    using gradient2_OnSample_ok [of lo hi l rtt st infl d] by (auto simp: positive_rtt_def)
  then show "gradient2_inv lo hi (fst (OnSample gradient2_ops r st rtt infl d l))" by (simp add: gradient2_ops_def)
next
  fix l
  assume inv: "gradient2_inv lo hi l"
  then obtain x where x: "g2_estimatedLimit l = Fin x" "of_int lo \<le> x" "x \<le> of_int hi" by (auto simp: gradient2_inv_def)
  moreover have "in_i64 lo" "in_i64 hi" using inv by (auto intro!: in_i64_nonneg simp: gradient2_inv_def)
  ultimately show "lo \<le> EstimatedLimit gradient2_ops l \<and> EstimatedLimit gradient2_ops l \<le> hi"
    using f2i_between [of lo x hi] by (simp add: gradient2_ops_def gradient2_EstimatedLimit_def del: f2i.simps)
qed

text \<open>C26: The Gradient2 limit stays in range: created with a fixed queue size, after any sequence
  of samples with round-trip times of at least one nanosecond the limit is between the smaller of
  initial and minimum limit and the larger of initial and maximum limit (the initial limit is not
  checked against the bounds), and the next such sample is processed without a panic.\<close>

theorem gradient2_range:
  assumes "NewGradient2Limit name n mx mn (Some (\<lambda>_. Some q)) s w lg reg tags = Inr (l, e)"
    and "1 \<le> n" and "n \<le> 2 ^ 52" and "1 \<le> mn" and "1 \<le> mx" and "mx \<le> 2 ^ 52" and "in_i64 q"
    and "s = Fin c" and "0 \<le> c" and "c \<le> 1" and "1 \<le> w" and "w \<le> 2 ^ 31"
    and "\<And>r st rtt infl d. (r, st, rtt, infl, d) \<in> set xs \<Longrightarrow> 1 \<le> rtt \<and> in_i64 rtt" and "1 \<le> rtt" and "in_i64 rtt"
  shows "min n mn \<le> gradient2_EstimatedLimit (limit_run gradient2_ops l xs)
    \<and> gradient2_EstimatedLimit (limit_run gradient2_ops l xs) \<le> max n mx
    \<and> gradient2_OnSample st rtt infl d (limit_run gradient2_ops l xs) \<noteq> None"
proof -
  have "f64 n = Fin (of_int n)" using assms(2,3) by (intro f64_exact) simp
  moreover have "\<not> mx < mn" using assms(1,4,5) by (auto simp: NewGradient2Limit_def Let_def split: if_splits)
  ultimately have "gradient2_inv (min n mn) (max n mx) l"
    using assms(1-12) expavg_inv_New [of w 10]
    by (auto simp: NewGradient2Limit_def gradient2_inv_def Let_def min_le_iff_disj le_max_iff_disj
        split: prod.splits)
  moreover have "x \<in> set xs \<Longrightarrow> positive_rtt x" for x using assms(13) by (cases x) (auto simp: positive_rtt_def)
  ultimately have range: "min n mn \<le> gradient2_EstimatedLimit (limit_run gradient2_ops l xs)"
      "gradient2_EstimatedLimit (limit_run gradient2_ops l xs) \<le> max n mx"
    and inv: "gradient2_inv (min n mn) (max n mx) (limit_run gradient2_ops l xs)"
    using gradient2_limit.run_range [of "min n mn" "max n mx" l xs] gradient2_limit.run_inv [of "min n mn" "max n mx" l xs]
    by (auto simp: gradient2_ops_def)
  obtain l' e' where "gradient2_OnSample st rtt infl d (limit_run gradient2_ops l xs) = Some (l', e')"
    using gradient2_OnSample_ok [OF inv assms(14,15), of st infl d] by blast
  then show ?thesis using range by simp
qed

theorem gradient2_range_witness:
  "\<exists>l e. NewGradient2Limit ''g'' 20 200 20 (Some (\<lambda>_. Some 4)) (Fin 1) 600 None NilRegistry [] = Inr (l, e)
     \<and> gradient2_EstimatedLimit (limit_run gradient2_ops l [(undefined, 0, 1000000, 30, False)]) \<le> 200"
proof -
  obtain l e where new: "NewGradient2Limit ''g'' 20 200 20 (Some (\<lambda>_. Some 4)) (Fin 1) 600 None NilRegistry [] = Inr (l, e)"
    by (simp add: NewGradient2Limit_def Let_def case_prod_beta)
  have "gradient2_EstimatedLimit (limit_run gradient2_ops l [(undefined, 0, 1000000, 30, False)]) \<le> 200"
    using gradient2_range [OF new, of 1 "[(undefined, 0, 1000000, 30, False)]" 1] by (simp add: in_i64_def)
  with new show ?thesis by blast
qed

section \<open>A round-trip time of zero\<close>

definition gradient2_poisoned :: "gradient2 \<Rightarrow> bool" where
  "gradient2_poisoned l \<longleftrightarrow> g2_estimatedLimit l = NaN \<and> in_i64 (g2_minLimit l) \<and> in_i64 (g2_maxLimit l)"

lemma gradient2_newLimit_NaN:
  assumes "in_i64 (g2_minLimit l)" and "in_i64 (g2_maxLimit l)"
    and "g2_estimatedLimit l = NaN \<or> fdiv t s = NaN \<and> (\<exists>x. g2_estimatedLimit l = Fin x)"
  shows "gradient2_newLimit s t q l = NaN"
proof -
  obtain a b where "f64 (g2_minLimit l) = Fin a" "f64 (g2_maxLimit l) = Fin b"
    using f64_in_i64 assms(1,2) by metis
  moreover have "fmul (g2_estimatedLimit l) (fmax (Fin (1 / 2)) (fmin (Fin 1) (fdiv t s))) = NaN"
    using assms(3) by (auto simp: fmin_NaN fmax_NaN)
  ultimately show ?thesis by (simp add: gradient2_newLimit_def Let_def lit_half fmin_NaN fmax_NaN)
qed

lemma gradient2_poisoned_step:
  assumes "gradient2_poisoned l"
  shows "gradient2_poisoned (fst (OnSample gradient2_ops r st rtt infl d l))"
proof (cases "g2_queueSizeFunc l (f2i (g2_estimatedLimit l))")
  case None
  then show ?thesis using assms by (simp add: gradient2_ops_def gradient2_OnSample_def)
next
  case (Some q)
  obtain s t k where m: "gradient2_measure rtt l = (s, t, k)" by (metis prod.exhaust)
  then have k: "gradient2_poisoned k"
    using assms by (auto simp: gradient2_poisoned_def gradient2_measure_def Let_def split: prod.splits)
  then have "gradient2_newLimit s t q k = NaN"
    by (intro gradient2_newLimit_NaN) (simp_all add: gradient2_poisoned_def)
  moreover obtain e where "gradient2_OnSample st rtt infl d l =
     Some ((if fless (f64 infl) (fdiv (g2_estimatedLimit k) (lit 2)) then k
            else k\<lparr>g2_estimatedLimit := gradient2_newLimit s t q k\<rparr>), e)"
    using gradient2_OnSample_state [OF Some m] by metis
  ultimately show ?thesis using k by (auto simp: gradient2_ops_def gradient2_poisoned_def)
qed

lemma gradient2_zero_rtt:
  assumes new: "NewDefaultGradient2Limit name lg reg tags = Some (l, e)" and "10 \<le> n" and "in_i64 n"
  shows "gradient2_poisoned (fst (OnSample gradient2_ops r st 0 n d l))"
proof -
  have f: "f64 20 = Fin 20" "f64 10 = Fin 10" "f64 0 = Fin 0" "f64 1 = Fin 1" "mk 2 = Fin 2" "mk 10 = Fin 10"
    using f64_exact [of 20] f64_exact [of 10] f64_exact [of 0] f64_exact [of 1] mk_of_int [of 2] mk_of_int [of 10] by simp_all
  have i: "i64 1 = 1" by (rule i64_id) (simp add: in_i64_def)
  have l: "g2_estimatedLimit l = Fin 20" "g2_shortRTT l = Single \<lparr>sg_value = Fin 0\<rparr>" "g2_queueSizeFunc l = (\<lambda>_. Some 4)"
    "g2_longRTT l = ExponentialAverage (NewExponentialAverageMeasurement 600 10)"
    using new f(1) by (auto simp: NewDefaultGradient2Limit_def NewGradient2Limit_def Let_def case_prod_beta)
  have add: "expavg_Add (Fin 0) (NewExponentialAverageMeasurement 600 10)
      = ((Fin 0, True), (NewExponentialAverageMeasurement 600 10)\<lparr>ea_count := 1\<rparr>)"
    by (simp add: expavg_Add_def NewExponentialAverageMeasurement_def f i Let_def)
  have "\<exists>k. gradient2_measure 0 l = (Fin 0, Fin 0, k) \<and> g2_estimatedLimit k = Fin 20"
    by (simp add: gradient2_measure_def l f lift_Add_def single_Add_def add Let_def)
  then obtain k where k: "gradient2_measure 0 l = (Fin 0, Fin 0, k)" "g2_estimatedLimit k = Fin 20" by blast
  have bounds: "in_i64 (g2_minLimit k)" "in_i64 (g2_maxLimit k)"
    using new k(1) by (auto simp: NewDefaultGradient2Limit_def NewGradient2Limit_def gradient2_measure_def in_i64_def
        Let_def case_prod_beta)
  then have nan: "gradient2_newLimit (Fin 0) (Fin 0) 4 k = NaN"
    by (intro gradient2_newLimit_NaN) (simp_all add: k(2))
  have "10 \<le> rnd (of_int n)" using assms(2) representable_of_int [of 10] by (intro rnd_ge) simp_all
  moreover obtain z where "f64 n = Fin z" using f64_in_i64 [OF assms(3)] by blast
  ultimately have "\<not> fless (f64 n) (fdiv (g2_estimatedLimit k) (lit 2))"
    using mk_eq_Fin [of "of_int n" z] by (auto simp: k(2) f f64_def)
  then obtain e' where "gradient2_OnSample st 0 n d l = Some (k\<lparr>g2_estimatedLimit := NaN\<rparr>, e')"
    using gradient2_OnSample_state [of l 4 0 "Fin 0" "Fin 0" k st n d] l(3) k(1) nan by auto
  then show ?thesis using bounds by (simp add: gradient2_ops_def gradient2_poisoned_def)
qed

lemma default_gradient2: "\<exists>l e. NewDefaultGradient2Limit name lg reg tags = Some (l, e)"
  by (simp add: NewDefaultGradient2Limit_def NewGradient2Limit_def Let_def case_prod_beta)

lemma gradient2_poisoned_run: "gradient2_poisoned l \<Longrightarrow> gradient2_poisoned (limit_run gradient2_ops l xs)"
  using limit_run_preserves [of gradient2_poisoned gradient2_ops, OF gradient2_poisoned_step] .

lemma gradient2_poisoned_estimate: "gradient2_poisoned l \<Longrightarrow> gradient2_EstimatedLimit l = MinInt64"
  by (simp add: gradient2_poisoned_def gradient2_EstimatedLimit_def)

text \<open>A round-trip time of zero poisons the Gradient2 limit: if it is the first sample of a
  default limit and the limit was half used, the estimate becomes NaN, stays NaN whatever samples
  follow, and \<open>EstimatedLimit\<close> reports the smallest 64-bit integer from then on.\<close>

theorem gradient2_zero_rtt_poisons:
  "\<exists>l e. NewDefaultGradient2Limit ''g'' None NilRegistry [] = Some (l, e)
     \<and> (\<forall>xs. g2_estimatedLimit (limit_run gradient2_ops l ((undefined, 0, 0, 10, False) # xs)) = NaN
         \<and> gradient2_EstimatedLimit (limit_run gradient2_ops l ((undefined, 0, 0, 10, False) # xs)) = MinInt64)"
proof -
  obtain l e where new: "NewDefaultGradient2Limit ''g'' None NilRegistry [] = Some (l, e)"
    using default_gradient2 by blast
  have "gradient2_poisoned (fst (OnSample gradient2_ops undefined 0 0 10 False l))"
    by (rule gradient2_zero_rtt [OF new]) (simp_all add: in_i64_def)
  then have "gradient2_poisoned (limit_run gradient2_ops l ((undefined, 0, 0, 10, False) # xs))" for xs
    using gradient2_poisoned_run by (simp add: limit_run_def)
  then show ?thesis using new gradient2_poisoned_estimate by (auto simp: gradient2_poisoned_def)
qed

end
