(* ===== verification/Strategy_Precise.thy ===== *)
theory Strategy_Precise
  imports Core
begin

text \<open>
  \<open>strategy/precise.go\<close>: the strategy that counts the requests in flight under a mutex. Each
  operation holds the mutex for its whole body, so an operation is one atomic step and a
  concurrent history is a sequence of operations.
\<close>

record precise =
  p_inFlight :: int
  p_limit :: int
  p_listener :: sample_listener

text \<open>\<open>None\<close>: the constructor calls a method of a nil registry and panics.\<close>

definition NewPreciseStrategyWithMetricRegistry ::
    "int \<Rightarrow> registry \<Rightarrow> string list \<Rightarrow> (precise \<times> effect list) option" where
  "NewPreciseStrategyWithMetricRegistry limit registry tags =
     (if registry = NilRegistry then None
      else let limit = (if limit < 1 then 1 else limit);
               (listener, e) = RegisterDistribution registry MetricInFlight tags
           in Some (\<lparr>p_inFlight = 0, p_limit = i32 limit, p_listener = listener\<rparr>,
                    e @ RegisterGauge registry MetricLimit tags))"

definition NewPreciseStrategy :: "int \<Rightarrow> precise" where
  "NewPreciseStrategy limit =
     fst (the (NewPreciseStrategyWithMetricRegistry limit EmptyMetricRegistry []))"

definition precise_TryAcquire :: "ctx \<Rightarrow> precise \<Rightarrow> (unit token \<times> bool) \<times> precise \<times> effect list" where
  "precise_TryAcquire c s =
     (if p_inFlight s \<ge> p_limit s
      then ((NewNotAcquiredStrategyToken (p_inFlight s), False), s,
            AddSample (p_listener s) (f64 (p_inFlight s)))
      else let s' = s\<lparr>p_inFlight := i32 (p_inFlight s + 1)\<rparr>
           in ((NewAcquiredStrategyToken (p_inFlight s') (), True), s',
               AddSample (p_listener s') (f64 (p_inFlight s'))))"

definition precise_releaseHandler :: "unit \<Rightarrow> precise \<Rightarrow> precise" where
  "precise_releaseHandler u s = s\<lparr>p_inFlight := i32 (p_inFlight s - 1)\<rparr>"

definition precise_SetLimit :: "int \<Rightarrow> precise \<Rightarrow> precise" where
  "precise_SetLimit limit s =
     (let limit = (if limit < 1 then 1 else limit) in s\<lparr>p_limit := i32 limit\<rparr>)"

definition precise_GetLimit :: "precise \<Rightarrow> int" where
  "precise_GetLimit s = p_limit s"

definition precise_GetBusyCount :: "precise \<Rightarrow> int" where
  "precise_GetBusyCount s = p_inFlight s"

definition precise_ops :: "(precise, unit) strategy_ops" where
  "precise_ops = \<lparr>TryAcquire = precise_TryAcquire, ReleaseFunc = precise_releaseHandler,
     SetLimit = precise_SetLimit\<rparr>"

text \<open>The factories wrap the constructors as functions of the initial limit.\<close>

definition NewPreciseStrategyFactory :: "int \<Rightarrow> precise" where
  "NewPreciseStrategyFactory initialLimit = NewPreciseStrategy initialLimit"

definition NewPreciseStrategyWithMetricRegistryFactory ::
    "registry \<Rightarrow> string list \<Rightarrow> int \<Rightarrow> (precise \<times> effect list) option" where
  "NewPreciseStrategyWithMetricRegistryFactory registry tags initialLimit =
     NewPreciseStrategyWithMetricRegistry initialLimit registry tags"

section \<open>The contract\<close>

definition precise_inv :: "precise \<Rightarrow> bool" where
  "precise_inv s \<longleftrightarrow> 0 \<le> p_inFlight s \<and> in_i32 (p_inFlight s) \<and> in_i32 (p_limit s)"

lemma NewPreciseStrategy_simps:
  "NewPreciseStrategy n = \<lparr>p_inFlight = 0, p_limit = i32 (if n < 1 then 1 else n),
     p_listener = EmptyMetricSampleListener\<rparr>"
  by (simp add: NewPreciseStrategy_def NewPreciseStrategyWithMetricRegistry_def
      RegisterDistribution_def register_def)

lemma precise_inv_New: "precise_inv (NewPreciseStrategy n)"
  by (simp add: NewPreciseStrategy_simps precise_inv_def) (simp add: in_i32_def)

lemma precise_granted:
  assumes "precise_inv s" and "precise_TryAcquire c s = ((t, True), s', e)"
  shows "p_inFlight s < p_limit s" and "s' = s\<lparr>p_inFlight := p_inFlight s + 1\<rparr>"
    and "releaseFunc t = Some ()" and "inFlightCount t = p_inFlight s + 1" and "precise_inv s'"
proof -
  show less: "p_inFlight s < p_limit s"
    using assms(2) by (auto simp: precise_TryAcquire_def split: if_splits)
  with assms(1) have "in_i32 (p_inFlight s + 1)"
    by (simp add: precise_inv_def in_i32_def)
  then have wrap: "i32 (p_inFlight s + 1) = p_inFlight s + 1" by (rule i32_id)
  with less assms(2) show "s' = s\<lparr>p_inFlight := p_inFlight s + 1\<rparr>"
    and "releaseFunc t = Some ()" and "inFlightCount t = p_inFlight s + 1"
    by (auto simp: precise_TryAcquire_def)
  with assms(1) \<open>in_i32 (p_inFlight s + 1)\<close> show "precise_inv s'" by (simp add: precise_inv_def)
qed

lemma precise_refused:
  assumes "precise_TryAcquire c s = ((t, False), s', e)"
  shows "p_limit s \<le> p_inFlight s" and "s' = s" and "releaseFunc t = None"
  using assms by (auto simp: precise_TryAcquire_def split: if_splits)

lemma precise_release:
  assumes "precise_inv s" and "0 < p_inFlight s"
  shows "precise_releaseHandler u s = s\<lparr>p_inFlight := p_inFlight s - 1\<rparr>"
    and "precise_inv (precise_releaseHandler u s)"
proof -
  have "in_i32 (p_inFlight s - 1)" using assms by (simp add: precise_inv_def in_i32_def)
  then show "precise_releaseHandler u s = s\<lparr>p_inFlight := p_inFlight s - 1\<rparr>"
    and "precise_inv (precise_releaseHandler u s)"
    using assms by (simp_all add: precise_releaseHandler_def precise_inv_def i32_id)
qed

interpretation precise_strategy: strategy_contract precise_ops p_inFlight
    "\<lambda>s _. p_inFlight s" precise_inv
proof unfold_locales
  fix s :: precise and c t s' e
  assume inv: "precise_inv s" and acq: "TryAcquire precise_ops c s = ((t, True), s', e)"
  then show "precise_inv s' \<and> p_inFlight s' = p_inFlight s + 1
      \<and> (\<exists>f. releaseFunc t = Some f \<and> (\<lambda>_. p_inFlight s') = (\<lambda>_. p_inFlight s)(f := p_inFlight s + 1))"
    using precise_granted [of s c t s' e] by (auto simp: precise_ops_def)
next
  fix s :: precise and c t s' e
  assume "TryAcquire precise_ops c s = ((t, False), s', e)"
  then show "s' = s \<and> releaseFunc t = None"
    using precise_refused [of c s t s' e] by (simp add: precise_ops_def)
next
  fix s :: precise and f :: unit
  assume "precise_inv s" and "0 < p_inFlight s"
  then show "precise_inv (ReleaseFunc precise_ops f s)
      \<and> p_inFlight (ReleaseFunc precise_ops f s) = p_inFlight s - 1
      \<and> (\<lambda>_. p_inFlight (ReleaseFunc precise_ops f s)) = (\<lambda>_. p_inFlight s)(f := p_inFlight s - 1)"
    using precise_release [of s f] by (auto simp: precise_ops_def)
next
  fix s :: precise and n
  assume "precise_inv s"
  then show "precise_inv (SetLimit precise_ops n s) \<and> p_inFlight (SetLimit precise_ops n s) = p_inFlight s
      \<and> (\<lambda>_. p_inFlight (SetLimit precise_ops n s)) = (\<lambda>_. p_inFlight s)"
    by (simp add: precise_ops_def precise_SetLimit_def precise_inv_def Let_def)
qed

section \<open>The limit is never exceeded\<close>

definition limits_within :: "int \<Rightarrow> strat_event list \<Rightarrow> bool" where
  "limits_within L evs \<longleftrightarrow> (\<forall>n. ESetLimit n \<in> set evs \<longrightarrow> n \<le> L)"

lemma limits_within_Cons [simp]:
  "limits_within L (ev # evs) \<longleftrightarrow> (\<forall>n. ev = ESetLimit n \<longrightarrow> n \<le> L) \<and> limits_within L evs"
  by (auto simp: limits_within_def)

lemma i32_clamp_le: "n \<le> L \<Longrightarrow> 1 \<le> L \<Longrightarrow> L < 2 ^ 31 \<Longrightarrow> i32 (if n < 1 then 1 else n) \<le> L"
  by (simp add: i32_def)

lemma precise_step_within:
  assumes inv: "precise_inv s" and le: "p_inFlight s \<le> L" "p_limit s \<le> L"
    and L: "1 \<le> L" "L < 2 ^ 31" and ev: "\<And>n. ev = ESetLimit n \<Longrightarrow> n \<le> L"
    and out: "int (length out) = p_inFlight s"
    and step: "strat_step precise_ops (s, out) ev = (s', out')"
  shows "p_inFlight s' \<le> L \<and> p_limit s' \<le> L"
proof (cases ev)
  case (EAcquire c)
  obtain t ok s1 e where acq: "precise_TryAcquire c s = ((t, ok), s1, e)" by (metis prod.exhaust)
  with step EAcquire have s1: "s' = s1" by (simp add: precise_ops_def)
  show ?thesis
  proof (cases ok)
    case True
    then show ?thesis using precise_granted [OF inv, of c t s1 e] acq s1 le by simp
  next
    case False
    then show ?thesis using precise_refused [of c s t s1 e] acq s1 le by simp
  qed
next
  case (ERelease i)
  show ?thesis
  proof (cases "i < length out")
    case True
    then have "0 < p_inFlight s" using out by linarith
    then have "s' = s\<lparr>p_inFlight := p_inFlight s - 1\<rparr>"
      using step ERelease True by (auto simp: precise_ops_def precise_release(1) [OF inv])
    then show ?thesis using le by simp
  next
    case False
    then show ?thesis using step ERelease le by simp
  qed
next
  case (ESetLimit n)
  then show ?thesis using step le i32_clamp_le [OF ev L] by (auto simp: precise_ops_def precise_SetLimit_def Let_def)
qed

lemma precise_run_within:
  assumes "precise_strategy.balanced (s, out)" and "length out + length evs < 2 ^ 31"
    and "p_inFlight s \<le> L" and "p_limit s \<le> L" and "1 \<le> L" and "L < 2 ^ 31"
    and "limits_within L evs" and "strat_run precise_ops (s, out) evs = (s', out')"
  shows "int (length out') \<le> L"
  using assms
proof (induction evs arbitrary: s out)
  case Nil
  then show ?case by (simp add: strat_run_def precise_strategy.balanced_def)
next
  case (Cons ev evs)
  obtain s1 out1 where step: "strat_step precise_ops (s, out) ev = (s1, out1)" by (metis prod.exhaust)
  have "precise_strategy.balanced (s1, out1)"
    using precise_strategy.balanced_step [of s out ev] Cons.prems(1,2) step by simp
  moreover have "length out1 + length evs < 2 ^ 31"
    using precise_strategy.length_strat_step [of "(s, out)" ev] Cons.prems(2) step by simp
  moreover have "p_inFlight s1 \<le> L \<and> p_limit s1 \<le> L"
    using Cons.prems step
    by (intro precise_step_within [where s = s and out = out and ev = ev and out' = out1])
       (auto simp: precise_strategy.balanced_def)
  ultimately show ?case using Cons.IH Cons.prems step by (simp add: strat_run_def)
qed

interpretation precise_strict: strict_strategy precise_ops p_inFlight "\<lambda>s _. p_inFlight s" precise_inv p_limit
  by unfold_locales
     (auto simp: precise_ops_def precise_SetLimit_def precise_TryAcquire_def precise_releaseHandler_def Let_def max_def
       split: if_splits)

section \<open>Properties\<close>

text \<open>C3: A precise strategy never has more requests in flight than the limit: after any
  history of acquisitions, releases of outstanding tokens and limit changes, in any order, the
  number of tokens handed out and not yet released is the strategy's busy count and is at most
  the largest limit configured so far, as long as the limits fit 32 bits.\<close>

theorem precise_never_exceeds_limit:
  assumes "1 \<le> L" and "L < 2 ^ 31" and "n \<le> L" and "limits_within L evs" and "length evs < 2 ^ 31"
    and "strat_run precise_ops (NewPreciseStrategy n, []) evs = (s, out)"
  shows "int (length out) \<le> L \<and> precise_GetBusyCount s = int (length out)"
proof
  have bal: "precise_strategy.balanced (NewPreciseStrategy n, [])"
    by (simp add: precise_strategy.balanced_def precise_inv_New) (simp add: NewPreciseStrategy_simps)
  show "int (length out) \<le> L"
    using precise_run_within [OF bal _ _ _ assms(1,2,4,6)] assms(1,2,3,5) i32_clamp_le [of n L]
    by (simp add: NewPreciseStrategy_simps)
  show "precise_GetBusyCount s = int (length out)"
    using precise_strategy.balanced_run [OF bal, of evs] assms(5,6)
    by (simp add: precise_strategy.balanced_def precise_GetBusyCount_def)
qed

theorem precise_never_exceeds_limit_witness:
  "\<exists>s. strat_run precise_ops (NewPreciseStrategy 2, [])
       [EAcquire [], EAcquire [], EAcquire [], ESetLimit 1, EAcquire [], ERelease 0] = (s, [()])
     \<and> int (length [()]) \<le> 2 \<and> precise_GetBusyCount s = 1"
proof -
  let ?s = "\<lparr>p_inFlight = 1, p_limit = 1, p_listener = EmptyMetricSampleListener\<rparr>"
  have run: "strat_run precise_ops (NewPreciseStrategy 2, [])
       [EAcquire [], EAcquire [], EAcquire [], ESetLimit 1, EAcquire [], ERelease 0] = (?s, [()])"
    by (simp add: strat_run_def precise_ops_def NewPreciseStrategy_simps precise_TryAcquire_def
        precise_SetLimit_def precise_releaseHandler_def i32_def)
  show ?thesis
    using precise_never_exceeds_limit [of 2 2, OF _ _ _ _ _ run] run by (auto simp: limits_within_def)
qed

text \<open>Which requests a precise strategy admits: exactly those that arrive while fewer
  than \<open>limit\<close> are in flight; the token then carries the new count, and a refused
  request leaves the strategy unchanged and gets a token whose release does nothing.\<close>

theorem precise_admission:
  assumes "precise_inv s"
  shows "(if p_inFlight s < precise_GetLimit s
      then fst (precise_TryAcquire c s) = (NewAcquiredStrategyToken (p_inFlight s + 1) (), True)
        \<and> fst (snd (precise_TryAcquire c s)) = s\<lparr>p_inFlight := p_inFlight s + 1\<rparr>
      else fst (precise_TryAcquire c s) = (NewNotAcquiredStrategyToken (p_inFlight s), False)
        \<and> fst (snd (precise_TryAcquire c s)) = s)"
proof -
  have "i32 (p_inFlight s + 1) = p_inFlight s + 1" if "p_inFlight s < p_limit s"
    using that assms by (intro i32_id) (simp add: precise_inv_def in_i32_def)
  then show ?thesis by (auto simp: precise_TryAcquire_def precise_GetLimit_def)
qed

theorem precise_admission_witness:
  "fst (precise_TryAcquire [] (NewPreciseStrategy 3)) = (NewAcquiredStrategyToken 1 (), True)"
  using precise_admission [OF precise_inv_New, of 3 "[]"]
  by (simp add: NewPreciseStrategy_simps precise_GetLimit_def i32_def)

text \<open>Setting a limit outside the 32-bit range does not set that limit: \<open>SetLimit\<close>
  clamps below at 1 before it converts to \<open>int32\<close>, so \<open>2 ^ 32\<close> becomes 0 and
  \<open>2 ^ 31\<close> becomes negative, and every later request is refused.\<close>

theorem precise_SetLimit_truncates:
  assumes "precise_inv s" and "n = 2 ^ 31 \<or> n = 2 ^ 32"
  shows "precise_GetLimit (precise_SetLimit n s) \<le> 0
    \<and> snd (fst (precise_TryAcquire c (precise_SetLimit n s))) = False"
proof
  show le: "precise_GetLimit (precise_SetLimit n s) \<le> 0"
    using assms(2) by (auto simp: precise_GetLimit_def precise_SetLimit_def Let_def i32_def)
  have "p_inFlight (precise_SetLimit n s) = p_inFlight s" by (simp add: precise_SetLimit_def Let_def)
  then show "snd (fst (precise_TryAcquire c (precise_SetLimit n s))) = False"
    using le assms(1) by (simp add: precise_TryAcquire_def precise_GetLimit_def precise_inv_def)
qed

theorem precise_SetLimit_truncates_witness:
  "snd (fst (precise_TryAcquire [] (precise_SetLimit (2 ^ 32) (NewPreciseStrategy 5)))) = False"
  using precise_SetLimit_truncates [OF precise_inv_New, of "2 ^ 32" 5 "[]"] by simp

end
