(* ===== verification/Strategy_Simple.thy ===== *)
theory Strategy_Simple
  imports Strategy_Precise
begin

text \<open>
  \<open>strategy/simple.go\<close>: the strategy that counts with atomic instructions and no lock. The
  first section is \<open>TryAcquire\<close> run without interference; the second interleaves any
  number of callers, each atomic load, add or store being one step, and bounds by how much
  callers racing between the check and the increment can overshoot the limit.
\<close>

record simple =
  s_inFlight :: int
  s_limit :: int
  s_listener :: sample_listener

definition NewSimpleStrategyWithMetricRegistry ::
    "int \<Rightarrow> registry \<Rightarrow> string list \<Rightarrow> (simple \<times> effect list) option" where
  "NewSimpleStrategyWithMetricRegistry limit registry tags =
     (if registry = NilRegistry then None
      else let limit = (if limit < 1 then 1 else limit);
               currentLimit = i32 limit;
               inFlight = i32 0;
               (listener, e) = RegisterDistribution registry MetricInFlight tags
           in Some (\<lparr>s_inFlight = inFlight, s_limit = currentLimit, s_listener = listener\<rparr>,
                    e @ RegisterGauge registry MetricLimit tags))"

definition NewSimpleStrategy :: "int \<Rightarrow> simple" where
  "NewSimpleStrategy limit =
     fst (the (NewSimpleStrategyWithMetricRegistry limit EmptyMetricRegistry []))"

definition simple_TryAcquire :: "ctx \<Rightarrow> simple \<Rightarrow> (unit token \<times> bool) \<times> simple \<times> effect list" where
  "simple_TryAcquire c s =
     (let inFlight = s_inFlight s in
      if inFlight \<ge> s_limit s
      then ((NewNotAcquiredStrategyToken inFlight, False), s, AddSample (s_listener s) (f64 inFlight))
      else let inFlight = i32 (s_inFlight s + 1); s' = s\<lparr>s_inFlight := inFlight\<rparr>
           in ((NewAcquiredStrategyToken inFlight (), True), s', AddSample (s_listener s) (f64 inFlight)))"

definition simple_release :: "unit \<Rightarrow> simple \<Rightarrow> simple" where
  "simple_release u s = s\<lparr>s_inFlight := i32 (s_inFlight s + (-1))\<rparr>"

definition simple_SetLimit :: "int \<Rightarrow> simple \<Rightarrow> simple" where
  "simple_SetLimit limit s =
     (let limit = (if limit < 1 then 1 else limit) in s\<lparr>s_limit := i32 limit\<rparr>)"

definition simple_GetLimit :: "simple \<Rightarrow> int" where
  "simple_GetLimit s = s_limit s"

definition simple_GetBusyCount :: "simple \<Rightarrow> int" where
  "simple_GetBusyCount s = s_inFlight s"

definition simple_ops :: "(simple, unit) strategy_ops" where
  "simple_ops = \<lparr>TryAcquire = simple_TryAcquire, ReleaseFunc = simple_release,
     SetLimit = simple_SetLimit\<rparr>"

definition NewSimpleStrategyFactory :: "int \<Rightarrow> simple" where
  "NewSimpleStrategyFactory initialLimit = NewSimpleStrategy initialLimit"

definition NewSimpleStrategyWithMetricRegistryFactory ::
    "registry \<Rightarrow> string list \<Rightarrow> int \<Rightarrow> (simple \<times> effect list) option" where
  "NewSimpleStrategyWithMetricRegistryFactory registry tags initialLimit =
     NewSimpleStrategyWithMetricRegistry initialLimit registry tags"

section \<open>Without interference: the precise strategy\<close>

definition to_precise :: "simple \<Rightarrow> precise" where
  "to_precise s = \<lparr>p_inFlight = s_inFlight s, p_limit = s_limit s, p_listener = s_listener s\<rparr>"

definition simple_inv :: "simple \<Rightarrow> bool" where
  "simple_inv s \<longleftrightarrow> precise_inv (to_precise s)"

lemma simple_sim_TryAcquire:
  "precise_TryAcquire c (to_precise s) =
     (case simple_TryAcquire c s of (r, s', e) \<Rightarrow> (r, to_precise s', e))"
  by (simp add: precise_TryAcquire_def simple_TryAcquire_def to_precise_def Let_def)

lemma simple_sim_release: "precise_releaseHandler u (to_precise s) = to_precise (simple_release u s)"
  by (simp add: precise_releaseHandler_def simple_release_def to_precise_def)

lemma simple_sim_SetLimit: "precise_SetLimit n (to_precise s) = to_precise (simple_SetLimit n s)"
  by (simp add: precise_SetLimit_def simple_SetLimit_def to_precise_def Let_def)

lemma simple_sim_New: "to_precise (NewSimpleStrategy n) = NewPreciseStrategy n"
  by (simp add: NewSimpleStrategy_def NewSimpleStrategyWithMetricRegistry_def NewPreciseStrategy_simps
      RegisterDistribution_def register_def to_precise_def i32_def)

lemma to_precise_inj: "to_precise s = to_precise s' \<longleftrightarrow> s = s'"
  by (cases s; cases s') (simp add: to_precise_def)

lemma simple_release_held:
  assumes "simple_inv s" and "0 < s_inFlight s"
  shows "simple_release u s = s\<lparr>s_inFlight := s_inFlight s - 1\<rparr>" and "simple_inv (simple_release u s)"
proof -
  have "0 < p_inFlight (to_precise s)" using assms(2) by (simp add: to_precise_def)
  with assms(1) have "to_precise (simple_release u s) = to_precise (s\<lparr>s_inFlight := s_inFlight s - 1\<rparr>)"
    and inv: "precise_inv (to_precise (simple_release u s))"
    using precise_release [of "to_precise s" u]
    by (simp_all add: simple_inv_def simple_sim_release [symmetric]) (simp add: to_precise_def)
  then show "simple_release u s = s\<lparr>s_inFlight := s_inFlight s - 1\<rparr>"
    by (simp only: to_precise_inj)
  show "simple_inv (simple_release u s)" using inv by (simp add: simple_inv_def)
qed

lemmas simple_sim = simple_sim_TryAcquire simple_sim_release simple_sim_SetLimit

interpretation simple_strategy: strategy_contract simple_ops s_inFlight
    "\<lambda>s _. s_inFlight s" simple_inv
proof unfold_locales
  fix s :: simple and c t s' e
  assume inv: "simple_inv s" and acq: "TryAcquire simple_ops c s = ((t, True), s', e)"
  then have "precise_TryAcquire c (to_precise s) = ((t, True), to_precise s', e)"
    by (simp add: simple_sim simple_ops_def)
  then show "simple_inv s' \<and> s_inFlight s' = s_inFlight s + 1
      \<and> (\<exists>f. releaseFunc t = Some f \<and> (\<lambda>_. s_inFlight s') = (\<lambda>_. s_inFlight s)(f := s_inFlight s + 1))"
    using precise_granted [of "to_precise s" c t "to_precise s'" e] inv
    by (auto simp: simple_inv_def) (simp_all add: to_precise_def fun_eq_iff)
next
  fix s :: simple and c t s' e
  assume "TryAcquire simple_ops c s = ((t, False), s', e)"
  then show "s' = s \<and> releaseFunc t = None"
    using precise_refused [of c "to_precise s" t "to_precise s'" e]
    by (simp add: simple_ops_def simple_sim to_precise_inj)
next
  fix s :: simple and f :: unit
  assume "simple_inv s" and "0 < s_inFlight s"
  then show "simple_inv (ReleaseFunc simple_ops f s)
      \<and> s_inFlight (ReleaseFunc simple_ops f s) = s_inFlight s - 1
      \<and> (\<lambda>_. s_inFlight (ReleaseFunc simple_ops f s)) = (\<lambda>_. s_inFlight s)(f := s_inFlight s - 1)"
    using simple_release_held [of s f] by (auto simp: simple_ops_def)
next
  fix s :: simple and n
  assume "simple_inv s"
  then show "simple_inv (SetLimit simple_ops n s) \<and> s_inFlight (SetLimit simple_ops n s) = s_inFlight s
      \<and> (\<lambda>_. s_inFlight (SetLimit simple_ops n s)) = (\<lambda>_. s_inFlight s)"
    by (simp add: simple_ops_def simple_SetLimit_def simple_inv_def precise_inv_def to_precise_def Let_def)
qed

section \<open>Interleaved callers\<close>

text \<open>
  A caller inside \<open>TryAcquire\<close>: it has loaded the in-flight count, or has passed the
  comparison with the limit and is about to add. \<open>c_tokens\<close> counts the tokens handed out
  and not released; any holder may release at any time, and \<open>SetLimit\<close> may run at any time.
\<close>

datatype caller = Outside | Loaded int | Passed

record racing =
  c_inFlight :: int
  c_limit :: int
  c_tokens :: nat
  c_callers :: "caller list"

definition race_init :: "int \<Rightarrow> nat \<Rightarrow> racing" where
  "race_init limit callers =
     \<lparr>c_inFlight = 0, c_limit = s_limit (NewSimpleStrategy limit), c_tokens = 0,
      c_callers = replicate callers Outside\<rparr>"

inductive race_step :: "racing \<Rightarrow> racing \<Rightarrow> bool" where
  load_inFlight:
    "i < length (c_callers s) \<Longrightarrow> c_callers s ! i = Outside \<Longrightarrow>
     race_step s (s\<lparr>c_callers := (c_callers s)[i := Loaded (c_inFlight s)]\<rparr>)"
| check_refused:
    "i < length (c_callers s) \<Longrightarrow> c_callers s ! i = Loaded v \<Longrightarrow> v \<ge> c_limit s \<Longrightarrow>
     race_step s (s\<lparr>c_callers := (c_callers s)[i := Outside]\<rparr>)"
| check_passed:
    "i < length (c_callers s) \<Longrightarrow> c_callers s ! i = Loaded v \<Longrightarrow> \<not> v \<ge> c_limit s \<Longrightarrow>
     race_step s (s\<lparr>c_callers := (c_callers s)[i := Passed]\<rparr>)"
| add_inFlight:
    "i < length (c_callers s) \<Longrightarrow> c_callers s ! i = Passed \<Longrightarrow>
     race_step s (s\<lparr>c_inFlight := i32 (c_inFlight s + 1), c_tokens := Suc (c_tokens s),
        c_callers := (c_callers s)[i := Outside]\<rparr>)"
| release:
    "0 < c_tokens s \<Longrightarrow>
     race_step s (s\<lparr>c_inFlight := i32 (c_inFlight s + (-1)), c_tokens := c_tokens s - 1\<rparr>)"
| setLimit:
    "race_step s (s\<lparr>c_limit := s_limit (simple_SetLimit n (NewSimpleStrategy 1))\<rparr>)"

inductive race_reachable :: "int \<Rightarrow> int \<Rightarrow> nat \<Rightarrow> racing \<Rightarrow> bool" for L n callers where
  start: "race_reachable L n callers (race_init n callers)"
| step: "race_reachable L n callers s \<Longrightarrow> race_step s s' \<Longrightarrow> c_limit s' \<le> L \<Longrightarrow>
    race_reachable L n callers s'"

fun pending :: "int \<Rightarrow> caller \<Rightarrow> bool" where
  "pending L Outside = False"
| "pending L (Loaded v) = (v < L)"
| "pending L Passed = True"

definition race_inv :: "int \<Rightarrow> nat \<Rightarrow> racing \<Rightarrow> bool" where
  "race_inv L N s \<longleftrightarrow> length (c_callers s) = N \<and> c_limit s \<le> L
     \<and> c_inFlight s = int (c_tokens s)
     \<and> c_inFlight s + int (length (filter (pending L) (c_callers s))) \<le> L - 1 + int N"

lemma pending_update:
  "i < length (c_callers s) \<Longrightarrow>
     int (length (filter (pending L) ((c_callers s)[i := x]))) =
     int (length (filter (pending L) (c_callers s)))
       + (if pending L x then 1 else 0) - (if pending L (c_callers s ! i) then 1 else 0)"
  using length_filter_update [of i "c_callers s" "pending L" x] by (auto split: if_splits)

lemma race_inv_init: "n \<le> L \<Longrightarrow> 1 \<le> L \<Longrightarrow> L < 2 ^ 31 \<Longrightarrow> race_inv L N (race_init n N)"
  using i32_clamp_le [of n L]
  by (simp add: race_inv_def race_init_def NewSimpleStrategy_def NewSimpleStrategyWithMetricRegistry_def
      RegisterDistribution_def register_def Let_def)

lemma race_inv_step:
  assumes "race_step s s'" and "race_inv L N s" and "c_limit s' \<le> L" and "L + int N \<le> 2 ^ 31"
  shows "race_inv L N s'"
  using assms(1)
proof (cases rule: race_step.cases)
  case (load_inFlight i)
  have "int (length (filter (pending L) ((c_callers s)[i := Loaded (c_inFlight s)]))) \<le> int N"
    using assms(2) length_filter_le [of "pending L" "(c_callers s)[i := Loaded (c_inFlight s)]"]
    by (simp add: race_inv_def)
  with load_inFlight assms(2) show ?thesis
    by (auto simp: race_inv_def pending_update)
next
  case (check_refused i v)
  with assms(2) show ?thesis by (auto simp: race_inv_def pending_update)
next
  case (check_passed i v)
  with assms(2) show ?thesis by (auto simp: race_inv_def pending_update)
next
  case (add_inFlight i)
  have "filter (pending L) (c_callers s) \<noteq> []"
    using add_inFlight by (auto simp: filter_empty_conv) (metis nth_mem pending.simps(3))
  then have "1 \<le> int (length (filter (pending L) (c_callers s)))"
    by (metis One_nat_def Suc_leI length_greater_0_conv of_nat_1 of_nat_le_iff)
  then have "in_i32 (c_inFlight s + 1)"
    using assms(2,4) by (simp add: race_inv_def in_i32_def)
  then have "i32 (c_inFlight s + 1) = c_inFlight s + 1" by (rule i32_id)
  with add_inFlight assms(2) show ?thesis by (auto simp: race_inv_def pending_update)
next
  case release
  have "0 \<le> int (length (filter (pending L) (c_callers s)))" by simp
  then have "in_i32 (c_inFlight s + (-1))"
    using release assms(2,4) by (simp add: race_inv_def in_i32_def)
  then have "i32 (c_inFlight s + (-1)) = c_inFlight s + (-1)" by (rule i32_id)
  with release assms(2) show ?thesis by (auto simp: race_inv_def)
next
  case (setLimit n)
  with assms show ?thesis by (auto simp: race_inv_def)
qed

lemma race_reachable_inv:
  assumes "race_reachable L n N s" and "n \<le> L" and "1 \<le> L" and "L + int N \<le> 2 ^ 31" and "L < 2 ^ 31"
  shows "race_inv L N s"
  using assms(1)
  by (induction rule: race_reachable.induct) (use assms race_inv_init race_inv_step in blast)+

interpretation simple_strict: strict_strategy simple_ops s_inFlight "\<lambda>s _. s_inFlight s" simple_inv s_limit
  by unfold_locales
     (auto simp: simple_ops_def simple_SetLimit_def simple_TryAcquire_def simple_release_def Let_def max_def
       split: if_splits)

section \<open>Properties\<close>

text \<open>C32: Without interference the simple strategy is the precise one: under the
  correspondence of their counters, \<open>TryAcquire\<close> grants the same requests with equal tokens
  and equal metric samples, and release, \<open>SetLimit\<close> and the constructor agree.\<close>

theorem simple_refines_precise:
  "(case simple_TryAcquire c s of (r, s', e) \<Rightarrow> (r, to_precise s', e)) = precise_TryAcquire c (to_precise s)
   \<and> to_precise (simple_release u s) = precise_releaseHandler u (to_precise s)
   \<and> to_precise (simple_SetLimit n s) = precise_SetLimit n (to_precise s)
   \<and> to_precise (NewSimpleStrategy n) = NewPreciseStrategy n"
  by (simp only: simple_sim simple_sim_New)

text \<open>C33: The simple strategy under concurrency: when each atomic load, add and store is a step of its own, at most \<open>N\<close> callers are
  inside \<open>TryAcquire\<close> at a time, no limit set is above \<open>L\<close> (at least 1) and \<open>L + N\<close> is at most \<open>2 ^ 31\<close>, then in every reachable interleaving with
  releases and \<open>SetLimit\<close> the in-flight counter is the number of tokens out, and it is at most \<open>L + N - 1\<close>: callers racing between the
  check and the increment overshoot the limit by less than \<open>N\<close>.\<close>

theorem simple_overshoot_bounded:
  assumes "race_reachable L n N s" and "n \<le> L" and "1 \<le> L" and "1 \<le> N" and "L + int N \<le> 2 ^ 31"
  shows "c_inFlight s = int (c_tokens s) \<and> c_inFlight s \<le> L - 1 + int N"
proof -
  have "race_inv L N s" using assms by (intro race_reachable_inv [of L n]) simp_all
  moreover have "0 \<le> int (length (filter (pending L) (c_callers s)))" by simp
  ultimately show ?thesis by (simp add: race_inv_def)
qed

text \<open>Two callers race for the last slot and both get it.\<close>

lemma race_overshoot_reachable:
  "race_reachable 1 1 2
     \<lparr>c_inFlight = 2, c_limit = 1, c_tokens = 2, c_callers = [Outside, Outside]\<rparr>"
proof -
  let ?s = "\<lambda>f t cs. \<lparr>c_inFlight = f, c_limit = 1, c_tokens = t, c_callers = cs\<rparr>"
  have 0: "race_reachable 1 1 2 (?s 0 0 [Outside, Outside])"
    using race_reachable.start [of 1 1 2]
    by (simp add: race_init_def NewSimpleStrategy_def NewSimpleStrategyWithMetricRegistry_def
        RegisterDistribution_def register_def i32_def numeral_2_eq_2)
  have 1: "race_reachable 1 1 2 (?s 0 0 [Loaded 0, Outside])"
    using race_reachable.step [OF 0 race_step.load_inFlight [of 0]] by simp
  have 2: "race_reachable 1 1 2 (?s 0 0 [Loaded 0, Loaded 0])"
    using race_reachable.step [OF 1 race_step.load_inFlight [of 1]] by simp
  have 3: "race_reachable 1 1 2 (?s 0 0 [Passed, Loaded 0])"
    using race_reachable.step [OF 2 race_step.check_passed [of 0]] by simp
  have 4: "race_reachable 1 1 2 (?s 0 0 [Passed, Passed])"
    using race_reachable.step [OF 3 race_step.check_passed [of 1]] by simp
  have 5: "race_reachable 1 1 2 (?s 1 1 [Outside, Passed])"
    using race_reachable.step [OF 4 race_step.add_inFlight [of 0]] by (simp add: i32_def)
  show ?thesis
    using race_reachable.step [OF 5 race_step.add_inFlight [of 1]] by (simp add: i32_def numeral_2_eq_2)
qed

theorem simple_overshoot_bounded_witness:
  "race_reachable 1 1 2
     \<lparr>c_inFlight = 2, c_limit = 1, c_tokens = 2, c_callers = [Outside, Outside]\<rparr>
   \<and> (2::int) \<le> 1 - 1 + int 2"
  using race_overshoot_reachable simple_overshoot_bounded [OF race_overshoot_reachable] by simp

text \<open>The trade-off that \<open>precise.go\<close> describes is real: the simple strategy, unlike the
  precise one, can have more requests in flight than its limit.\<close>

theorem simple_can_exceed_limit:
  "\<exists>s. race_reachable 1 1 2 s \<and> c_limit s < c_inFlight s \<and> c_limit s < int (c_tokens s)"
  using race_overshoot_reachable by (intro exI conjI) auto

end
