(* ===== verification/Partition.thy ===== *)
theory Partition
  imports Core "HOL-Library.Multiset"
begin

text \<open>
  The partitions of the two partitioned strategies (\<open>LookupPartition\<close> of
  \<open>strategy/lookup_partition.go\<close>, \<open>PredicatePartition\<close> of \<open>strategy/predicate_partition.go\<close>),
  which differ in one field. Strategies share partitions through pointers (a partition may be
  added to several strategies, and a token keeps the partition it came from after it has been
  removed), so partitions live in a store indexed by addresses. Every operation on a
  partition runs under the strategy's lock.
\<close>

record partition =
  pt_name :: string
  pt_percent :: float64
  pt_listener :: sample_listener
  pt_limit :: int
  pt_busy :: int

definition PartitionTagName :: string where
  "PartitionTagName = ''partition''"

definition partition_tag :: "string \<Rightarrow> string" where
  "partition_tag n = PartitionTagName @ '':'' @ n"

definition NewLookupPartitionWithMetricRegistry ::
    "string \<Rightarrow> float64 \<Rightarrow> int \<Rightarrow> registry \<Rightarrow> (partition \<times> effect list) option" where
  "NewLookupPartitionWithMetricRegistry n pct lmt registry =
     (if registry = NilRegistry then None
      else let pLimit = i32 lmt;
               pLimit = (if pLimit < 1 then 1 else pLimit);
               (sampleListener, e) = RegisterDistribution registry MetricInFlight [partition_tag n];
               g = RegisterGauge registry MetricPartitionLimit [partition_tag n]
           in Some (\<lparr>pt_name = n, pt_percent = pct, pt_listener = sampleListener,
                     pt_limit = pLimit, pt_busy = 0\<rparr>, e @ g))"

definition part_BusyCount :: "'a partition_scheme \<Rightarrow> int" where
  "part_BusyCount p = pt_busy p"

definition part_Limit :: "'a partition_scheme \<Rightarrow> int" where
  "part_Limit p = pt_limit p"

definition part_UpdateLimit :: "int \<Rightarrow> 'a partition_scheme \<Rightarrow> 'a partition_scheme" where
  "part_UpdateLimit totalLimit p =
     p\<lparr>pt_limit := f2i32 (fmax (lit 1) (fceil (fmul (f64 totalLimit) (pt_percent p))))\<rparr>"

definition part_IsLimitExceeded :: "'a partition_scheme \<Rightarrow> bool" where
  "part_IsLimitExceeded p \<longleftrightarrow> pt_busy p \<ge> pt_limit p"

definition part_Acquire :: "'a partition_scheme \<Rightarrow> 'a partition_scheme \<times> effect list" where
  "part_Acquire p =
     (let p' = p\<lparr>pt_busy := i32 (pt_busy p + 1)\<rparr> in (p', AddSample (pt_listener p') (f64 (pt_busy p'))))"

definition part_Release :: "'a partition_scheme \<Rightarrow> 'a partition_scheme" where
  "part_Release p = p\<lparr>pt_busy := i32 (pt_busy p - 1)\<rparr>"

definition part_Name :: "'a partition_scheme \<Rightarrow> string" where
  "part_Name p = pt_name p"

definition part_Percent :: "'a partition_scheme \<Rightarrow> float64" where
  "part_Percent p = pt_percent p"

section \<open>A partition's share of the limit\<close>

lemma part_UpdateLimit_share:
  assumes "1 \<le> cnt" and "cnt < 2 ^ 31" and "pt_percent p = Fin x" and "0 \<le> x" and "x \<le> 1"
  shows "pt_limit (part_UpdateLimit cnt p) = max 1 \<lceil>rnd (of_int cnt * x)\<rceil>"
    and "rnd (of_int cnt * x) \<le> of_int cnt"
    and "of_int \<lfloor>of_int cnt * x\<rfloor> \<le> rnd (of_int cnt * x)"
proof -
  have tot: "representable (of_int cnt)" using assms by (intro representable_of_int) simp
  have le: "of_int cnt * x \<le> of_int cnt" using assms by (simp add: mult_left_le)
  show up: "rnd (of_int cnt * x) \<le> of_int cnt" using tot le by (rule rnd_le)
  have fl: "\<lfloor>of_int cnt * x\<rfloor> \<le> cnt"
    using floor_mono [OF le] by simp
  moreover have "0 \<le> \<lfloor>of_int cnt * x\<rfloor>" using assms by simp
  ultimately have "\<bar>\<lfloor>of_int cnt * x\<rfloor>\<bar> \<le> cnt" by linarith
  also have "cnt \<le> 2 ^ 53" using assms(2) by simp
  finally have "representable (of_int \<lfloor>of_int cnt * x\<rfloor>)" by (rule representable_of_int)
  then show "of_int \<lfloor>of_int cnt * x\<rfloor> \<le> rnd (of_int cnt * x)" by (intro rnd_ge) simp_all
  have nonneg: "0 \<le> rnd (of_int cnt * x)" using assms by (intro rnd_nonneg) simp
  have "of_int cnt \<le> (2::real) ^ 31"
    using assms(2) by (metis less_imp_le of_int_le_iff of_int_numeral of_int_power)
  with le have "of_int cnt * x \<le> 2 ^ 31" by (rule order_trans)
  then have mk: "mk (of_int cnt * x) = Fin (rnd (of_int cnt * x))"
    using assms by (intro mk_le_pow2 [of _ 31]) simp_all
  have "f64 cnt = Fin (of_int cnt)" using assms by (intro f64_exact) simp
  then have upd: "pt_limit (part_UpdateLimit cnt p) = f2i32 (Fin (max 1 (of_int \<lceil>rnd (of_int cnt * x)\<rceil>)))"
    using assms(3) mk by (simp add: part_UpdateLimit_def)
  define c where "c = \<lceil>rnd (of_int cnt * x)\<rceil>"
  have "c \<le> cnt" using up by (simp add: c_def ceiling_le_iff)
  then have "in_i32 (max 1 c)" using assms(1,2) by (simp add: in_i32_def)
  then have "f2i32 (Fin (of_int (max 1 c))) = max 1 c" by (rule f2i32_of_int)
  then show "pt_limit (part_UpdateLimit cnt p) = max 1 \<lceil>rnd (of_int cnt * x)\<rceil>"
    using upd by (simp only: c_def of_int_max of_int_1)
qed

lemma part_UpdateLimit_fields [simp]:
  "pt_name (part_UpdateLimit n p) = pt_name p" "pt_percent (part_UpdateLimit n p) = pt_percent p"
  "pt_busy (part_UpdateLimit n p) = pt_busy p"
  "pt_listener (part_UpdateLimit n p) = pt_listener p"
  by (simp_all add: part_UpdateLimit_def)

section \<open>Counting tokens across partitions\<close>

text \<open>
  The outstanding tokens as a multiset of partition addresses: the strategy's counter is
  its size, a partition's counter the multiplicity of its address.
\<close>

definition tokens_match :: "int \<Rightarrow> (nat \<Rightarrow> 'a partition_scheme) \<Rightarrow> nat multiset \<Rightarrow> bool" where
  "tokens_match cnt store M \<longleftrightarrow>
     cnt = int (size M) \<and> (\<forall>r. pt_busy (store r) = int (count M r))"

lemma count_le_size: "count M x \<le> size M"
  by (induction M) auto

lemma tokens_match_range:
  "tokens_match cnt store M \<Longrightarrow> 0 \<le> pt_busy (store r) \<and> pt_busy (store r) \<le> cnt \<and> 0 \<le> cnt"
  by (simp add: tokens_match_def count_le_size)

lemma tokens_match_acquire:
  assumes "tokens_match cnt store M" and "cnt < 2 ^ 31 - 1"
  shows "i32 (cnt + 1) = cnt + 1" and "pt_busy (fst (part_Acquire (store r))) = pt_busy (store r) + 1"
    and "tokens_match (cnt + 1) (store(r := fst (part_Acquire (store r)))) (add_mset r M)"
proof -
  note range = tokens_match_range [OF assms(1), of r]
  show "i32 (cnt + 1) = cnt + 1" using range assms(2) by (intro i32_id) (simp add: in_i32_def)
  have "i32 (pt_busy (store r) + 1) = pt_busy (store r) + 1"
    using range assms(2) by (intro i32_id) (simp add: in_i32_def)
  then show b: "pt_busy (fst (part_Acquire (store r))) = pt_busy (store r) + 1"
    by (simp add: part_Acquire_def Let_def)
  with assms(1) show "tokens_match (cnt + 1) (store(r := fst (part_Acquire (store r)))) (add_mset r M)"
    by (simp add: tokens_match_def)
qed

lemma tokens_match_release:
  assumes "tokens_match cnt store M" and "cnt < 2 ^ 31" and "0 < pt_busy (store r)"
  shows "i32 (cnt - 1) = cnt - 1" and "pt_busy (part_Release (store r)) = pt_busy (store r) - 1"
    and "tokens_match (cnt - 1) (store(r := part_Release (store r))) (M - {#r#})"
proof -
  note range = tokens_match_range [OF assms(1), of r]
  show "i32 (cnt - 1) = cnt - 1" using range assms(2,3) by (intro i32_id) (simp add: in_i32_def)
  have "i32 (pt_busy (store r) - 1) = pt_busy (store r) - 1"
    using range assms(2,3) by (intro i32_id) (simp add: in_i32_def)
  then show b: "pt_busy (part_Release (store r)) = pt_busy (store r) - 1" by (simp add: part_Release_def)
  have "0 < count M r" using assms(1,3) by (simp add: tokens_match_def)
  then have "r \<in># M" by simp
  then obtain M' where M: "M = add_mset r M'" by (blast dest: multi_member_split)
  have "pt_busy ((store(r := part_Release (store r))) x) = int (count M' x)" for x
    using assms(1) b by (simp add: tokens_match_def M)
  moreover have "cnt - 1 = int (size M')" using assms(1) by (simp add: tokens_match_def M)
  ultimately show "tokens_match (cnt - 1) (store(r := part_Release (store r))) (M - {#r#})"
    by (simp add: tokens_match_def M)
qed

end
