(* ===== verification/Strategy_Lookup.thy ===== *)
theory Strategy_Lookup
  imports Partition
begin

text \<open>
  \<open>strategy/lookup_partition.go\<close> and the lookup function of \<open>strategy/matchers/string.go\<close>: the
  strategy that maps a request to a named partition. The map of partitions is an association
  list with distinct names, listed in the order Go iterates it (that order is
  unspecified, and it matters only for the floating-point sum in the constructor).
\<close>

section \<open>Matchers\<close>

definition StringPredicateContextKey :: ctx_key where
  "StringPredicateContextKey = StrategyKey ''stringPredicate''"

definition LookupPartitionContextKey :: ctx_key where
  "LookupPartitionContextKey = StrategyKey ''stringLookup''"

definition strategyContextKey_String :: "string \<Rightarrow> string" where
  "strategyContextKey_String c = ''go-concurrency-limits|strategy|'' @ c"

text \<open>\<open>strings.EqualFold\<close> on ASCII text: letters compare without case.\<close>

definition fold_char :: "char \<Rightarrow> char" where
  "fold_char c = (let n = of_char c :: nat in if 65 \<le> n \<and> n \<le> 90 then char_of (n + 32) else c)"

definition EqualFold :: "string \<Rightarrow> string \<Rightarrow> bool" where
  "EqualFold s t \<longleftrightarrow> map fold_char s = map fold_char t"

definition StringPredicateMatcher :: "string \<Rightarrow> bool \<Rightarrow> ctx \<Rightarrow> bool" where
  "StringPredicateMatcher matchString caseInsensitive c =
     (case Value c StringPredicateContextKey of
        Some (StringValue strVal) \<Rightarrow>
          (if caseInsensitive then EqualFold strVal matchString else strVal = matchString)
      | _ \<Rightarrow> False)"

definition DefaultStringLookupFunc :: "ctx \<Rightarrow> string" where
  "DefaultStringLookupFunc c =
     (case Value c LookupPartitionContextKey of Some (StringValue strVal) \<Rightarrow> strVal | _ \<Rightarrow> '''')"

section \<open>The strategy\<close>

record lookup =
  lk_partitions :: "(string \<times> nat) list"
  lk_unknown :: nat
  lk_lookupFunc :: "ctx \<Rightarrow> string"
  lk_busy :: int
  lk_limit :: int
  lk_store :: "nat \<Rightarrow> partition"

datatype partition_error = NoPartitions | SumOfPercentages | InvalidGroup string | InvalidBin int

text \<open>
  The loop over the partitions adds up the percentages and updates every limit on the way,
  also when the constructor then fails. \<open>lookupFunc = None\<close> is a nil function; \<open>unknown\<close> is
  the address at which the partition for unknown groups is allocated.
\<close>

definition sum_percent :: "(nat \<Rightarrow> 'a partition_scheme) \<Rightarrow> nat list \<Rightarrow> float64" where
  "sum_percent store refs = foldl (\<lambda>acc r. fadd acc (part_Percent (store r))) (f64 0) refs"

definition update_all :: "int \<Rightarrow> nat list \<Rightarrow> (nat \<Rightarrow> 'a partition_scheme) \<Rightarrow> nat \<Rightarrow> 'a partition_scheme" where
  "update_all lmt refs store = foldl (\<lambda>st r. st(r := part_UpdateLimit lmt (st r))) store refs"

definition NewLookupPartitionStrategyWithMetricRegistry ::
    "(string \<times> nat) list \<Rightarrow> (ctx \<Rightarrow> string) option \<Rightarrow> int \<Rightarrow> registry \<Rightarrow> nat \<Rightarrow> (nat \<Rightarrow> partition)
     \<Rightarrow> (nat \<Rightarrow> partition) \<times> (partition_error + (lookup \<times> effect list) option)" where
  "NewLookupPartitionStrategyWithMetricRegistry partitions lookupFunc lmt registry unknown store =
     (if partitions = [] then (store, Inl NoPartitions)
      else let store' = update_all lmt (map snd partitions) store in
        if fless (lit 1) (sum_percent store (map snd partitions)) then (store', Inl SumOfPercentages)
        else (store',
          Inr (case NewLookupPartitionWithMetricRegistry ''<unknown>'' (lit 0) lmt registry of
                 None \<Rightarrow> None
               | Some (p, e) \<Rightarrow> Some
                   (\<lparr>lk_partitions = partitions, lk_unknown = unknown,
                     lk_lookupFunc = (case lookupFunc of None \<Rightarrow> DefaultStringLookupFunc | Some f \<Rightarrow> f),
                     lk_busy = 0, lk_limit = lmt, lk_store = store'(unknown := p)\<rparr>,
                    e @ RegisterGauge registry MetricLimit []))))"

definition lookup_AddPartition :: "string \<Rightarrow> nat \<Rightarrow> lookup \<Rightarrow> bool \<times> lookup" where
  "lookup_AddPartition n r s =
     (case map_of (lk_partitions s) n of
        Some _ \<Rightarrow> (False, s)
      | None \<Rightarrow> (True, s\<lparr>lk_partitions := (n, r) # lk_partitions s\<rparr>))"

definition lookup_RemovePartition :: "string \<Rightarrow> lookup \<Rightarrow> (int \<times> bool) \<times> lookup" where
  "lookup_RemovePartition n s =
     (case map_of (lk_partitions s) n of
        None \<Rightarrow> ((0, False), s)
      | Some r \<Rightarrow> ((part_BusyCount (lk_store s r), True),
                   s\<lparr>lk_partitions := filter (\<lambda>(m, _). m \<noteq> n) (lk_partitions s)\<rparr>))"

definition lookup_target :: "ctx \<Rightarrow> lookup \<Rightarrow> nat" where
  "lookup_target c s =
     (case map_of (lk_partitions s) (lk_lookupFunc s c) of Some r \<Rightarrow> r | None \<Rightarrow> lk_unknown s)"

definition lookup_TryAcquire :: "ctx \<Rightarrow> lookup \<Rightarrow> (nat token \<times> bool) \<times> lookup \<times> effect list" where
  "lookup_TryAcquire c s =
     (let r = lookup_target c s; p = lk_store s r in
      if lk_busy s \<ge> lk_limit s \<and> part_IsLimitExceeded p
      then ((NewNotAcquiredStrategyToken (lk_busy s), False), s, [])
      else let (p', e) = part_Acquire p;
               s' = s\<lparr>lk_busy := i32 (lk_busy s + 1), lk_store := (lk_store s)(r := p')\<rparr>
           in ((NewAcquiredStrategyToken (lk_busy s') r, True), s', e))"

definition lookup_releasePartition :: "nat \<Rightarrow> lookup \<Rightarrow> lookup" where
  "lookup_releasePartition r s =
     s\<lparr>lk_busy := i32 (lk_busy s - 1), lk_store := (lk_store s)(r := part_Release (lk_store s r))\<rparr>"

definition lookup_SetLimit :: "int \<Rightarrow> lookup \<Rightarrow> lookup" where
  "lookup_SetLimit lmt s =
     (let lmt = (if lmt < 1 then 1 else lmt) in
      if lk_limit s \<noteq> i32 lmt
      then s\<lparr>lk_limit := i32 lmt,
             lk_store := update_all (i32 lmt) (map snd (lk_partitions s)) (lk_store s)\<rparr>
      else s)"

definition lookup_BusyCount :: "lookup \<Rightarrow> int" where
  "lookup_BusyCount s = lk_busy s"

definition lookup_Limit :: "lookup \<Rightarrow> int" where
  "lookup_Limit s = lk_limit s"

definition lookup_BinBusyCount :: "string \<Rightarrow> lookup \<Rightarrow> partition_error + int" where
  "lookup_BinBusyCount key s =
     (case map_of (lk_partitions s) key of
        None \<Rightarrow> Inl (InvalidGroup key) | Some r \<Rightarrow> Inr (part_BusyCount (lk_store s r)))"

definition lookup_BinLimit :: "string \<Rightarrow> lookup \<Rightarrow> partition_error + int" where
  "lookup_BinLimit key s =
     (case map_of (lk_partitions s) key of
        None \<Rightarrow> Inl (InvalidGroup key) | Some r \<Rightarrow> Inr (part_Limit (lk_store s r)))"

definition lookup_ops :: "(lookup, nat) strategy_ops" where
  "lookup_ops = \<lparr>TryAcquire = lookup_TryAcquire, ReleaseFunc = lookup_releasePartition,
     SetLimit = lookup_SetLimit\<rparr>"

section \<open>The contract\<close>

definition lookup_inv :: "lookup \<Rightarrow> bool" where
  "lookup_inv s \<longleftrightarrow> lk_busy s < 2 ^ 31 \<and> (\<exists>M. tokens_match (lk_busy s) (lk_store s) M)"

lemma update_all_busy [simp]: "pt_busy (update_all n refs store r) = pt_busy (store r)"
  by (induction refs arbitrary: store) (auto simp: update_all_def)

lemma tokens_match_update_all:
  "tokens_match cnt (update_all n refs store) = tokens_match cnt store"
  by (simp add: tokens_match_def fun_eq_iff)

lemma lookup_granted:
  assumes "lookup_inv s" and "lk_busy s < 2 ^ 31 - 1" and "lookup_TryAcquire c s = ((t, True), s', e)"
  defines "r \<equiv> lookup_target c s"
  shows "lk_busy s' = lk_busy s + 1" and "releaseFunc t = Some r" and "lookup_inv s'"
    and "(\<lambda>x. pt_busy (lk_store s' x)) = (\<lambda>x. pt_busy (lk_store s x))(r := pt_busy (lk_store s r) + 1)"
    and "lk_store s' = (lk_store s)(r := fst (part_Acquire (lk_store s r)))" and "lk_limit s' = lk_limit s"
    and "lk_busy s < lk_limit s \<or> pt_busy (lk_store s r) < pt_limit (lk_store s r)"
proof -
  obtain M where M: "tokens_match (lk_busy s) (lk_store s) M" using assms(1) by (auto simp: lookup_inv_def)
  note acq = tokens_match_acquire(1) [OF M assms(2)] tokens_match_acquire(2,3) [OF M assms(2), of r]
  have s': "s' = s\<lparr>lk_busy := lk_busy s + 1,
      lk_store := (lk_store s)(r := fst (part_Acquire (lk_store s r)))\<rparr>"
    and t: "t = NewAcquiredStrategyToken (lk_busy s + 1) r"
    and open_: "\<not> (lk_busy s \<ge> lk_limit s \<and> part_IsLimitExceeded (lk_store s r))"
    using assms(3) acq(1)
    by (auto simp: lookup_TryAcquire_def Let_def r_def split: if_splits prod.splits)
  show "lk_busy s' = lk_busy s + 1" and "lk_limit s' = lk_limit s"
    and "lk_store s' = (lk_store s)(r := fst (part_Acquire (lk_store s r)))"
    by (simp_all add: s')
  show "releaseFunc t = Some r" by (simp add: t)
  show "lookup_inv s'" using acq(3) assms(2) by (auto simp: lookup_inv_def s')
  show "(\<lambda>x. pt_busy (lk_store s' x)) = (\<lambda>x. pt_busy (lk_store s x))(r := pt_busy (lk_store s r) + 1)"
    using acq(2) by (auto simp: s')
  show "lk_busy s < lk_limit s \<or> pt_busy (lk_store s r) < pt_limit (lk_store s r)"
    using open_ by (auto simp: part_IsLimitExceeded_def)
qed

lemma lookup_refused:
  assumes "lookup_TryAcquire c s = ((t, False), s', e)"
  shows "s' = s" and "releaseFunc t = None"
  using assms by (auto simp: lookup_TryAcquire_def Let_def split: if_splits prod.splits)

lemma lookup_release:
  assumes "lookup_inv s" and "0 < pt_busy (lk_store s r)"
  shows "lk_busy (lookup_releasePartition r s) = lk_busy s - 1"
    and "lookup_inv (lookup_releasePartition r s)"
    and "(\<lambda>x. pt_busy (lk_store (lookup_releasePartition r s) x))
       = (\<lambda>x. pt_busy (lk_store s x))(r := pt_busy (lk_store s r) - 1)"
proof -
  obtain M where M: "tokens_match (lk_busy s) (lk_store s) M" and lt: "lk_busy s < 2 ^ 31"
    using assms(1) by (auto simp: lookup_inv_def)
  note rel = tokens_match_release [OF M lt assms(2)]
  show "lk_busy (lookup_releasePartition r s) = lk_busy s - 1"
    using rel(1) by (simp add: lookup_releasePartition_def)
  show "lookup_inv (lookup_releasePartition r s)"
    using rel(1,3) lt by (auto simp: lookup_releasePartition_def lookup_inv_def)
  show "(\<lambda>x. pt_busy (lk_store (lookup_releasePartition r s) x))
       = (\<lambda>x. pt_busy (lk_store s x))(r := pt_busy (lk_store s r) - 1)"
    using rel(2) by (auto simp: lookup_releasePartition_def)
qed

interpretation lookup_strategy: strategy_contract lookup_ops lk_busy
    "\<lambda>s r. pt_busy (lk_store s r)" lookup_inv
proof unfold_locales
  fix s :: lookup and c t s' e
  assume "lookup_inv s" and "lk_busy s < 2 ^ 31 - 1" and "TryAcquire lookup_ops c s = ((t, True), s', e)"
  then show "lookup_inv s' \<and> lk_busy s' = lk_busy s + 1
      \<and> (\<exists>f. releaseFunc t = Some f \<and> (\<lambda>r. pt_busy (lk_store s' r))
           = (\<lambda>r. pt_busy (lk_store s r))(f := pt_busy (lk_store s f) + 1))"
    using lookup_granted [of s c t s' e] by (auto simp: lookup_ops_def)
next
  fix s :: lookup and c t s' e
  assume "TryAcquire lookup_ops c s = ((t, False), s', e)"
  then show "s' = s \<and> releaseFunc t = None"
    using lookup_refused [of c s t s' e] by (simp add: lookup_ops_def)
next
  fix s :: lookup and f
  assume "lookup_inv s" and "0 < pt_busy (lk_store s f)"
  then show "lookup_inv (ReleaseFunc lookup_ops f s) \<and> lk_busy (ReleaseFunc lookup_ops f s) = lk_busy s - 1
      \<and> (\<lambda>r. pt_busy (lk_store (ReleaseFunc lookup_ops f s) r))
        = (\<lambda>r. pt_busy (lk_store s r))(f := pt_busy (lk_store s f) - 1)"
    using lookup_release [of s f] by (simp add: lookup_ops_def)
next
  fix s :: lookup and n
  assume "lookup_inv s"
  then show "lookup_inv (SetLimit lookup_ops n s) \<and> lk_busy (SetLimit lookup_ops n s) = lk_busy s
      \<and> (\<lambda>r. pt_busy (lk_store (SetLimit lookup_ops n s) r)) = (\<lambda>r. pt_busy (lk_store s r))"
    by (simp add: lookup_ops_def lookup_SetLimit_def lookup_inv_def Let_def tokens_match_update_all)
qed

text \<open>The partitions may change while tokens are outstanding: a partition keeps its counter when it is removed.\<close>

datatype lookup_management = AddNamed string nat | RemoveNamed string

fun lookup_manage :: "lookup_management \<Rightarrow> lookup \<Rightarrow> lookup" where
  "lookup_manage (AddNamed n r) s = snd (lookup_AddPartition n r s)"
| "lookup_manage (RemoveNamed n) s = snd (lookup_RemovePartition n s)"

interpretation lookup_managed: managed_strategy lookup_ops lk_busy "\<lambda>s r. pt_busy (lk_store s r)" lookup_inv lookup_manage
proof unfold_locales
  fix s :: lookup and m
  assume "lookup_inv s"
  then show "lookup_inv (lookup_manage m s) \<and> lk_busy (lookup_manage m s) = lk_busy s
      \<and> (\<lambda>r. pt_busy (lk_store (lookup_manage m s) r)) = (\<lambda>r. pt_busy (lk_store s r))"
    by (cases m) (auto simp: lookup_AddPartition_def lookup_RemovePartition_def lookup_inv_def split: option.split)
qed

section \<open>The sum of the percentages depends on the iteration order\<close>

lemma rnd_034: "rnd (17 / 50) = 6124895493223875 / 18014398509481984"
  using rnd_eqI [of "17 / 50" 54 6124895493223875] by simp

lemma rnd_056: "rnd (14 / 25) = 1261007895663739 / 2251799813685248"
  using rnd_eqI [of "14 / 25" 53 5044031582654956] by simp

lemma rnd_010: "rnd (1 / 10) = 3602879701896397 / 36028797018963968"
  using rnd_eqI [of "1 / 10" 56 7205759403792794] by simp

lemma rnd_sum1: "rnd (16212958658533787 / 18014398509481984)
    = 4053239664633447 / 4503599627370496"
  using rnd_eval [of "16212958658533787 / 18014398509481984" 53]
  by (simp add: rne_def Let_def)

lemma rnd_sum2: "rnd (36028797018963973 / 36028797018963968)
    = 4503599627370497 / 4503599627370496"
  using rnd_eval [of "36028797018963973 / 36028797018963968" 52]
  by (simp add: rne_def Let_def)

lemma rnd_sum3: "rnd (15852670688344147 / 36028797018963968)
    = 3963167672086037 / 9007199254740992"
  using rnd_eval [of "15852670688344147 / 36028797018963968" 54]
  by (simp add: rne_def Let_def)

lemma rnd_sum4: "rnd (9007199254740993 / 9007199254740992) = 1"
  using rnd_eval [of "9007199254740993 / 9007199254740992" 52]
  by (simp add: rne_def Let_def)

lemma mk_small: "\<bar>rnd x\<bar> \<le> 2 \<Longrightarrow> mk x = Fin (rnd x)"
  using pow2_le_huge [of 1] by (intro mk_Fin) simp

text \<open>Three partitions with 34, 56 and 10 percent.\<close>

definition decimal_store :: "nat \<Rightarrow> partition" where
  "decimal_store r =
     \<lparr>pt_name = '''', pt_percent = lit (if r = 0 then 34 / 100 else if r = 1 then 56 / 100 else 1 / 10),
      pt_listener = EmptyMetricSampleListener, pt_limit = 1, pt_busy = 0\<rparr>"

lemmas rnd_decimals = rnd_034 rnd_056 rnd_010
  rnd_rnd [of "17 / 50", unfolded rnd_034] rnd_rnd [of "14 / 25", unfolded rnd_056]
  rnd_rnd [of "1 / 10", unfolded rnd_010]

lemma sum_decimal_over: "fless (lit 1) (sum_percent decimal_store [0, 1, 2])"
  by (simp add: sum_percent_def part_Percent_def decimal_store_def f64_exact mk_small
      rnd_decimals rnd_sum1 rnd_sum2)

lemma sum_decimal_ok: "\<not> fless (lit 1) (sum_percent decimal_store [2, 0, 1])"
  by (simp add: sum_percent_def part_Percent_def decimal_store_def f64_exact mk_small
      rnd_decimals rnd_sum3 rnd_sum4)

section \<open>How far borrowing can go\<close>

text \<open>
  The partitions a strategy can charge: its named ones and the one for unknown groups.
  While limits stay as they are, requests beyond the total limit are covered by partitions
  that have not used up their own limit.
\<close>

definition lookup_refs :: "lookup \<Rightarrow> nat set" where
  "lookup_refs s = insert (lk_unknown s) (set (map snd (lk_partitions s)))"

definition within_share :: "partition \<Rightarrow> int" where
  "within_share p = max 0 (min (pt_busy p) (pt_limit p))"

definition lookup_covered :: "lookup \<Rightarrow> bool" where
  "lookup_covered s \<longleftrightarrow> lk_busy s \<le> max 0 (lk_limit s) + (\<Sum>r\<in>lookup_refs s. within_share (lk_store s r))"

lemma finite_lookup_refs [simp]: "finite (lookup_refs s)"
  by (simp add: lookup_refs_def)

lemma lookup_target_in_refs: "lookup_target c s \<in> lookup_refs s"
  by (auto simp: lookup_target_def lookup_refs_def split: option.splits dest!: map_of_SomeD)
     (force simp: image_iff)

lemma sum_fun_upd:
  assumes "finite A" and "r \<in> A"
  shows "(\<Sum>x\<in>A. f ((g(r := y)) x)) = (\<Sum>x\<in>A. f (g x)) + f y - (f (g r) :: int)"
proof -
  have "(\<Sum>x\<in>A. f ((g(r := y)) x)) = f y + (\<Sum>x\<in>A - {r}. f (g x))"
    using assms by (simp add: sum.remove [of A r])
  moreover have "(\<Sum>x\<in>A. f (g x)) = f (g r) + (\<Sum>x\<in>A - {r}. f (g x))"
    using assms by (rule sum.remove)
  ultimately show ?thesis by simp
qed

lemma lookup_covered_acquire:
  assumes "lookup_inv s" and "lk_busy s < 2 ^ 31 - 1" and "lookup_covered s"
    and "lookup_TryAcquire c s = ((t, True), s', e)"
  shows "lookup_covered s'"
proof -
  let ?r = "lookup_target c s" and ?W = "\<lambda>s. \<Sum>r\<in>lookup_refs s. within_share (lk_store s r)"
  note granted = lookup_granted [OF assms(1,2,4)]
  have refs: "lookup_refs s' = lookup_refs s"
    using assms(4) by (auto simp: lookup_TryAcquire_def lookup_refs_def Let_def split: if_splits prod.splits)
  have b: "pt_busy (fst (part_Acquire (lk_store s ?r))) = pt_busy (lk_store s ?r) + 1"
    and l: "pt_limit (fst (part_Acquire (lk_store s ?r))) = pt_limit (lk_store s ?r)"
    using granted(5) fun_cong [OF granted(4), of ?r] by (simp_all add: part_Acquire_def Let_def)
  have "?W s' = ?W s + within_share (fst (part_Acquire (lk_store s ?r))) - within_share (lk_store s ?r)"
    unfolding refs granted(5) by (rule sum_fun_upd) (simp_all add: lookup_target_in_refs)
  moreover have "0 \<le> ?W s" by (intro sum_nonneg) (simp add: within_share_def)
  moreover have "0 \<le> pt_busy (lk_store s ?r)"
    using assms(1) tokens_match_range by (auto simp: lookup_inv_def)
  then have "within_share (lk_store s ?r) \<le> within_share (fst (part_Acquire (lk_store s ?r)))"
    and "pt_busy (lk_store s ?r) < pt_limit (lk_store s ?r) \<Longrightarrow>
      within_share (fst (part_Acquire (lk_store s ?r))) = within_share (lk_store s ?r) + 1"
    using b l by (simp_all add: within_share_def)
  ultimately show ?thesis using granted(1,6,7) assms(3) unfolding lookup_covered_def by linarith
qed

lemma lookup_covered_release:
  assumes "lookup_inv s" and "lookup_covered s" and "0 < pt_busy (lk_store s r)"
  shows "lookup_covered (lookup_releasePartition r s)"
proof -
  let ?s = "lookup_releasePartition r s"
  let ?W = "\<lambda>s. \<Sum>r\<in>lookup_refs s. within_share (lk_store s r)"
  have refs: "lookup_refs ?s = lookup_refs s" and st: "lk_store ?s = (lk_store s)(r := part_Release (lk_store s r))"
    and lm: "lk_limit ?s = lk_limit s"
    by (simp_all add: lookup_releasePartition_def lookup_refs_def)
  have b: "pt_busy (part_Release (lk_store s r)) = pt_busy (lk_store s r) - 1"
    and l: "pt_limit (part_Release (lk_store s r)) = pt_limit (lk_store s r)"
    using fun_cong [OF lookup_release(3) [OF assms(1,3)], of r] st by (simp_all add: part_Release_def)
  have "?W s - 1 \<le> ?W ?s"
  proof (cases "r \<in> lookup_refs s")
    case True
    have "?W ?s = ?W s + within_share (part_Release (lk_store s r)) - within_share (lk_store s r)"
      unfolding refs st using True by (intro sum_fun_upd) simp_all
    then show ?thesis using b l by (auto simp: within_share_def)
  next
    case False
    then have "?W ?s = ?W s" unfolding refs st by (intro sum.cong) auto
    then show ?thesis by simp
  qed
  then show ?thesis using lookup_release(1) [OF assms(1,3)] assms(2) lm by (simp add: lookup_covered_def)
qed

lemma lookup_covered_run:
  assumes "lookup_strategy.balanced (s, out)" and "length out + length evs < 2 ^ 31"
    and "lookup_covered s" and "\<And>n. ESetLimit n \<notin> set evs"
    and "strat_run lookup_ops (s, out) evs = (s', out')"
  shows "lookup_covered s' \<and> lk_limit s' = lk_limit s \<and> lookup_refs s' = lookup_refs s
    \<and> (\<forall>r. pt_limit (lk_store s' r) = pt_limit (lk_store s r))"
  using assms
proof (induction evs arbitrary: s out)
  case Nil
  then show ?case by (simp add: strat_run_def)
next
  case (Cons ev evs)
  obtain s1 out1 where step: "strat_step lookup_ops (s, out) ev = (s1, out1)" by (metis prod.exhaust)
  have bal: "lookup_strategy.balanced (s1, out1)"
    using lookup_strategy.balanced_step [of s out ev] Cons.prems(1,2) step by simp
  have len: "length out1 + length evs < 2 ^ 31"
    using lookup_strategy.length_strat_step [of "(s, out)" ev] Cons.prems(2) step by simp
  have inv: "lookup_inv s" and b: "lk_busy s = int (length out)"
    and held: "\<And>r. pt_busy (lk_store s r) = int (count_list out r)"
    using Cons.prems(1) by (simp_all add: lookup_strategy.balanced_def)
  have one: "lookup_covered s1 \<and> lk_limit s1 = lk_limit s \<and> lookup_refs s1 = lookup_refs s
    \<and> (\<forall>r. pt_limit (lk_store s1 r) = pt_limit (lk_store s r))"
  proof (cases ev)
    case (EAcquire c)
    obtain t ok s2 e where acq: "lookup_TryAcquire c s = ((t, ok), s2, e)" by (metis prod.exhaust)
    with step EAcquire have s1: "s1 = s2" by (simp add: lookup_ops_def)
    have lt: "lk_busy s < 2 ^ 31 - 1" using b Cons.prems(2) by simp
    show ?thesis
    proof (cases ok)
      case True
      then have "lookup_covered s2" using lookup_covered_acquire [OF inv lt Cons.prems(3)] acq by simp
      then show ?thesis using acq True s1
        by (auto simp: lookup_TryAcquire_def lookup_refs_def part_Acquire_def Let_def split: if_splits prod.splits)
    next
      case False
      then show ?thesis using lookup_refused [of c s t s2 e] acq s1 Cons.prems(3) by simp
    qed
  next
    case (ERelease i)
    show ?thesis
    proof (cases "i < length out")
      case True
      then have "count_list out (out ! i) \<noteq> 0" by (simp add: count_list_0_iff)
      then have "0 < pt_busy (lk_store s (out ! i))" by (simp add: held)
      then have "lookup_covered (lookup_releasePartition (out ! i) s)"
        by (rule lookup_covered_release [OF inv Cons.prems(3)])
      then show ?thesis using step ERelease True
        by (auto simp: lookup_ops_def lookup_releasePartition_def lookup_refs_def part_Release_def)
    next
      case False
      then show ?thesis using step ERelease Cons.prems(3) by simp
    qed
  next
    case (ESetLimit n)
    then show ?thesis using Cons.prems(4) [of n] by simp
  qed
  have "strat_run lookup_ops (s1, out1) evs = (s', out')" using Cons.prems(5) step by (simp add: strat_run_def)
  then show ?case using Cons.IH [OF bal len] one Cons.prems(4) by simp
qed

interpretation lookup_limited: limited_strategy lookup_ops lk_busy "\<lambda>s r. pt_busy (lk_store s r)" lookup_inv lk_limit
  by unfold_locales
     (auto simp: lookup_ops_def lookup_SetLimit_def lookup_TryAcquire_def lookup_releasePartition_def Let_def max_def
       split: if_splits prod.splits)

section \<open>Properties\<close>

text \<open>C9: Admission by partition: a request is refused exactly when the whole strategy is at its
  limit and the request's own partition is at its share. So a partition below its share is always
  served, and any partition may borrow while the total is below the limit. A grant counts one up
  in the strategy and in that partition only, and the token releases that partition.\<close>

theorem lookup_admission:
  assumes "lookup_inv s" and "lk_busy s < 2 ^ 31 - 1"
  shows "let r = lookup_target c s; p = lk_store s r in
    (if lookup_BusyCount s < lookup_Limit s \<or> part_BusyCount p < part_Limit p
     then fst (lookup_TryAcquire c s) = (NewAcquiredStrategyToken (lookup_BusyCount s + 1) r, True)
       \<and> lookup_BusyCount (fst (snd (lookup_TryAcquire c s))) = lookup_BusyCount s + 1
       \<and> (\<lambda>x. part_BusyCount (lk_store (fst (snd (lookup_TryAcquire c s))) x))
         = (\<lambda>x. part_BusyCount (lk_store s x))(r := part_BusyCount p + 1)
     else fst (lookup_TryAcquire c s) = (NewNotAcquiredStrategyToken (lookup_BusyCount s), False)
       \<and> fst (snd (lookup_TryAcquire c s)) = s)"
proof -
  obtain M where M: "tokens_match (lk_busy s) (lk_store s) M" using assms(1) by (auto simp: lookup_inv_def)
  note acq = tokens_match_acquire(1) [OF M assms(2)]
    tokens_match_acquire(2) [OF M assms(2), of "lookup_target c s"]
  show ?thesis using acq
    by (auto simp: lookup_TryAcquire_def Let_def part_IsLimitExceeded_def part_BusyCount_def part_Limit_def
        lookup_BusyCount_def lookup_Limit_def fun_eq_iff split: prod.splits)
qed

text \<open>A fresh strategy with one named partition of 50 percent and a limit of 2.\<close>

definition half_partition :: partition where
  "half_partition = \<lparr>pt_name = ''live'', pt_percent = Fin (1 / 2),
     pt_listener = EmptyMetricSampleListener, pt_limit = 1, pt_busy = 0\<rparr>"

definition half_strategy :: lookup where
  "half_strategy = \<lparr>lk_partitions = [(''live'', 0)], lk_unknown = 1,
     lk_lookupFunc = DefaultStringLookupFunc, lk_busy = 0, lk_limit = 2,
     lk_store = (\<lambda>_. half_partition)\<rparr>"

lemma half_strategy_inv: "lookup_inv half_strategy"
  by (auto simp: lookup_inv_def half_strategy_def half_partition_def tokens_match_def intro!: exI [of _ "{#}"])

theorem lookup_admission_witness:
  "fst (lookup_TryAcquire [(LookupPartitionContextKey, StringValue ''live'')] half_strategy)
     = (NewAcquiredStrategyToken 1 0, True)"
proof -
  have "lk_busy half_strategy < 2 ^ 31 - 1" by (simp add: half_strategy_def)
  from lookup_admission [OF half_strategy_inv this, of "[(LookupPartitionContextKey, StringValue ''live'')]"]
  show ?thesis
    by (simp add: Let_def half_strategy_def lookup_BusyCount_def lookup_Limit_def lookup_target_def
        DefaultStringLookupFunc_def Value_def)
qed

text \<open>How much borrowing can exceed the limit: while no limit changes, after any history
  of acquisitions and releases the requests in flight are at most the strategy's limit plus the
  sum of the shares of its partitions, the one for unknown groups included.\<close>

theorem lookup_total_bounded:
  assumes "lookup_inv s" and "lk_busy s = 0" and "length evs < 2 ^ 31" and "\<And>n. ESetLimit n \<notin> set evs"
    and "strat_run lookup_ops (s, []) evs = (s', out)"
  shows "lookup_BusyCount s' = int (length out)
    \<and> int (length out) \<le> max 0 (lookup_Limit s) + (\<Sum>r\<in>lookup_refs s. max 0 (part_Limit (lk_store s r)))"
proof -
  obtain M where M: "tokens_match (lk_busy s) (lk_store s) M" using assms(1) by (auto simp: lookup_inv_def)
  with assms(2) have zero: "pt_busy (lk_store s r) = 0" for r by (auto simp: tokens_match_def)
  have bal: "lookup_strategy.balanced (s, [])"
    using assms(1,2) zero by (simp add: lookup_strategy.balanced_def)
  have "lookup_covered s" using assms(2) zero by (simp add: lookup_covered_def within_share_def)
  then have run: "lookup_covered s'" "lk_limit s' = lk_limit s" "lookup_refs s' = lookup_refs s"
    "\<And>r. pt_limit (lk_store s' r) = pt_limit (lk_store s r)"
    using lookup_covered_run [OF bal _ _ _ assms(5)] assms(3,4) by auto
  have b: "lk_busy s' = int (length out)"
    using lookup_strategy.balanced_run [OF bal, of evs] assms(3,5) by (simp add: lookup_strategy.balanced_def)
  have "(\<Sum>r\<in>lookup_refs s'. within_share (lk_store s' r)) \<le> (\<Sum>r\<in>lookup_refs s. max 0 (pt_limit (lk_store s r)))"
    unfolding run(3) by (intro sum_mono) (simp add: within_share_def run(4) max.coboundedI2 max_def)
  then show ?thesis using run(1,2) b
    by (simp add: lookup_covered_def lookup_BusyCount_def lookup_Limit_def part_Limit_def)
qed

theorem lookup_total_bounded_witness:
  "\<exists>s' out. strat_run lookup_ops (half_strategy, []) [EAcquire [], EAcquire [], EAcquire []] = (s', out)
     \<and> int (length out) \<le> 2 + (1 + 1)"
proof -
  let ?evs = "[EAcquire [], EAcquire [], EAcquire []]"
  obtain s' out where run: "strat_run lookup_ops (half_strategy, []) ?evs = (s', out)" by (metis prod.exhaust)
  have "int (length out) \<le> max 0 (lookup_Limit half_strategy)
      + (\<Sum>r\<in>lookup_refs half_strategy. max 0 (part_Limit (lk_store half_strategy r)))"
    using lookup_total_bounded [OF half_strategy_inv _ _ _ run] by (simp add: half_strategy_def)
  moreover have "lookup_refs half_strategy = {0, 1}" by (auto simp: lookup_refs_def half_strategy_def)
  ultimately show ?thesis using run
    by (intro exI conjI) (auto simp: half_strategy_def half_partition_def lookup_Limit_def part_Limit_def)
qed

text \<open>C24: Accounting while partitions come and go: after any history of acquisitions, releases, limit
  changes, added and removed partitions, the strategy's counter is the number of outstanding tokens,
  the counter of every partition, also of a removed one, the number of outstanding tokens it granted, and removing
  a partition reports that number.\<close>

theorem lookup_managed_accounting:
  assumes "lookup_inv s" and "lk_busy s = 0" and "length evs < 2 ^ 31"
    and "managed_run lookup_ops lookup_manage (s, []) evs = (s', out)"
  shows "lookup_BusyCount s' = int (length out)
    \<and> (\<forall>r. part_BusyCount (lk_store s' r) = int (count_list out r))
    \<and> fst (lookup_RemovePartition n s')
        = (case map_of (lk_partitions s') n of None \<Rightarrow> (0, False) | Some r \<Rightarrow> (int (count_list out r), True))"
proof -
  obtain M where "tokens_match (lk_busy s) (lk_store s) M" using assms(1) by (auto simp: lookup_inv_def)
  with assms(2) have zero: "(\<lambda>r. pt_busy (lk_store s r)) = (\<lambda>_. 0)" by (auto simp: tokens_match_def)
  show ?thesis using lookup_managed.managed_busy [OF assms(1,2) zero assms(3,4)]
    by (simp add: lookup_BusyCount_def part_BusyCount_def lookup_RemovePartition_def split: option.split)
qed

theorem lookup_managed_accounting_witness:
  "\<exists>s' out. managed_run lookup_ops lookup_manage (half_strategy, [])
       [Traffic (EAcquire [(LookupPartitionContextKey, StringValue ''live'')]), Manage (RemoveNamed ''live''),
        Traffic (EAcquire []), Traffic (ERelease 0)] = (s', out)
     \<and> out = [0] \<and> lookup_BusyCount s' = 1 \<and> part_BusyCount (lk_store s' 0) = 1
     \<and> fst (lookup_RemovePartition ''live'' s') = (0, False)"
proof -
  let ?evs = "[Traffic (EAcquire [(LookupPartitionContextKey, StringValue ''live'')]), Manage (RemoveNamed ''live''),
        Traffic (EAcquire []), Traffic (ERelease 0)]"
  obtain s' out where run: "managed_run lookup_ops lookup_manage (half_strategy, []) ?evs = (s', out)" by fastforce
  then have out: "out = [0]" "map_of (lk_partitions s') ''live'' = None"
    by (auto simp: managed_run_def lookup_ops_def lookup_TryAcquire_def lookup_target_def half_strategy_def half_partition_def
        DefaultStringLookupFunc_def Value_def Let_def part_IsLimitExceeded_def part_Acquire_def i32_def
        lookup_RemovePartition_def lookup_releasePartition_def split: if_splits prod.splits option.splits)
  show ?thesis using lookup_managed_accounting [OF half_strategy_inv _ _ run, of "''live''"] run out
    by (simp add: half_strategy_def)
qed

lemma part_UpdateLimit_idem:
  "pt_limit (part_UpdateLimit n (part_UpdateLimit n p)) = pt_limit (part_UpdateLimit n p)"
  by (simp add: part_UpdateLimit_def)

lemma update_all_Cons: "update_all n (x # xs) store = update_all n xs (store(x := part_UpdateLimit n (store x)))"
  by (simp add: update_all_def)

lemma update_all_other: "r \<notin> set refs \<Longrightarrow> update_all n refs store r = store r"
  by (induction refs arbitrary: store) (auto simp: update_all_def)

lemma update_all_limit:
  "r \<in> set refs \<Longrightarrow> pt_limit (update_all n refs store r) = pt_limit (part_UpdateLimit n (store r))"
proof (induction refs arbitrary: store)
  case Nil
  then show ?case by simp
next
  case (Cons x xs)
  then show ?case
    by (cases "r \<in> set xs") (auto simp: update_all_Cons update_all_other part_UpdateLimit_idem)
qed

lemma half_new:
  "\<exists>store' s e. NewLookupPartitionStrategyWithMetricRegistry [(''live'', 0)] None lmt EmptyMetricRegistry 1
       (\<lambda>_. half_partition) = (store', Inr (Some (s, e)))"
proof -
  have "rnd (1 / 2) = 1 / 2" using rnd_dyadic [of 1 "- 1"] by (simp add: power_int_def)
  then have "\<not> fless (lit 1) (sum_percent (\<lambda>_. half_partition) [0])"
    by (simp add: sum_percent_def part_Percent_def half_partition_def f64_exact mk_small)
  then show ?thesis
    by (simp add: NewLookupPartitionStrategyWithMetricRegistry_def NewLookupPartitionWithMetricRegistry_def
        RegisterDistribution_def register_def Let_def split: prod.splits)
qed

lemma new_lookup_share:
  assumes "NewLookupPartitionStrategyWithMetricRegistry parts f lmt reg u store = (store', Inr (Some (s, e)))"
    and "1 \<le> lmt" and "lmt < 2 ^ 31" and "(n, r) \<in> set parts" and "r \<noteq> u"
    and "pt_percent (store r) = Fin x" and "0 \<le> x" and "x \<le> 1"
  shows "part_Limit (lk_store s r) = max 1 \<lceil>rnd (of_int lmt * x)\<rceil>"
proof -
  have "lk_store s r = store' r" and "store' = update_all lmt (map snd parts) store"
    using assms(1,5)
    by (auto simp: NewLookupPartitionStrategyWithMetricRegistry_def Let_def split: if_splits option.splits prod.splits)
  moreover have "r \<in> set (map snd parts)" using assms(4) by force
  ultimately show ?thesis
    using update_all_limit [of r "map snd parts" lmt store] part_UpdateLimit_share(1) [OF assms(2,3,6-8)]
    by (simp add: part_Limit_def)
qed

text \<open>The share of a partition: when the constructor succeeds, the limit of every named
  partition with a percentage between 0 and 1 is between 1 and the total limit and at least the
  percentage of the total rounded down (rounding up in floating point never loses a unit).\<close>

theorem lookup_shares:
  assumes "NewLookupPartitionStrategyWithMetricRegistry parts f lmt reg u store = (store', Inr (Some (s, e)))"
    and "1 \<le> lmt" and "lmt < 2 ^ 31" and "(n, r) \<in> set parts" and "r \<noteq> u"
    and "pt_percent (store r) = Fin x" and "0 \<le> x" and "x \<le> 1"
  shows "1 \<le> part_Limit (lk_store s r) \<and> part_Limit (lk_store s r) \<le> lmt
    \<and> \<lfloor>of_int lmt * x\<rfloor> \<le> part_Limit (lk_store s r)"
proof -
  note share = part_UpdateLimit_share [OF assms(2,3,6-8)]
  have "\<lceil>rnd (of_int lmt * x)\<rceil> \<le> lmt" using share(2) by (simp add: ceiling_le_iff)
  moreover have "\<lfloor>of_int lmt * x\<rfloor> \<le> \<lceil>rnd (of_int lmt * x)\<rceil>"
    using ceiling_mono [OF share(3)] by simp
  ultimately show ?thesis using new_lookup_share [OF assms] assms(2) by simp
qed

theorem lookup_shares_witness:
  "\<exists>store' s e. NewLookupPartitionStrategyWithMetricRegistry [(''live'', 0)] None 10 EmptyMetricRegistry 1
       (\<lambda>_. half_partition) = (store', Inr (Some (s, e)))
     \<and> 5 \<le> part_Limit (lk_store s 0) \<and> part_Limit (lk_store s 0) \<le> 10"
proof -
  obtain store' s e where new: "NewLookupPartitionStrategyWithMetricRegistry [(''live'', 0)] None 10
      EmptyMetricRegistry 1 (\<lambda>_. half_partition) = (store', Inr (Some (s, e)))"
    using half_new by blast
  have "5 \<le> part_Limit (lk_store s 0) \<and> part_Limit (lk_store s 0) \<le> 10"
    using lookup_shares [OF new, of "''live''" 0 "1 / 2"] by (simp add: half_partition_def)
  with new show ?thesis by blast
qed

text \<open>Requests of unknown groups are not confined to excess capacity: the constructor gives
  their partition the whole limit as its share, \<open>SetLimit\<close> never changes that share, and so an
  unknown request is admitted although the strategy is at its limit.\<close>

theorem lookup_unknown_share:
  assumes "NewLookupPartitionStrategyWithMetricRegistry parts f lmt reg u store = (store', Inr (Some (s, e)))"
    and "1 \<le> lmt" and "lmt < 2 ^ 31" and "u \<notin> snd ` set parts"
  shows "part_Limit (lk_store s u) = lmt \<and> part_Limit (lk_store (lookup_SetLimit n s) u) = lmt
    \<and> (\<forall>s' c. lookup_target c s' = u \<longrightarrow> part_Limit (lk_store s' u) = lmt
         \<longrightarrow> part_BusyCount (lk_store s' u) < lmt \<longrightarrow> snd (fst (lookup_TryAcquire c s')))"
proof -
  have i: "i32 lmt = lmt" using assms(2,3) by (intro i32_id) (simp add: in_i32_def)
  have un: "part_Limit (lk_store s u) = lmt" and parts: "lk_partitions s = parts"
    using assms(1,2) i
    by (auto simp: NewLookupPartitionStrategyWithMetricRegistry_def NewLookupPartitionWithMetricRegistry_def
        part_Limit_def Let_def split: if_splits option.splits prod.splits)
  have "lk_store (lookup_SetLimit n s) u = lk_store s u"
    using assms(4) parts by (simp add: lookup_SetLimit_def update_all_other Let_def)
  moreover have "\<forall>s' c. lookup_target c s' = u \<longrightarrow> part_Limit (lk_store s' u) = lmt
      \<longrightarrow> part_BusyCount (lk_store s' u) < lmt \<longrightarrow> snd (fst (lookup_TryAcquire c s'))"
    by (auto simp: lookup_TryAcquire_def part_IsLimitExceeded_def part_Limit_def part_BusyCount_def Let_def
        split: prod.splits)
  ultimately show ?thesis using un by simp
qed

theorem lookup_unknown_share_witness:
  "\<exists>store' s e. NewLookupPartitionStrategyWithMetricRegistry [(''live'', 0)] None 10 EmptyMetricRegistry 1
       (\<lambda>_. half_partition) = (store', Inr (Some (s, e)))
     \<and> part_Limit (lk_store (lookup_SetLimit 2 s) 1) = 10"
proof -
  obtain store' s e where new: "NewLookupPartitionStrategyWithMetricRegistry [(''live'', 0)] None 10
      EmptyMetricRegistry 1 (\<lambda>_. half_partition) = (store', Inr (Some (s, e)))"
    using half_new by blast
  have "part_Limit (lk_store (lookup_SetLimit 2 s) 1) = 10"
    using lookup_unknown_share [OF new, of 2] by simp
  with new show ?thesis by blast
qed

text \<open>Whether a partition table is accepted depends on the order in which Go happens to
  iterate the map: for partitions of 34, 56 and 10 percent the floating-point sum is
  1.0000000000000002 in one order, which is rejected, and 1.0 in another, which is accepted.\<close>

theorem lookup_constructor_order_dependent:
  "\<exists>store s e store1 store2.
     NewLookupPartitionStrategyWithMetricRegistry [(''a'', 0), (''b'', 1), (''c'', 2)] None 10 EmptyMetricRegistry 3 store
       = (store1, Inl SumOfPercentages)
   \<and> NewLookupPartitionStrategyWithMetricRegistry [(''c'', 2), (''a'', 0), (''b'', 1)] None 10 EmptyMetricRegistry 3 store
       = (store2, Inr (Some (s, e)))"
  by (intro exI [of _ decimal_store])
     (use sum_decimal_over sum_decimal_ok in
       \<open>simp add: NewLookupPartitionStrategyWithMetricRegistry_def NewLookupPartitionWithMetricRegistry_def
          Let_def split: prod.splits\<close>)

text \<open>Acquiring and releasing is a round trip: the release function of a granted token
  restores every counter of the strategy and of its partitions.\<close>

theorem lookup_acquire_release:
  assumes "lookup_inv s" and "lk_busy s < 2 ^ 31 - 1" and "lookup_TryAcquire c s = ((t, True), s', e)"
  shows "token_Release lookup_releasePartition t s' = s"
proof -
  let ?r = "lookup_target c s"
  note granted = lookup_granted [OF assms]
  obtain M where M: "tokens_match (lk_busy s) (lk_store s) M" using assms(1) by (auto simp: lookup_inv_def)
  note acq = tokens_match_acquire(1) [OF M assms(2)] tokens_match_acquire(2) [OF M assms(2), of ?r]
  have s': "s' = s\<lparr>lk_busy := lk_busy s + 1, lk_store := (lk_store s)(?r := fst (part_Acquire (lk_store s ?r)))\<rparr>"
    using assms(3) acq(1) by (auto simp: lookup_TryAcquire_def Let_def split: if_splits prod.splits)
  have i: "i32 (lk_busy s) = lk_busy s" "i32 (pt_busy (lk_store s ?r)) = pt_busy (lk_store s ?r)"
    using tokens_match_range [OF M, of ?r] assms(2) by (auto intro!: i32_id simp: in_i32_def)
  have "part_Release (fst (part_Acquire (lk_store s ?r))) = lk_store s ?r"
    using acq(2) i by (simp add: part_Acquire_def part_Release_def Let_def)
  then show ?thesis using granted(2) i by (simp add: token_Release_def lookup_releasePartition_def s')
qed

theorem lookup_acquire_release_witness:
  "token_Release lookup_releasePartition (fst (fst (lookup_TryAcquire [] half_strategy)))
     (fst (snd (lookup_TryAcquire [] half_strategy))) = half_strategy"
proof -
  have "lk_busy half_strategy < 2 ^ 31 - 1" by (simp add: half_strategy_def)
  moreover obtain t s' e where "lookup_TryAcquire [] half_strategy = ((t, True), s', e)"
    by (cases "part_Acquire half_partition") (simp add: lookup_TryAcquire_def half_strategy_def Let_def)
  ultimately show ?thesis using lookup_acquire_release [OF half_strategy_inv] by simp
qed

end
