(* ===== verification/Strategy_Predicate.thy ===== *)
theory Strategy_Predicate
  imports Strategy_Lookup
begin

text \<open>
  \<open>strategy/predicate_partition.go\<close>: the strategy that gives a request to the first partition
  whose predicate accepts it. A \<open>PredicatePartition\<close> is a partition with a predicate; the
  strategy keeps an ordered slice of pointers to them.
\<close>

record ppartition = partition +
  pp_predicate :: "ctx \<Rightarrow> bool"

text \<open>Calling a method of a nil registry panics, which is the result \<open>None\<close> of the constructors.\<close>

definition NewPredicatePartitionWithMetricRegistry ::
    "string \<Rightarrow> float64 \<Rightarrow> (ctx \<Rightarrow> bool) \<Rightarrow> registry \<Rightarrow> (ppartition \<times> effect list) option" where
  "NewPredicatePartitionWithMetricRegistry n pct predicateFunc registry =
     (if registry = NilRegistry then None
      else let (sampleListener, e) = RegisterDistribution registry MetricInFlight [partition_tag n];
               g = RegisterGauge registry MetricPartitionLimit [partition_tag n]
           in Some (\<lparr>pt_name = n, pt_percent = pct, pt_listener = sampleListener,
                     pt_limit = 1, pt_busy = 0, pp_predicate = predicateFunc\<rparr>, e @ g))"

record predicate_strategy =
  pd_partitions :: "nat list"
  pd_busy :: int
  pd_limit :: int
  pd_store :: "nat \<Rightarrow> ppartition"

definition ppart_BusyCount :: "ppartition \<Rightarrow> int" where
  "ppart_BusyCount p = pt_busy p"

definition ppart_Limit :: "ppartition \<Rightarrow> int" where
  "ppart_Limit p = pt_limit p"

definition ppart_UpdateLimit :: "int \<Rightarrow> ppartition \<Rightarrow> ppartition" where
  "ppart_UpdateLimit totalLimit p =
     (let limit = f2i32 (fmax (lit 1) (fceil (fmul (f64 totalLimit) (pt_percent p)))) in p\<lparr>pt_limit := limit\<rparr>)"

definition ppart_IsLimitExceeded :: "ppartition \<Rightarrow> bool" where
  "ppart_IsLimitExceeded p \<longleftrightarrow> pt_busy p \<ge> pt_limit p"

definition ppart_Acquire :: "ppartition \<Rightarrow> ppartition \<times> effect list" where
  "ppart_Acquire p =
     (let p' = p\<lparr>pt_busy := i32 (pt_busy p + 1)\<rparr> in (p', AddSample (pt_listener p') (f64 (pt_busy p'))))"

definition ppart_Release :: "ppartition \<Rightarrow> ppartition" where
  "ppart_Release p = p\<lparr>pt_busy := i32 (pt_busy p - 1)\<rparr>"

definition ppart_Name :: "ppartition \<Rightarrow> string" where
  "ppart_Name p = pt_name p"

definition ppart_Percent :: "ppartition \<Rightarrow> float64" where
  "ppart_Percent p = pt_percent p"

text \<open>The bodies are those of the lookup partitions' methods, so their lemmas apply.\<close>

lemma ppart_eqs [simp]:
  "ppart_BusyCount = part_BusyCount" "ppart_Limit = part_Limit" "ppart_UpdateLimit = part_UpdateLimit"
  "ppart_IsLimitExceeded = part_IsLimitExceeded" "ppart_Acquire = part_Acquire" "ppart_Release = part_Release"
  "ppart_Name = part_Name" "ppart_Percent = part_Percent"
  by (simp_all add: fun_eq_iff ppart_BusyCount_def part_BusyCount_def ppart_Limit_def part_Limit_def ppart_UpdateLimit_def
      part_UpdateLimit_def ppart_IsLimitExceeded_def part_IsLimitExceeded_def ppart_Acquire_def part_Acquire_def
      ppart_Release_def part_Release_def ppart_Name_def part_Name_def ppart_Percent_def part_Percent_def)

text \<open>The loop of the constructor adds up the percentages and updates each partition's limit; \<open>SetLimit\<close> has the latter.\<close>

definition ppart_sum :: "(nat \<Rightarrow> ppartition) \<Rightarrow> nat list \<Rightarrow> float64" where
  "ppart_sum store refs = foldl (\<lambda>acc r. fadd acc (ppart_Percent (store r))) (f64 0) refs"

definition ppart_update_all :: "int \<Rightarrow> nat list \<Rightarrow> (nat \<Rightarrow> ppartition) \<Rightarrow> nat \<Rightarrow> ppartition" where
  "ppart_update_all lmt refs store = foldl (\<lambda>st r. st(r := ppart_UpdateLimit lmt (st r))) store refs"

lemma ppart_loops [simp]: "ppart_sum = sum_percent" "ppart_update_all = update_all"
  by (simp_all add: fun_eq_iff ppart_sum_def sum_percent_def ppart_update_all_def update_all_def)

definition NewPredicatePartitionStrategyWithMetricRegistry ::
    "nat list \<Rightarrow> int \<Rightarrow> registry \<Rightarrow> (nat \<Rightarrow> ppartition)
     \<Rightarrow> (nat \<Rightarrow> ppartition) \<times> (partition_error + (predicate_strategy \<times> effect list) option)" where
  "NewPredicatePartitionStrategyWithMetricRegistry partitions lmt registry store =
     (if partitions = [] then (store, Inl NoPartitions)
      else let store' = ppart_update_all lmt partitions store in
        if fless (lit 1) (ppart_sum store partitions) then (store', Inl SumOfPercentages)
        else (store',
          Inr (if registry = NilRegistry then None
               else Some (\<lparr>pd_partitions = partitions, pd_busy = 0, pd_limit = lmt, pd_store = store'\<rparr>,
                          RegisterGauge registry MetricLimit []))))"

definition predicate_AddPartition :: "nat \<Rightarrow> predicate_strategy \<Rightarrow> bool \<times> predicate_strategy" where
  "predicate_AddPartition r s =
     (if r \<in> set (pd_partitions s) then (False, s)
      else (True, s\<lparr>pd_partitions := pd_partitions s @ [r]\<rparr>))"

text \<open>The loop of \<open>RemovePartitionsMatching\<close>, with the slices \<open>kept\<close> and \<open>removed\<close>.\<close>

fun remove_loop ::
    "(nat \<Rightarrow> ppartition) \<Rightarrow> ctx \<Rightarrow> nat list \<Rightarrow> nat list \<Rightarrow> nat list \<Rightarrow> nat list \<times> nat list" where
  "remove_loop store c [] kept removed = (kept, removed)"
| "remove_loop store c (p # ps) kept removed =
     (if pp_predicate (store p) c then remove_loop store c ps kept (removed @ [p])
      else remove_loop store c ps (kept @ [p]) removed)"

definition RemovePartitionsMatching ::
    "ctx \<Rightarrow> predicate_strategy \<Rightarrow> (nat list \<times> bool) \<times> predicate_strategy" where
  "RemovePartitionsMatching c s =
     (let (kept, removed) = remove_loop (pd_store s) c (pd_partitions s) [] []
      in ((removed, length removed > 0), s\<lparr>pd_partitions := kept\<rparr>))"

text \<open>The loop of \<open>TryAcquire\<close>: it returns at the first partition whose predicate holds.\<close>

fun predicate_loop ::
    "ctx \<Rightarrow> nat list \<Rightarrow> predicate_strategy \<Rightarrow> (nat token \<times> bool) \<times> predicate_strategy \<times> effect list" where
  "predicate_loop c [] s = ((NewNotAcquiredStrategyToken (pd_busy s), False), s, [])"
| "predicate_loop c (r # rs) s =
     (let p = pd_store s r in
      if pp_predicate p c then
        (if pd_busy s \<ge> pd_limit s \<and> ppart_IsLimitExceeded p
         then ((NewNotAcquiredStrategyToken (pd_busy s), False), s, [])
         else let (p', e) = ppart_Acquire p;
                  s' = s\<lparr>pd_busy := i32 (pd_busy s + 1), pd_store := (pd_store s)(r := p')\<rparr>
              in ((NewAcquiredStrategyToken (pd_busy s') r, True), s', e))
      else predicate_loop c rs s)"

definition predicate_TryAcquire ::
    "ctx \<Rightarrow> predicate_strategy \<Rightarrow> (nat token \<times> bool) \<times> predicate_strategy \<times> effect list" where
  "predicate_TryAcquire c s = predicate_loop c (pd_partitions s) s"

definition predicate_releasePartition :: "nat \<Rightarrow> predicate_strategy \<Rightarrow> predicate_strategy" where
  "predicate_releasePartition r s =
     s\<lparr>pd_busy := i32 (pd_busy s - 1), pd_store := (pd_store s)(r := ppart_Release (pd_store s r))\<rparr>"

definition predicate_SetLimit :: "int \<Rightarrow> predicate_strategy \<Rightarrow> predicate_strategy" where
  "predicate_SetLimit lmt s =
     (let lmt = (if lmt < 1 then 1 else lmt);
          s' = (if pd_limit s \<noteq> i32 lmt
                then s\<lparr>pd_store := ppart_update_all (i32 lmt) (pd_partitions s) (pd_store s)\<rparr> else s)
      in s'\<lparr>pd_limit := i32 lmt\<rparr>)"

definition predicate_BusyCount :: "predicate_strategy \<Rightarrow> int" where
  "predicate_BusyCount s = pd_busy s"

definition predicate_Limit :: "predicate_strategy \<Rightarrow> int" where
  "predicate_Limit s = pd_limit s"

text \<open>An index is checked before the slice is read; a read out of range panics.\<close>

datatype bin_result = BinOk int | BinError int | BinPanic int

definition bin_read :: "(ppartition \<Rightarrow> int) \<Rightarrow> int \<Rightarrow> predicate_strategy \<Rightarrow> bin_result" where
  "bin_read f idx s =
     (if 0 \<le> idx \<and> idx < int (length (pd_partitions s))
      then BinOk (f (pd_store s (pd_partitions s ! nat idx))) else BinPanic idx)"

definition predicate_BinBusyCount :: "int \<Rightarrow> predicate_strategy \<Rightarrow> bin_result" where
  "predicate_BinBusyCount idx s =
     (if idx < 0 \<or> idx - 1 > int (length (pd_partitions s)) then BinError idx
      else bin_read ppart_BusyCount idx s)"

definition predicate_BinLimit :: "int \<Rightarrow> predicate_strategy \<Rightarrow> bin_result" where
  "predicate_BinLimit idx s =
     (if idx < 0 \<or> idx - 1 > int (length (pd_partitions s)) then BinError idx
      else bin_read ppart_Limit idx s)"

definition predicate_ops :: "(predicate_strategy, nat) strategy_ops" where
  "predicate_ops = \<lparr>TryAcquire = predicate_TryAcquire, ReleaseFunc = predicate_releasePartition,
     SetLimit = predicate_SetLimit\<rparr>"

section \<open>The first matching partition\<close>

definition first_match :: "ctx \<Rightarrow> predicate_strategy \<Rightarrow> nat option" where
  "first_match c s = find (\<lambda>r. pp_predicate (pd_store s r) c) (pd_partitions s)"

lemma predicate_loop_find:
  "predicate_loop c rs s =
     (case find (\<lambda>r. pp_predicate (pd_store s r) c) rs of
        None \<Rightarrow> ((NewNotAcquiredStrategyToken (pd_busy s), False), s, [])
      | Some r \<Rightarrow>
          (if pd_busy s \<ge> pd_limit s \<and> part_IsLimitExceeded (pd_store s r)
           then ((NewNotAcquiredStrategyToken (pd_busy s), False), s, [])
           else ((NewAcquiredStrategyToken (i32 (pd_busy s + 1)) r, True),
                 s\<lparr>pd_busy := i32 (pd_busy s + 1),
                   pd_store := (pd_store s)(r := fst (part_Acquire (pd_store s r)))\<rparr>,
                 snd (part_Acquire (pd_store s r)))))"
  by (induction rs) (auto simp: Let_def split: prod.splits)

lemmas predicate_TryAcquire_find =
  predicate_TryAcquire_def [unfolded predicate_loop_find first_match_def [symmetric]]

lemma remove_loop_filter:
  "remove_loop store c ps kept removed =
     (kept @ filter (\<lambda>p. \<not> pp_predicate (store p) c) ps, removed @ filter (\<lambda>p. pp_predicate (store p) c) ps)"
  by (induction ps arbitrary: kept removed) auto

section \<open>The contract\<close>

definition predicate_inv :: "predicate_strategy \<Rightarrow> bool" where
  "predicate_inv s \<longleftrightarrow> pd_busy s < 2 ^ 31 \<and> (\<exists>M. tokens_match (pd_busy s) (pd_store s) M)"

lemma predicate_granted:
  assumes "predicate_inv s" and "pd_busy s < 2 ^ 31 - 1" and "predicate_TryAcquire c s = ((t, True), s', e)"
  shows "\<exists>r. first_match c s = Some r \<and> releaseFunc t = Some r
    \<and> (pd_busy s < pd_limit s \<or> pt_busy (pd_store s r) < pt_limit (pd_store s r))
    \<and> s' = s\<lparr>pd_busy := pd_busy s + 1, pd_store := (pd_store s)(r := fst (part_Acquire (pd_store s r)))\<rparr>
    \<and> predicate_inv s' \<and> (\<lambda>x. pt_busy (pd_store s' x))
        = (\<lambda>x. pt_busy (pd_store s x))(r := pt_busy (pd_store s r) + 1)"
proof -
  obtain M where M: "tokens_match (pd_busy s) (pd_store s) M" using assms(1) by (auto simp: predicate_inv_def)
  obtain r where r: "first_match c s = Some r"
    using assms(3) by (auto simp: predicate_TryAcquire_find split: option.splits)
  note acq = tokens_match_acquire(1) [OF M assms(2)] tokens_match_acquire(2,3) [OF M assms(2), of r]
  have s': "s' = s\<lparr>pd_busy := pd_busy s + 1, pd_store := (pd_store s)(r := fst (part_Acquire (pd_store s r)))\<rparr>"
    and "releaseFunc t = Some r"
    and "pd_busy s < pd_limit s \<or> pt_busy (pd_store s r) < pt_limit (pd_store s r)"
    using assms(3) acq(1) r
    by (auto simp: predicate_TryAcquire_find part_IsLimitExceeded_def split: if_splits)
  moreover have "predicate_inv s'" using acq(3) assms(2) by (auto simp: predicate_inv_def s')
  moreover have "(\<lambda>x. pt_busy (pd_store s' x))
      = (\<lambda>x. pt_busy (pd_store s x))(r := pt_busy (pd_store s r) + 1)"
    using acq(2) by (auto simp: s')
  ultimately show ?thesis using r by blast
qed

lemma predicate_refused:
  assumes "predicate_TryAcquire c s = ((t, False), s', e)"
  shows "s' = s" and "releaseFunc t = None"
  using assms by (auto simp: predicate_TryAcquire_find split: if_splits option.splits)

lemma predicate_release:
  assumes "predicate_inv s" and "0 < pt_busy (pd_store s r)"
  shows "pd_busy (predicate_releasePartition r s) = pd_busy s - 1"
    and "predicate_inv (predicate_releasePartition r s)"
    and "(\<lambda>x. pt_busy (pd_store (predicate_releasePartition r s) x))
       = (\<lambda>x. pt_busy (pd_store s x))(r := pt_busy (pd_store s r) - 1)"
proof -
  obtain M where M: "tokens_match (pd_busy s) (pd_store s) M" and lt: "pd_busy s < 2 ^ 31"
    using assms(1) by (auto simp: predicate_inv_def)
  note rel = tokens_match_release [OF M lt assms(2)]
  show "pd_busy (predicate_releasePartition r s) = pd_busy s - 1"
    using rel(1) by (simp add: predicate_releasePartition_def)
  show "predicate_inv (predicate_releasePartition r s)"
    using rel(1,3) lt by (auto simp: predicate_releasePartition_def predicate_inv_def)
  show "(\<lambda>x. pt_busy (pd_store (predicate_releasePartition r s) x))
       = (\<lambda>x. pt_busy (pd_store s x))(r := pt_busy (pd_store s r) - 1)"
    using rel(2) by (auto simp: predicate_releasePartition_def)
qed

interpretation predicate_strategy: strategy_contract predicate_ops pd_busy
    "\<lambda>s r. pt_busy (pd_store s r)" predicate_inv
proof unfold_locales
  fix s :: predicate_strategy and c t s' e
  assume "predicate_inv s" and "pd_busy s < 2 ^ 31 - 1"
    and "TryAcquire predicate_ops c s = ((t, True), s', e)"
  then show "predicate_inv s' \<and> pd_busy s' = pd_busy s + 1
      \<and> (\<exists>f. releaseFunc t = Some f \<and> (\<lambda>r. pt_busy (pd_store s' r))
           = (\<lambda>r. pt_busy (pd_store s r))(f := pt_busy (pd_store s f) + 1))"
    using predicate_granted [of s c t s' e] by (auto simp: predicate_ops_def)
next
  fix s :: predicate_strategy and c t s' e
  assume "TryAcquire predicate_ops c s = ((t, False), s', e)"
  then show "s' = s \<and> releaseFunc t = None"
    using predicate_refused [of c s t s' e] by (simp add: predicate_ops_def)
next
  fix s :: predicate_strategy and f
  assume "predicate_inv s" and "0 < pt_busy (pd_store s f)"
  then show "predicate_inv (ReleaseFunc predicate_ops f s)
      \<and> pd_busy (ReleaseFunc predicate_ops f s) = pd_busy s - 1
      \<and> (\<lambda>r. pt_busy (pd_store (ReleaseFunc predicate_ops f s) r))
        = (\<lambda>r. pt_busy (pd_store s r))(f := pt_busy (pd_store s f) - 1)"
    using predicate_release [of s f] by (simp add: predicate_ops_def)
next
  fix s :: predicate_strategy and n
  assume "predicate_inv s"
  then show "predicate_inv (SetLimit predicate_ops n s) \<and> pd_busy (SetLimit predicate_ops n s) = pd_busy s
      \<and> (\<lambda>r. pt_busy (pd_store (SetLimit predicate_ops n s) r)) = (\<lambda>r. pt_busy (pd_store s r))"
    by (simp add: predicate_ops_def predicate_SetLimit_def predicate_inv_def Let_def tokens_match_update_all)
qed

interpretation predicate_limited: limited_strategy predicate_ops pd_busy "\<lambda>s r. pt_busy (pd_store s r)" predicate_inv
    pd_limit
  by unfold_locales
     (auto simp: predicate_ops_def predicate_SetLimit_def predicate_TryAcquire_find predicate_releasePartition_def Let_def
       max_def split: if_splits option.splits)

datatype predicate_management = AddPredicate nat | RemoveMatching ctx

fun predicate_manage :: "predicate_management \<Rightarrow> predicate_strategy \<Rightarrow> predicate_strategy" where
  "predicate_manage (AddPredicate r) s = snd (predicate_AddPartition r s)"
| "predicate_manage (RemoveMatching c) s = snd (RemovePartitionsMatching c s)"

interpretation predicate_managed: managed_strategy predicate_ops pd_busy "\<lambda>s r. pt_busy (pd_store s r)" predicate_inv
    predicate_manage
proof unfold_locales
  fix s :: predicate_strategy and m
  assume "predicate_inv s"
  then show "predicate_inv (predicate_manage m s) \<and> pd_busy (predicate_manage m s) = pd_busy s
      \<and> (\<lambda>r. pt_busy (pd_store (predicate_manage m s) r)) = (\<lambda>r. pt_busy (pd_store s r))"
    by (cases m) (auto simp: predicate_AddPartition_def RemovePartitionsMatching_def predicate_inv_def split: prod.split)
qed

section \<open>Properties\<close>

text \<open>Two partitions: requests tagged ''batch'' get no share, every other request half.\<close>

definition batch_store :: "nat \<Rightarrow> ppartition" where
  "batch_store r =
     \<lparr>pt_name = (if r = 0 then ''batch'' else ''rest''), pt_percent = (if r = 0 then Fin 0 else Fin (1 / 2)),
      pt_listener = EmptyMetricSampleListener, pt_limit = 1, pt_busy = 0,
      pp_predicate = (if r = 0 then StringPredicateMatcher ''batch'' False else (\<lambda>_. True))\<rparr>"

definition batch_ctx :: ctx where
  "batch_ctx = WithValue [] StringPredicateContextKey (StringValue ''batch'')"

definition batch_strategy :: predicate_strategy where
  "batch_strategy = \<lparr>pd_partitions = [0, 1], pd_busy = 0, pd_limit = 1, pd_store = batch_store\<rparr>"

lemma batch_strategy_inv: "predicate_inv batch_strategy"
  by (auto simp: predicate_inv_def batch_strategy_def batch_store_def tokens_match_def
      intro!: exI [of _ "{#}"])

text \<open>C31: Which requests the predicate strategy admits: a request is granted exactly when
  some partition accepts it and, for the first such partition, the strategy or that partition is
  below its limit. A grant charges that partition and the strategy by one and leaves every other
  partition alone; a refusal changes nothing.\<close>

theorem predicate_admission:
  assumes "predicate_inv s" and "pd_busy s < 2 ^ 31 - 1" and "predicate_TryAcquire c s = ((t, ok), s', e)"
  shows "(ok \<longleftrightarrow> (\<exists>i<length (pd_partitions s).
            pp_predicate (pd_store s (pd_partitions s ! i)) c
            \<and> (\<forall>j<i. \<not> pp_predicate (pd_store s (pd_partitions s ! j)) c)
            \<and> (predicate_BusyCount s < predicate_Limit s
               \<or> part_BusyCount (pd_store s (pd_partitions s ! i)) < part_Limit (pd_store s (pd_partitions s ! i)))))
    \<and> (ok \<longrightarrow> predicate_BusyCount s' = predicate_BusyCount s + 1
        \<and> (\<exists>r. first_match c s = Some r \<and> (\<forall>x. part_BusyCount (pd_store s' x)
             = part_BusyCount (pd_store s x) + (if x = r then 1 else 0))))
    \<and> (\<not> ok \<longrightarrow> s' = s)"
proof (intro conjI)
  let ?P = "\<lambda>r. pp_predicate (pd_store s r) c" and ?ps = "pd_partitions s"
  show "ok \<longleftrightarrow> (\<exists>i<length ?ps. ?P (?ps ! i) \<and> (\<forall>j<i. \<not> ?P (?ps ! j))
      \<and> (predicate_BusyCount s < predicate_Limit s
         \<or> part_BusyCount (pd_store s (?ps ! i)) < part_Limit (pd_store s (?ps ! i))))" (is "_ = ?rhs")
  proof (cases "first_match c s")
    case None
    then have "\<not> ok" using assms(3) by (simp add: predicate_TryAcquire_find)
    moreover have "\<not> ?rhs" using None by (auto simp: first_match_def find_None_iff)
    ultimately show ?thesis by simp
  next
    case (Some r)
    then obtain i where i: "i < length ?ps" "?P (?ps ! i)" "r = ?ps ! i" "\<forall>j<i. \<not> ?P (?ps ! j)"
      by (auto simp: first_match_def find_Some_iff)
    have first: "k = i" if "?P (?ps ! k)" "\<forall>j<k. \<not> ?P (?ps ! j)" for k
      using that i by (metis linorder_neqE_nat)
    have "ok \<longleftrightarrow> \<not> (pd_busy s \<ge> pd_limit s \<and> part_IsLimitExceeded (pd_store s r))"
      using assms(3) Some by (auto simp: predicate_TryAcquire_find split: if_splits)
    also have "\<dots> \<longleftrightarrow> predicate_BusyCount s < predicate_Limit s
         \<or> part_BusyCount (pd_store s r) < part_Limit (pd_store s r)"
      by (auto simp: part_IsLimitExceeded_def predicate_BusyCount_def predicate_Limit_def
          part_BusyCount_def part_Limit_def)
    also have "\<dots> \<longleftrightarrow> ?rhs" using i first by blast
    finally show ?thesis .
  qed
  show "ok \<longrightarrow> predicate_BusyCount s' = predicate_BusyCount s + 1
        \<and> (\<exists>r. first_match c s = Some r \<and> (\<forall>x. part_BusyCount (pd_store s' x)
             = part_BusyCount (pd_store s x) + (if x = r then 1 else 0)))"
    using predicate_granted [OF assms(1,2), of c t s' e] assms(3)
    by (auto simp: predicate_BusyCount_def part_BusyCount_def fun_eq_iff)
  show "\<not> ok \<longrightarrow> s' = s" using predicate_refused(1) [of c s t s' e] assms(3) by (cases ok) auto
qed

theorem predicate_admission_witness:
  "snd (fst (predicate_TryAcquire batch_ctx batch_strategy))
   \<and> predicate_BusyCount (fst (snd (predicate_TryAcquire batch_ctx batch_strategy))) = 1"
proof -
  obtain t ok s' e where acq: "predicate_TryAcquire batch_ctx batch_strategy = ((t, ok), s', e)"
    by (metis prod.exhaust)
  have "pd_busy batch_strategy < 2 ^ 31 - 1" by (simp add: batch_strategy_def)
  note adm = predicate_admission [OF batch_strategy_inv this acq]
  have "pp_predicate (pd_store batch_strategy (pd_partitions batch_strategy ! 0)) batch_ctx"
    by (simp add: batch_strategy_def batch_store_def batch_ctx_def StringPredicateMatcher_def Value_def WithValue_def)
  then have ok using adm
    by (auto simp: batch_strategy_def predicate_BusyCount_def predicate_Limit_def intro!: exI [of _ 0])
  then show ?thesis using adm acq by (simp add: predicate_BusyCount_def batch_strategy_def)
qed

text \<open>C34: In-flight accounting of the predicate strategy: after any history of acquisitions,
  releases, limit changes, added and removed partitions the strategy's counter is the number of outstanding
  tokens and the counter of every partition, also of a removed one, the number of outstanding tokens it granted.\<close>

theorem predicate_accounting:
  assumes "predicate_inv s" and "pd_busy s = 0" and "length evs < 2 ^ 31"
    and "managed_run predicate_ops predicate_manage (s, []) evs = (s', out)"
  shows "predicate_BusyCount s' = int (length out)
    \<and> (\<forall>r. part_BusyCount (pd_store s' r) = int (count_list out r))"
proof -
  obtain M where "tokens_match (pd_busy s) (pd_store s) M" using assms(1) by (auto simp: predicate_inv_def)
  with assms(2) have zero: "(\<lambda>r. pt_busy (pd_store s r)) = (\<lambda>_. 0)" by (auto simp: tokens_match_def)
  show ?thesis using predicate_managed.managed_busy [OF assms(1,2) zero assms(3,4)]
    by (simp add: predicate_BusyCount_def part_BusyCount_def)
qed

theorem predicate_accounting_witness:
  "\<exists>s' out. managed_run predicate_ops predicate_manage (batch_strategy, [])
      [Traffic (EAcquire []), Traffic (EAcquire batch_ctx), Manage (RemoveMatching batch_ctx), Traffic (ERelease 1)] = (s', out)
     \<and> predicate_BusyCount s' = int (length out)"
proof -
  obtain s' out where run: "managed_run predicate_ops predicate_manage (batch_strategy, [])
      [Traffic (EAcquire []), Traffic (EAcquire batch_ctx), Manage (RemoveMatching batch_ctx), Traffic (ERelease 1)] = (s', out)"
    by fastforce
  then show ?thesis using predicate_accounting [OF batch_strategy_inv _ _ run]
    by (simp add: batch_strategy_def)
qed

text \<open>A partition is never starved, whatever its percentage: the constructor gives every
  partition with a percentage between 0 and 1, also 0, a limit of at least one, so its first
  request is granted even when the strategy is at its limit.\<close>

theorem predicate_never_starved:
  assumes "NewPredicatePartitionStrategyWithMetricRegistry parts lmt reg store = (store', Inr (Some (s, e)))"
    and "1 \<le> lmt" and "lmt < 2 ^ 31" and "r \<in> set parts"
    and "pt_percent (store r) = Fin x" and "0 \<le> x" and "x \<le> 1"
  shows "1 \<le> part_Limit (pd_store s r) \<and> part_Limit (pd_store s r) \<le> lmt
    \<and> (\<forall>s' c. first_match c s' = Some r \<and> part_Limit (pd_store s' r) = part_Limit (pd_store s r)
         \<and> part_BusyCount (pd_store s' r) = 0 \<longrightarrow> snd (fst (predicate_TryAcquire c s')))"
proof -
  note share = part_UpdateLimit_share [OF assms(2,3,5-7)]
  have "pd_store s = update_all lmt parts store"
    using assms(1)
    by (auto simp: NewPredicatePartitionStrategyWithMetricRegistry_def Let_def split: if_splits)
  then have l: "part_Limit (pd_store s r) = max 1 \<lceil>rnd (of_int lmt * x)\<rceil>"
    using share(1) by (simp add: part_Limit_def update_all_limit [OF assms(4)])
  moreover have "\<lceil>rnd (of_int lmt * x)\<rceil> \<le> lmt" using share(2) by (simp add: ceiling_le_iff)
  moreover have "snd (fst (predicate_TryAcquire c s'))"
    if "first_match c s' = Some r" "part_Limit (pd_store s' r) = part_Limit (pd_store s r)"
      "part_BusyCount (pd_store s' r) = 0" for s' c
    using that l by (simp add: predicate_TryAcquire_find part_IsLimitExceeded_def part_Limit_def part_BusyCount_def)
  ultimately show ?thesis using assms(2) by auto
qed

theorem predicate_never_starved_witness:
  "\<exists>store' s e. NewPredicatePartitionStrategyWithMetricRegistry [0, 1] 10 EmptyMetricRegistry batch_store
      = (store', Inr (Some (s, e))) \<and> 1 \<le> part_Limit (pd_store s 0)"
proof -
  have half: "rnd (1 / 2) = 1 / 2" using rnd_dyadic [of 1 "- 1"] by (simp add: power_int_def)
  have "\<not> fless (lit 1) (sum_percent batch_store [0, 1])"
    by (simp add: sum_percent_def part_Percent_def batch_store_def f64_exact mk_small half)
  then obtain store' s e where new:
      "NewPredicatePartitionStrategyWithMetricRegistry [0, 1] 10 EmptyMetricRegistry batch_store
        = (store', Inr (Some (s, e)))"
    by (simp add: NewPredicatePartitionStrategyWithMetricRegistry_def Let_def)
  have "1 \<le> part_Limit (pd_store s 0)"
    using predicate_never_starved [OF new, of 0 0] by (simp add: batch_store_def)
  with new show ?thesis by blast
qed

text \<open>Removing partitions keeps the rest in order, returns exactly the partitions that
  match, leaves no partition that matches, and so refuses the request it was called with from then
  on; counters and outstanding tokens are untouched.\<close>

theorem predicate_remove_matching:
  "case RemovePartitionsMatching c s of ((removed, found), s') \<Rightarrow>
     pd_partitions s' = filter (\<lambda>p. \<not> pp_predicate (pd_store s p) c) (pd_partitions s)
   \<and> removed = filter (\<lambda>p. pp_predicate (pd_store s p) c) (pd_partitions s)
   \<and> (found \<longleftrightarrow> removed \<noteq> [])
   \<and> pd_busy s' = pd_busy s \<and> pd_store s' = pd_store s
   \<and> fst (predicate_TryAcquire c s') = (NewNotAcquiredStrategyToken (pd_busy s), False)"
proof -
  have "find (\<lambda>r. pp_predicate (pd_store s r) c)
      (filter (\<lambda>p. \<not> pp_predicate (pd_store s p) c) (pd_partitions s)) = None"
    by (auto simp: find_None_iff)
  then show ?thesis
    by (simp add: RemovePartitionsMatching_def remove_loop_filter predicate_TryAcquire_find first_match_def
        filter_empty_conv)
qed

text \<open>Reading a bin by its index: an index inside the slice gives the partition's limit, a
  negative one or one beyond the length plus one gives an error, and the two indices the bound
  misses, the length and the length plus one, panic.\<close>

theorem predicate_bin_outcomes:
  "predicate_BinLimit idx s =
     (if idx < 0 \<or> idx > int (length (pd_partitions s)) + 1 then BinError idx
      else if idx < int (length (pd_partitions s))
      then BinOk (part_Limit (pd_store s (pd_partitions s ! nat idx)))
      else BinPanic idx)
   \<and> (predicate_BinBusyCount idx s = BinPanic idx
      \<longleftrightarrow> idx = int (length (pd_partitions s)) \<or> idx = int (length (pd_partitions s)) + 1)"
  by (auto simp: predicate_BinLimit_def predicate_BinBusyCount_def bin_read_def)

end
