(* ===== verification/Limiter_Default.thy ===== *)
theory Limiter_Default
  imports Sample_Window Limit_Vegas Limit_Gradient2 Strategy_Simple Strategy_Predicate
begin

text \<open>
  \<open>limiter/default.go\<close>: the limiter that combines a limit algorithm and a strategy, polymorphic in
  both. The first section has the operations; \<open>time.Now()\<close> is an argument. The second section
  interleaves the callers of one limiter: a listener's completion is three or four critical
  sections (the atomic counter, the strategy's lock, the limiter's lock twice), each of which is
  one step, and other callers may run in between.
\<close>

section \<open>Operations\<close>

definition defaultMinWindowTime :: int where "defaultMinWindowTime = 1000000000"
definition defaultMaxWindowTime :: int where "defaultMaxWindowTime = 1000000000"
definition defaultMinRTTThreshold :: int where "defaultMinRTTThreshold = 100000"
definition defaultWindowSize :: int where "defaultWindowSize = 100"

record ('l, 's) default_limiter =
  dl_limit :: 'l
  dl_strategy :: 's
  dl_minWindowTime :: int
  dl_maxWindowTime :: int
  dl_windowSize :: int
  dl_minRTTThreshold :: int
  dl_logger :: "logger option"
  dl_registry :: registry
  dl_sample :: sample_window
  dl_inFlight :: int
  dl_nextUpdateTime :: int

text \<open>A listener; the pointers to the limiter and its counter are implicit.\<close>

record 'r default_listener =
  ls_currentMaxInFlight :: int
  ls_token :: "'r token"
  ls_startTime :: int
  ls_minRTTThreshold :: int
  ls_nextUpdateTime :: int

datatype limiter_error =
    LimitRequired | StrategyRequired | StrategyFactoryRequired
  | MinWindowTimePositive | MaxWindowTimePositive | WindowTimesOrdered | WindowSizeTooSmall

definition NewDefaultLimiter ::
    "'l limit_ops \<Rightarrow> ('s, 'r) strategy_ops \<Rightarrow> int \<Rightarrow> 'l option \<Rightarrow> int \<Rightarrow> int \<Rightarrow> int \<Rightarrow> int \<Rightarrow> 's option
     \<Rightarrow> logger option \<Rightarrow> registry \<Rightarrow> limiter_error + ('l, 's) default_limiter" where
  "NewDefaultLimiter lops sops now lmt minWindowTime maxWindowTime minRTTThreshold windowSize strategy logger registry =
     (case lmt of
        None \<Rightarrow> Inl LimitRequired
      | Some l \<Rightarrow>
          (case strategy of
             None \<Rightarrow> Inl StrategyRequired
           | Some s \<Rightarrow>
               (if minWindowTime \<le> 0 then Inl MinWindowTimePositive
                else if maxWindowTime \<le> 0 then Inl MaxWindowTimePositive
                else if maxWindowTime < minWindowTime then Inl WindowTimesOrdered
                else if windowSize < 10 then Inl WindowSizeTooSmall
                else Inr \<lparr>dl_limit = l, dl_strategy = SetLimit sops (EstimatedLimit lops l) s,
                          dl_minWindowTime = minWindowTime, dl_maxWindowTime = maxWindowTime,
                          dl_windowSize = windowSize, dl_minRTTThreshold = minRTTThreshold,
                          dl_logger = logger, dl_registry = registry,
                          dl_sample = NewDefaultImmutableSampleWindow now, dl_inFlight = 0,
                          dl_nextUpdateTime = 0\<rparr>)))"

definition NewDefaultLimiterWithFactory ::
    "'l limit_ops \<Rightarrow> ('s, 'r) strategy_ops \<Rightarrow> int \<Rightarrow> 'l option \<Rightarrow> int \<Rightarrow> int \<Rightarrow> int \<Rightarrow> int \<Rightarrow> (int \<Rightarrow> 's) option
     \<Rightarrow> logger option \<Rightarrow> registry \<Rightarrow> limiter_error + ('l, 's) default_limiter" where
  "NewDefaultLimiterWithFactory lops sops now lmt minWindowTime maxWindowTime minRTTThreshold windowSize strategyFactory
     logger registry =
     (case lmt of
        None \<Rightarrow> Inl LimitRequired
      | Some l \<Rightarrow>
          (case strategyFactory of
             None \<Rightarrow> Inl StrategyFactoryRequired
           | Some f \<Rightarrow> NewDefaultLimiter lops sops now (Some l) minWindowTime maxWindowTime minRTTThreshold windowSize
                         (Some (f (EstimatedLimit lops l))) logger registry))"

definition NewDefaultLimiterWithDefaults ::
    "(float64 \<Rightarrow> float64) \<Rightarrow> int list \<Rightarrow> rand \<Rightarrow> ('s, 'r) strategy_ops \<Rightarrow> string \<Rightarrow> 's option \<Rightarrow> logger option
     \<Rightarrow> registry \<Rightarrow> string list \<Rightarrow> limiter_error + (vegas, 's) default_limiter" where
  "NewDefaultLimiterWithDefaults Log10 table rd sops name strategy logger registry tags =
     NewDefaultLimiter vegas_ops sops (timeNow rd)
       (Some (fst (NewDefaultVegasLimit Log10 table rd name logger registry tags)))
       defaultMinWindowTime defaultMaxWindowTime defaultMinRTTThreshold defaultWindowSize strategy logger registry"

definition limiter_Acquire ::
    "('s, 'r) strategy_ops \<Rightarrow> int \<Rightarrow> ctx \<Rightarrow> ('l, 's) default_limiter
     \<Rightarrow> 'r default_listener option \<times> ('l, 's) default_limiter \<times> effect list" where
  "limiter_Acquire sops now c l =
     (case TryAcquire sops c (dl_strategy l) of
        ((token, ok), s, e) \<Rightarrow>
          (if \<not> ok then (None, l\<lparr>dl_strategy := s\<rparr>, e)
           else let n = i64 (dl_inFlight l + 1)
                in (Some \<lparr>ls_currentMaxInFlight = n, ls_token = token, ls_startTime = now,
                          ls_minRTTThreshold = dl_minRTTThreshold l, ls_nextUpdateTime = dl_nextUpdateTime l\<rparr>,
                    l\<lparr>dl_strategy := s, dl_inFlight := n\<rparr>, e)))"

definition limiter_isWindowReady :: "sample_window \<Rightarrow> ('l, 's) default_limiter \<Rightarrow> bool" where
  "limiter_isWindowReady sample l \<longleftrightarrow> CandidateRTTNanoseconds sample < MaxInt64 \<and> SampleCount sample > dl_windowSize l"

definition limiter_EstimatedLimit :: "'l limit_ops \<Rightarrow> ('l, 's) default_limiter \<Rightarrow> int" where
  "limiter_EstimatedLimit lops l = EstimatedLimit lops (dl_limit l)"

definition updateAndGetSample ::
    "(sample_window \<Rightarrow> sample_window) \<Rightarrow> ('l, 's) default_limiter
     \<Rightarrow> (sample_window \<times> sample_window) \<times> ('l, 's) default_limiter" where
  "updateAndGetSample f l = (let before = dl_sample l; after = f before in ((before, after), l\<lparr>dl_sample := after\<rparr>))"

text \<open>Both atomic actions at the start of every completion: the counter, then the token.\<close>

definition listener_count :: "('l, 's) default_limiter \<Rightarrow> ('l, 's) default_limiter" where
  "listener_count l = l\<lparr>dl_inFlight := i64 (dl_inFlight l - 1)\<rparr>"

definition listener_free ::
    "('s, 'r) strategy_ops \<Rightarrow> 'r default_listener \<Rightarrow> ('l, 's) default_limiter \<Rightarrow> ('l, 's) default_limiter" where
  "listener_free sops ls l = l\<lparr>dl_strategy := token_Release (ReleaseFunc sops) (ls_token ls) (dl_strategy l)\<rparr>"

definition listener_updateLimit ::
    "'l limit_ops \<Rightarrow> ('s, 'r) strategy_ops \<Rightarrow> rand \<Rightarrow> 'r default_listener \<Rightarrow> int \<Rightarrow> sample_window
     \<Rightarrow> ('l, 's) default_limiter \<Rightarrow> ('l, 's) default_limiter \<times> effect list" where
  "listener_updateLimit lops sops rd ls endTime current l =
     (if endTime > ls_nextUpdateTime ls \<and> endTime > dl_nextUpdateTime l \<and> limiter_isWindowReady current l
      then let minWindowTime = i64 (CandidateRTTNanoseconds current * 2);
               minWindowTime = (if dl_minWindowTime l > minWindowTime then dl_minWindowTime l else minWindowTime);
               minVal = dl_maxWindowTime l;
               minVal = (if minWindowTime < minVal then minWindowTime else minVal);
               (lmt, e) = OnSample lops rd 0 (CandidateRTTNanoseconds current) (MaxInFlight current) (DidDrop current)
                            (dl_limit l)
           in (l\<lparr>dl_sample := NewImmutableSampleWindow (- 1) 0 0 0 0 False,
                 dl_nextUpdateTime := i64 (endTime + minVal), dl_limit := lmt,
                 dl_strategy := SetLimit sops (EstimatedLimit lops lmt) (dl_strategy l)\<rparr>, e)
      else (l, []))"

text \<open>The recording of a sample: \<open>None\<close> when the request was too short to count.\<close>

definition listener_measureSuccess ::
    "rand \<Rightarrow> int \<Rightarrow> 'r default_listener \<Rightarrow> ('l, 's) default_limiter
     \<Rightarrow> sample_window option \<times> ('l, 's) default_limiter" where
  "listener_measureSuccess rd endTime ls l =
     (let rtt = i64 (endTime - ls_startTime ls) in
      if rtt < ls_minRTTThreshold ls then (None, l)
      else let ((_, current), l') = updateAndGetSample
             (\<lambda>w. window_AddSample (timeNow rd) (- 1) rtt (ls_currentMaxInFlight ls) w) l
           in (Some current, l'))"

definition listener_measureDropped ::
    "rand \<Rightarrow> 'r default_listener \<Rightarrow> ('l, 's) default_limiter \<Rightarrow> sample_window \<times> ('l, 's) default_limiter" where
  "listener_measureDropped rd ls l =
     (let ((_, current), l') = updateAndGetSample
        (\<lambda>w. window_AddDroppedSample (timeNow rd) (- 1) (ls_currentMaxInFlight ls) w) l
      in (current, l'))"

definition listener_OnSuccess ::
    "'l limit_ops \<Rightarrow> ('s, 'r) strategy_ops \<Rightarrow> rand \<Rightarrow> 'r default_listener \<Rightarrow> ('l, 's) default_limiter
     \<Rightarrow> ('l, 's) default_limiter \<times> effect list" where
  "listener_OnSuccess lops sops rd ls l =
     (let l = listener_free sops ls (listener_count l);
          endTime = timeNow rd
      in case listener_measureSuccess rd endTime ls l of
           (None, l) \<Rightarrow> (l, [])
         | (Some current, l) \<Rightarrow> listener_updateLimit lops sops rd ls endTime current l)"

definition listener_OnIgnore ::
    "('s, 'r) strategy_ops \<Rightarrow> 'r default_listener \<Rightarrow> ('l, 's) default_limiter \<Rightarrow> ('l, 's) default_limiter" where
  "listener_OnIgnore sops ls l = listener_free sops ls (listener_count l)"

definition listener_OnDropped ::
    "'l limit_ops \<Rightarrow> ('s, 'r) strategy_ops \<Rightarrow> rand \<Rightarrow> 'r default_listener \<Rightarrow> ('l, 's) default_limiter
     \<Rightarrow> ('l, 's) default_limiter \<times> effect list" where
  "listener_OnDropped lops sops rd ls l =
     (let l = listener_free sops ls (listener_count l);
          (current, l) = listener_measureDropped rd ls l
      in listener_updateLimit lops sops rd ls (timeNow rd) current l)"

section \<open>Concurrent callers\<close>

datatype outcome = Succeeded | Ignored | WasDropped

text \<open>
  Where a request is: running; past the decrement of the counter; past the release of its token;
  with its sample recorded and the update of the limit to come; done.
\<close>

datatype 'r request =
    Running "'r default_listener"
  | Counted "'r default_listener" outcome
  | Freed "'r default_listener" outcome
  | Measured "'r default_listener" sample_window
  | Finished

type_synonym ('l, 's, 'r) callers = "('l, 's) default_limiter \<times> 'r request list"

text \<open>At most \<open>2 ^ 31 - 2\<close> requests are outstanding when another one arrives.\<close>

fun holds_token :: "'r request \<Rightarrow> bool" where
  "holds_token (Running ls) = True"
| "holds_token (Counted ls oc) = True"
| "holds_token _ = False"

fun is_running :: "'r request \<Rightarrow> bool" where
  "is_running (Running ls) = True"
| "is_running _ = False"

inductive limiter_step ::
    "'l limit_ops \<Rightarrow> ('s, 'r) strategy_ops \<Rightarrow> ('l, 's, 'r) callers \<Rightarrow> ('l, 's, 'r) callers \<Rightarrow> bool"
  for lops :: "'l limit_ops" and sops :: "('s, 'r) strategy_ops" where
  granted: "limiter_Acquire sops now c l = (Some ls, l', e) \<Longrightarrow> length (filter holds_token rs) < 2 ^ 31 - 1 \<Longrightarrow>
    limiter_step lops sops (l, rs) (l', rs @ [Running ls])"
| refused: "limiter_Acquire sops now c l = (None, l', e) \<Longrightarrow> limiter_step lops sops (l, rs) (l', rs)"
| count: "i < length rs \<Longrightarrow> rs ! i = Running ls \<Longrightarrow>
    limiter_step lops sops (l, rs) (listener_count l, rs[i := Counted ls oc])"
| free: "i < length rs \<Longrightarrow> rs ! i = Counted ls oc \<Longrightarrow>
    limiter_step lops sops (l, rs) (listener_free sops ls l, rs[i := (if oc = Ignored then Finished else Freed ls oc)])"
| measure: "i < length rs \<Longrightarrow> rs ! i = Freed ls Succeeded \<Longrightarrow> listener_measureSuccess rd endTime ls l = (w, l') \<Longrightarrow>
    limiter_step lops sops (l, rs) (l', rs[i := (case w of None \<Rightarrow> Finished | Some cur \<Rightarrow> Measured ls cur)])"
| measure_drop: "i < length rs \<Longrightarrow> rs ! i = Freed ls WasDropped \<Longrightarrow> listener_measureDropped rd ls l = (cur, l') \<Longrightarrow>
    limiter_step lops sops (l, rs) (l', rs[i := Measured ls cur])"
| update: "i < length rs \<Longrightarrow> rs ! i = Measured ls cur \<Longrightarrow> listener_updateLimit lops sops rd ls endTime cur l = (l', e) \<Longrightarrow>
    limiter_step lops sops (l, rs) (l', rs[i := Finished])"

inductive_cases limiter_stepE: "limiter_step lops sops (l, rs) st'"

inductive limiter_reach ::
    "'l limit_ops \<Rightarrow> ('s, 'r) strategy_ops \<Rightarrow> ('l, 's) default_limiter \<Rightarrow> ('l, 's, 'r) callers \<Rightarrow> bool"
  for lops :: "'l limit_ops" and sops :: "('s, 'r) strategy_ops" and l0 :: "('l, 's) default_limiter" where
  start: "limiter_reach lops sops l0 (l0, [])"
| step: "limiter_reach lops sops l0 st \<Longrightarrow> limiter_step lops sops st st' \<Longrightarrow> limiter_reach lops sops l0 st'"

section \<open>Accounting for every strategy\<close>

fun req_func :: "'r request \<Rightarrow> 'r option" where
  "req_func (Running ls) = releaseFunc (ls_token ls)"
| "req_func (Counted ls oc) = releaseFunc (ls_token ls)"
| "req_func _ = None"

definition count_reqs :: "('r request \<Rightarrow> bool) \<Rightarrow> 'r request list \<Rightarrow> int" where
  "count_reqs P rs = int (length (filter P rs))"

lemma count_reqs_append [simp]: "count_reqs P (rs @ [r]) = count_reqs P rs + of_bool (P r)"
  by (simp add: count_reqs_def)

lemma count_reqs_update:
  "i < length rs \<Longrightarrow> count_reqs P (rs[i := r]) = count_reqs P rs - of_bool (P (rs ! i)) + of_bool (P r)"
  using length_filter_update [of i rs P r] by (auto simp: count_reqs_def split: if_splits)

lemma count_reqs_pos: "i < length rs \<Longrightarrow> P (rs ! i) \<Longrightarrow> 0 < count_reqs P rs"
  unfolding count_reqs_def by (auto simp: filter_empty_conv)

text \<open>
  The limiter over any strategy that keeps the contract: the limiter's counter is the number of
  running requests, the strategy's the number of tokens not yet released, and no token is
  released twice or lost, whatever the interleaving.
\<close>

locale limiter_stack = limited_strategy ops busy held inv enforced
  for ops :: "('s, 'r) strategy_ops" and busy held inv enforced +
  fixes lops :: "'l limit_ops"
begin

definition accounted :: "('l, 's, 'r) callers \<Rightarrow> bool" where
  "accounted st \<longleftrightarrow> (case st of (l, rs) \<Rightarrow>
     inv (dl_strategy l) \<and> busy (dl_strategy l) = count_reqs holds_token rs
     \<and> (\<forall>f. held (dl_strategy l) f = count_reqs (\<lambda>r. req_func r = Some f) rs)
     \<and> (\<forall>r\<in>set rs. holds_token r \<longrightarrow> req_func r \<noteq> None)
     \<and> dl_inFlight l = count_reqs is_running rs \<and> count_reqs holds_token rs < 2 ^ 31)"

lemma running_le_holds: "0 \<le> count_reqs is_running rs \<and> count_reqs is_running rs \<le> count_reqs holds_token rs"
proof -
  have "length (filter is_running rs) \<le> length (filter holds_token rs)"
    by (induction rs) (auto elim: is_running.elims)
  then show ?thesis by (simp add: count_reqs_def)
qed

lemma inFlight_i64:
  assumes "accounted (l, rs)"
  shows "i64 (dl_inFlight l + 1) = dl_inFlight l + 1" and "i64 (dl_inFlight l - 1) = dl_inFlight l - 1"
  using assms running_le_holds [of rs] by (auto intro!: i64_id simp: accounted_def in_i64_def)

lemma accounted_granted:
  assumes "accounted (l, rs)" and "limiter_Acquire ops now c l = (Some ls, l', e)"
    and "length (filter holds_token rs) < 2 ^ 31 - 1"
  shows "accounted (l', rs @ [Running ls])"
proof -
  obtain t ok s e' where acq: "TryAcquire ops c (dl_strategy l) = ((t, ok), s, e')" by (metis prod.exhaust)
  then have ok: "ok" and ls: "ls_token ls = t" and l': "l' = l\<lparr>dl_strategy := s, dl_inFlight := i64 (dl_inFlight l + 1)\<rparr>"
    using assms(2) by (auto simp: limiter_Acquire_def Let_def split: if_splits)
  have "int (length (filter holds_token rs)) < int (2 ^ 31 - 1)" using assms(3) by (simp only: of_nat_less_iff)
  then have room: "count_reqs holds_token rs < 2 ^ 31 - 1" by (simp add: count_reqs_def)
  then obtain f where "inv s" "busy s = busy (dl_strategy l) + 1" "releaseFunc t = Some f"
      "held s = (held (dl_strategy l))(f := held (dl_strategy l) f + 1)"
    using acquire_granted [of "dl_strategy l" c t s e'] acq ok assms(1) by (auto simp: accounted_def)
  then show ?thesis using assms(1) room inFlight_i64(1) [OF assms(1)] by (auto simp: accounted_def l' ls)
qed

lemma accounted_refused:
  assumes "accounted (l, rs)" and "limiter_Acquire ops now c l = (None, l', e)"
  shows "l' = l"
  using assms acquire_refused
  by (auto simp: limiter_Acquire_def accounted_def Let_def split: if_splits prod.splits)

lemma accounted_func:
  assumes "accounted (l, rs)" and "i < length rs"
  shows "holds_token (rs ! i) \<Longrightarrow> req_func (rs ! i) \<noteq> None"
  using assms nth_mem [of i rs] unfolding accounted_def by blast

lemma accounted_count:
  assumes "accounted (l, rs)" and "i < length rs" and "rs ! i = Running ls"
  shows "accounted (listener_count l, rs[i := Counted ls oc])"
proof -
  have "req_func (rs ! i) \<noteq> None"
    using accounted_func [OF assms(1,2)] assms(3) by simp
  then have "\<forall>r\<in>set (rs[i := Counted ls oc]). holds_token r \<longrightarrow> req_func r \<noteq> None"
    using assms set_update_subset_insert [of rs i "Counted ls oc"] by (auto simp: accounted_def)
  then show ?thesis using assms inFlight_i64(2) [OF assms(1)]
    by (simp add: accounted_def listener_count_def count_reqs_update)
qed

lemma accounted_free:
  assumes "accounted (l, rs)" and "i < length rs" and "rs ! i = Counted ls oc" and "\<not> holds_token r" and "req_func r = None"
    and "\<not> is_running r"
  shows "accounted (listener_free ops ls l, rs[i := r])"
proof -
  have "req_func (rs ! i) \<noteq> None"
    using accounted_func [OF assms(1,2)] assms(3) by simp
  then obtain f where f: "releaseFunc (ls_token ls) = Some f" using assms(3) by auto
  then have "0 < held (dl_strategy l) f"
    using assms(1-3) count_reqs_pos [of i rs "\<lambda>r. req_func r = Some f"] by (simp add: accounted_def)
  then have rel: "inv (ReleaseFunc ops f (dl_strategy l))" "busy (ReleaseFunc ops f (dl_strategy l)) = busy (dl_strategy l) - 1"
    "held (ReleaseFunc ops f (dl_strategy l)) = (held (dl_strategy l))(f := held (dl_strategy l) f - 1)"
    using release_held [of "dl_strategy l" f] assms(1) by (auto simp: accounted_def)
  have "\<forall>x\<in>set (rs[i := r]). holds_token x \<longrightarrow> req_func x \<noteq> None"
    using assms set_update_subset_insert [of rs i r] by (auto simp: accounted_def)
  then show ?thesis using assms f rel
    by (auto simp: accounted_def listener_free_def token_Release_def count_reqs_update)
qed

lemma accounted_quiet:
  assumes "accounted (l, rs)" and "i < length rs" and "\<not> holds_token (rs ! i)" and "\<not> holds_token r"
    and "dl_inFlight l' = dl_inFlight l" and "dl_strategy l' = dl_strategy l \<or> (\<exists>n. dl_strategy l' = SetLimit ops n (dl_strategy l))"
  shows "accounted (l', rs[i := r])"
proof -
  have quiet: "\<not> holds_token x \<Longrightarrow> req_func x = None \<and> \<not> is_running x" for x :: "'r request" by (cases x) simp_all
  have "\<forall>x\<in>set (rs[i := r]). holds_token x \<longrightarrow> req_func x \<noteq> None"
    using assms set_update_subset_insert [of rs i r] by (auto simp: accounted_def)
  then show ?thesis using assms quiet [OF assms(3)] quiet [OF assms(4)] setLimit_keeps
    by (auto simp: accounted_def count_reqs_update)
qed

lemma accounted_step:
  assumes "accounted st" and "limiter_step lops ops st st'"
  shows "accounted st'"
  using assms(2,1)
proof (induction rule: limiter_step.induct)
  case granted
  then show ?case by (blast intro: accounted_granted)
next
  case (refused now c l l' e rs)
  then show ?case using accounted_refused [of l rs now c l' e] by simp
next
  case count
  then show ?case by (blast intro: accounted_count)
next
  case free
  then show ?case by (auto intro: accounted_free)
next
  case (measure i rs ls rd endTime l w l')
  then show ?case
    by (auto intro!: accounted_quiet simp: listener_measureSuccess_def updateAndGetSample_def Let_def split: if_splits)
next
  case (measure_drop i rs ls rd l cur l')
  then show ?case
    by (auto intro!: accounted_quiet simp: listener_measureDropped_def updateAndGetSample_def Let_def)
next
  case (update i rs ls cur rd endTime l l' e)
  then show ?case
    by (auto intro!: accounted_quiet simp: listener_updateLimit_def Let_def case_prod_beta split: if_splits)
qed

lemma accounted_reach:
  assumes "limiter_reach lops ops l0 st" and "accounted (l0, [])"
  shows "accounted st"
  using assms by (induction rule: limiter_reach.induct) (auto intro: accounted_step)

text \<open>The strategy enforces the current estimate of the limit algorithm.\<close>

definition synced :: "('l, 's, 'r) callers \<Rightarrow> bool" where
  "synced st \<longleftrightarrow> enforced (dl_strategy (fst st)) = i32 (max 1 (EstimatedLimit lops (dl_limit (fst st))))"

lemma enforced_token_Release: "enforced (token_Release (ReleaseFunc ops) t s) = enforced s"
  by (simp add: token_Release_def enforced_release split: option.splits)

lemma synced_step:
  assumes "synced st" and "limiter_step lops ops st st'"
  shows "synced st'"
  using assms(2,1)
proof (induction rule: limiter_step.induct)
  case (granted now c l ls l' e rs)
  then show ?case using enforced_acquire [of c "dl_strategy l"]
    by (auto simp: synced_def limiter_Acquire_def Let_def split: if_splits prod.splits)
next
  case (refused now c l l' e rs)
  then show ?case using enforced_acquire [of c "dl_strategy l"]
    by (auto simp: synced_def limiter_Acquire_def Let_def split: if_splits prod.splits)
next
  case count
  then show ?case by (simp add: synced_def listener_count_def)
next
  case free
  then show ?case by (simp add: synced_def listener_free_def enforced_token_Release)
next
  case measure
  then show ?case by (auto simp: synced_def listener_measureSuccess_def updateAndGetSample_def Let_def split: if_splits)
next
  case measure_drop
  then show ?case by (auto simp: synced_def listener_measureDropped_def updateAndGetSample_def Let_def)
next
  case update
  then show ?case
    by (auto simp: synced_def listener_updateLimit_def Let_def enforced_set case_prod_beta split: if_splits)
qed

lemma synced_reach:
  assumes "limiter_reach lops ops l0 st" and "synced (l0, [])"
  shows "synced st"
  using assms by (induction rule: limiter_reach.induct) (auto intro: synced_step)

lemma new_limiter:
  assumes "NewDefaultLimiter lops ops now (Some lmt) minW maxW thr ws (Some s) lg reg = Inr l0"
    and "inv s" and "busy s = 0" and "\<And>f. held s f = 0"
  shows "accounted (l0, [])" and "synced (l0, [])"
  using assms setLimit_keeps [OF assms(2)]
  by (auto simp: NewDefaultLimiter_def accounted_def synced_def enforced_set count_reqs_def split: if_splits)

end

section \<open>Limits in range\<close>

text \<open>
  The samples the limiter gives its limit algorithm: positive round-trip times, because windows
  without a completed request are never handed on and the threshold is at least a nanosecond,
  and at most \<open>2 ^ 31\<close> requests in flight.
\<close>

definition window_ok :: "sample_window \<Rightarrow> bool" where
  "window_ok w \<longleftrightarrow> 1 \<le> sw_minRTT w \<and> sw_minRTT w \<le> MaxInt64 \<and> 0 \<le> sw_maxInFlight w \<and> sw_maxInFlight w \<le> 2 ^ 31"

fun request_ok :: "'r request \<Rightarrow> bool" where
  "request_ok (Running ls) = (0 \<le> ls_currentMaxInFlight ls \<and> ls_currentMaxInFlight ls \<le> 2 ^ 31 \<and> 1 \<le> ls_minRTTThreshold ls)"
| "request_ok (Counted ls oc) = (0 \<le> ls_currentMaxInFlight ls \<and> ls_currentMaxInFlight ls \<le> 2 ^ 31 \<and> 1 \<le> ls_minRTTThreshold ls)"
| "request_ok (Freed ls oc) = (0 \<le> ls_currentMaxInFlight ls \<and> ls_currentMaxInFlight ls \<le> 2 ^ 31 \<and> 1 \<le> ls_minRTTThreshold ls)"
| "request_ok (Measured ls w) = window_ok w"
| "request_ok Finished = True"

lemma window_ok_new [simp]:
  "window_ok (NewDefaultImmutableSampleWindow now)" "window_ok (NewImmutableSampleWindow (- 1) 0 0 0 0 False)"
  by (simp_all add: window_ok_def NewDefaultImmutableSampleWindow_def NewImmutableSampleWindow_def)

lemma window_ok_AddSample:
  "window_ok w \<Longrightarrow> 1 \<le> rtt \<Longrightarrow> in_i64 rtt \<Longrightarrow> 0 \<le> n \<Longrightarrow> n \<le> 2 ^ 31 \<Longrightarrow> window_ok (window_AddSample now st rtt n w)"
  by (auto simp: window_ok_def window_AddSample_def NewImmutableSampleWindow_def in_i64_def Let_def)

lemma window_ok_AddDroppedSample:
  "window_ok w \<Longrightarrow> 0 \<le> n \<Longrightarrow> n \<le> 2 ^ 31 \<Longrightarrow> window_ok (window_AddDroppedSample now st n w)"
  by (auto simp: window_ok_def window_AddDroppedSample_def NewImmutableSampleWindow_def Let_def)

lemmas in_update = set_update_subset_insert [THEN subsetD]

locale limiter_bounded =
  limiter_stack ops busy held inv enforced lops + bounded_limit lops I good lo hi
  for ops :: "('s, 'r) strategy_ops" and busy held inv enforced and lops :: "'l limit_ops" and I good lo hi +
  assumes good_sample: "1 \<le> rtt \<Longrightarrow> in_i64 rtt \<Longrightarrow> 0 \<le> n \<Longrightarrow> n \<le> 2 ^ 31 \<Longrightarrow> good (r, st, rtt, n, d)"
begin

definition ranged :: "('l, 's, 'r) callers \<Rightarrow> bool" where
  "ranged st \<longleftrightarrow> (case st of (l, rs) \<Rightarrow> accounted st \<and> I (dl_limit l) \<and> window_ok (dl_sample l)
     \<and> 1 \<le> dl_minRTTThreshold l \<and> (\<forall>r\<in>set rs. request_ok r))"

lemma ranged_nth: "ranged (l, rs) \<Longrightarrow> i < length rs \<Longrightarrow> request_ok (rs ! i)"
  by (simp add: ranged_def)

lemma ranged_granted:
  assumes "ranged (l, rs)" and "limiter_Acquire ops now c l = (Some ls, l', e)" and "length (filter holds_token rs) < 2 ^ 31 - 1"
  shows "ranged (l', rs @ [Running ls])"
proof -
  have acc: "accounted (l, rs)" using assms(1) by (simp add: ranged_def)
  have "int (length (filter holds_token rs)) < int (2 ^ 31 - 1)" using assms(3) by (simp only: of_nat_less_iff)
  then have "0 \<le> dl_inFlight l" "dl_inFlight l < 2 ^ 31 - 1"
    using acc running_le_holds [of rs] by (auto simp: accounted_def count_reqs_def)
  then have "request_ok (Running ls)"
    using assms(1,2) inFlight_i64(1) [OF acc] by (auto simp: ranged_def limiter_Acquire_def Let_def split: if_splits prod.splits)
  moreover have "dl_limit l' = dl_limit l" "dl_sample l' = dl_sample l" "dl_minRTTThreshold l' = dl_minRTTThreshold l"
    using assms(2) by (auto simp: limiter_Acquire_def Let_def split: if_splits prod.splits)
  ultimately show ?thesis using assms(1) accounted_granted [OF acc assms(2,3)] by (auto simp: ranged_def)
qed

lemma ranged_update:
  assumes "ranged (l, rs)" and "i < length rs" and "rs ! i = Measured ls cur"
    and "listener_updateLimit lops ops rd ls endTime cur l = (l', e)"
  shows "I (dl_limit l') \<and> window_ok (dl_sample l') \<and> dl_minRTTThreshold l' = dl_minRTTThreshold l"
proof -
  have "request_ok (rs ! i)" using assms(1,2) by (rule ranged_nth)
  then have w: "window_ok cur" using assms(3) by simp
  have "I (fst (OnSample lops rd 0 (CandidateRTTNanoseconds cur) (MaxInFlight cur) (DidDrop cur) (dl_limit l)))"
    if "limiter_isWindowReady cur l"
    using that w assms(1)
    by (intro sample_inv good_sample)
       (auto simp: ranged_def window_ok_def limiter_isWindowReady_def CandidateRTTNanoseconds_def MaxInFlight_def in_i64_def)
  then show ?thesis using assms(1,4)
    by (auto simp: listener_updateLimit_def ranged_def Let_def case_prod_beta split: if_splits)
qed

lemma ranged_step:
  assumes "ranged st" and "limiter_step lops ops st st'"
  shows "ranged st'"
proof -
  have acc: "accounted st'" using assms accounted_step [of st st'] by (auto simp: ranged_def split: prod.splits)
  show ?thesis using assms(2,1) acc
  proof (induction rule: limiter_step.induct)
    case granted
    then show ?case by (blast intro: ranged_granted)
  next
    case (refused now c l l' e rs)
    then show ?case using accounted_refused [of l rs now c l' e] by (simp add: ranged_def)
  next
    case (count i rs ls l oc)
    then have "request_ok (rs ! i)" by (blast intro: ranged_nth)
    with count show ?case by (auto simp: ranged_def listener_count_def dest!: in_update)
  next
    case (free i rs ls oc l)
    then have "request_ok (rs ! i)" by (blast intro: ranged_nth)
    with free show ?case by (auto simp: ranged_def listener_free_def dest!: in_update)
  next
    case (measure i rs ls rd endTime l w l')
    then have "request_ok (rs ! i)" by (blast intro: ranged_nth)
    with measure show ?case
      by (auto simp: ranged_def listener_measureSuccess_def updateAndGetSample_def Let_def
          dest!: in_update intro!: window_ok_AddSample split: if_splits)
  next
    case (measure_drop i rs ls rd l cur l')
    then have "request_ok (rs ! i)" by (blast intro: ranged_nth)
    with measure_drop show ?case
      by (auto simp: ranged_def listener_measureDropped_def updateAndGetSample_def Let_def
          dest!: in_update intro!: window_ok_AddDroppedSample)
  next
    case (update i rs ls cur rd endTime l l' e)
    then show ?case using ranged_update [of l rs i ls cur rd endTime l' e]
      by (auto simp: ranged_def dest!: in_update)
  qed
qed

lemma ranged_reach:
  assumes "limiter_reach lops ops l0 st" and "ranged (l0, [])"
  shows "ranged st"
  using assms by (induction rule: limiter_reach.induct) (auto intro: ranged_step)

lemma new_ranged:
  assumes "NewDefaultLimiter lops ops now (Some lmt) minW maxW thr ws (Some s) lg reg = Inr l0"
    and "inv s" and "busy s = 0" and "\<And>f. held s f = 0" and "I lmt" and "1 \<le> thr"
  shows "ranged (l0, [])"
  using assms new_limiter [OF assms(1-4)] by (auto simp: ranged_def NewDefaultLimiter_def split: if_splits)

text \<open>The enforced limit is the estimate itself when the range fits in 32 bits.\<close>

lemma reach_enforced:
  assumes "limiter_reach lops ops l0 (l, rs)" and "ranged (l0, [])" and "synced (l0, [])" and "1 \<le> lo" and "hi < 2 ^ 31"
  shows "enforced (dl_strategy l) = EstimatedLimit lops (dl_limit l)"
    and "lo \<le> enforced (dl_strategy l)" and "enforced (dl_strategy l) \<le> hi"
proof -
  have "I (dl_limit l)" using ranged_reach [OF assms(1,2)] by (simp add: ranged_def)
  then have r: "lo \<le> EstimatedLimit lops (dl_limit l)" "EstimatedLimit lops (dl_limit l) \<le> hi"
    using estimate_range by simp_all
  then have "i32 (max 1 (EstimatedLimit lops (dl_limit l))) = EstimatedLimit lops (dl_limit l)"
    using assms(4,5) by (subst i32_id) (auto simp: in_i32_def)
  then show "enforced (dl_strategy l) = EstimatedLimit lops (dl_limit l)"
    using synced_reach [OF assms(1,3)] by (simp add: synced_def)
  with r show "lo \<le> enforced (dl_strategy l)" and "enforced (dl_strategy l) \<le> hi" by simp_all
qed

end

text \<open>Over a strict strategy the requests in flight stay below the largest limit.\<close>

locale limiter_strict = limiter_bounded + strict_strategy
begin

lemma busy_step:
  assumes "limiter_step lops ops (l, rs) (l', rs')" and "accounted (l, rs)" and "enforced (dl_strategy l) \<le> hi"
    and "busy (dl_strategy l) \<le> hi" and "hi < 2 ^ 31"
  shows "busy (dl_strategy l') \<le> hi"
  using assms(1)
proof (cases rule: limiter_step.cases)
  case (granted now c ls e)
  then obtain t s e' where acq: "TryAcquire ops c (dl_strategy l) = ((t, True), s, e')" and l': "dl_strategy l' = s"
    by (auto simp: limiter_Acquire_def Let_def split: if_splits prod.splits)
  have "busy (dl_strategy l) < 2 ^ 31 - 1" using strict [OF acq] assms(3,5) by simp
  then have "busy s = busy (dl_strategy l) + 1"
    using acquire_granted [OF _ _ acq] assms(2) by (simp add: accounted_def)
  then show ?thesis using strict [OF acq] assms(3) l' by simp
next
  case (refused now c e)
  then have "l' = l" using accounted_refused [OF assms(2)] by blast
  then show ?thesis using assms(4) by simp
next
  case (count i ls oc)
  then show ?thesis using assms(4) by (simp add: listener_count_def)
next
  case (free i ls oc)
  have "accounted (l', rs')" using accounted_step [OF assms(2,1)] .
  then have "busy (dl_strategy l') = count_reqs holds_token rs'" by (simp add: accounted_def)
  also have "\<dots> = count_reqs holds_token rs - 1" using free by (simp add: count_reqs_update)
  finally show ?thesis using assms(2,4) by (simp add: accounted_def)
next
  case (measure i ls rd endTime w)
  then show ?thesis using assms(4)
    by (auto simp: listener_measureSuccess_def updateAndGetSample_def Let_def split: if_splits)
next
  case (measure_drop i ls rd cur)
  then show ?thesis using assms(4) by (auto simp: listener_measureDropped_def updateAndGetSample_def Let_def)
next
  case (update i ls cur rd endTime e)
  then show ?thesis using assms(2,4) setLimit_keeps
    by (auto simp: listener_updateLimit_def accounted_def Let_def case_prod_beta split: if_splits)
qed

lemma busy_reach:
  assumes "limiter_reach lops ops l0 st" and "ranged (l0, [])" and "synced (l0, [])" and "1 \<le> lo" and "hi < 2 ^ 31"
  shows "busy (dl_strategy (fst st)) \<le> hi"
  using assms(1)
proof (induction rule: limiter_reach.induct)
  case start
  have "busy (dl_strategy l0) = 0" using assms(2) by (simp add: ranged_def accounted_def count_reqs_def)
  moreover have "1 \<le> hi"
    using reach_enforced(2,3) [OF limiter_reach.start assms(2-5)] assms(4) by simp
  ultimately show ?case by simp
next
  case (step st st')
  obtain l rs where st: "st = (l, rs)" by (metis prod.exhaust)
  have "accounted (l, rs)" using ranged_reach [OF step.hyps(1) assms(2)] st by (simp add: ranged_def)
  moreover have "enforced (dl_strategy l) \<le> hi"
    using reach_enforced(3) [OF _ assms(2-5)] step.hyps(1) st by blast
  ultimately show ?case using busy_step [of l rs "fst st'" "snd st'"] step st assms(5) by simp
qed

end

section \<open>The library's strategies and limits\<close>

interpretation precise_stack: limiter_stack precise_ops p_inFlight "\<lambda>s _. p_inFlight s" precise_inv p_limit lops for lops
  by unfold_locales

interpretation simple_stack: limiter_stack simple_ops s_inFlight "\<lambda>s _. s_inFlight s" simple_inv s_limit lops for lops
  by unfold_locales

interpretation lookup_stack: limiter_stack lookup_ops lk_busy "\<lambda>s r. pt_busy (lk_store s r)" lookup_inv lk_limit lops for lops
  by unfold_locales

interpretation predicate_stack: limiter_stack predicate_ops pd_busy "\<lambda>s r. pt_busy (pd_store s r)" predicate_inv pd_limit
    lops for lops
  by unfold_locales

interpretation precise_vegas: limiter_strict precise_ops p_inFlight "\<lambda>s _. p_inFlight s" precise_inv p_limit vegas_ops
    "vegas_inv hi" "\<lambda>_. True" 1 hi for hi
  by unfold_locales simp_all

interpretation precise_gradient2: limiter_strict precise_ops p_inFlight "\<lambda>s _. p_inFlight s" precise_inv p_limit gradient2_ops
    "gradient2_inv lo hi" positive_rtt lo hi for lo hi
  by unfold_locales (simp add: positive_rtt_def)

lemma precise_idle: "precise_inv (NewPreciseStrategy n)" "p_inFlight (NewPreciseStrategy n) = 0"
  by (rule precise_inv_New) (simp add: NewPreciseStrategy_simps)

lemma reach_new_granted:
  assumes "limiter_Acquire sops now c l0 = (Some ls, l, e)"
  shows "limiter_reach lops sops l0 (l, [Running ls])"
  using limiter_reach.step [OF limiter_reach.start limiter_step.granted [OF assms, of "[]"]] by simp

text \<open>C2: In-flight accounting of the default limiter: for a limiter over the precise strategy and
  any limit algorithm, however the callers interleave, the limiter's counter is the number of running
  requests, the strategy's counter the number of tokens not yet released, and the strategy enforces
  the current estimate (at least one, as a 32-bit integer).\<close>

theorem limiter_accounting:
  assumes "NewDefaultLimiter lops precise_ops now (Some lmt) minW maxW thr ws (Some (NewPreciseStrategy n)) lg reg = Inr l0"
    and "limiter_reach lops precise_ops l0 (l, rs)"
  shows "dl_inFlight l = count_reqs is_running rs
    \<and> precise_GetBusyCount (dl_strategy l) = count_reqs holds_token rs
    \<and> precise_GetLimit (dl_strategy l) = i32 (max 1 (limiter_EstimatedLimit lops l))"
proof -
  note new = precise_stack.new_limiter [OF assms(1) precise_idle precise_idle(2)]
  show ?thesis
    using precise_stack.accounted_reach [OF assms(2) new(1)] precise_stack.synced_reach [OF assms(2) new(2)]
    by (simp add: precise_stack.accounted_def precise_stack.synced_def precise_GetBusyCount_def precise_GetLimit_def
        limiter_EstimatedLimit_def)
qed

lemma precise_first_grant:
  assumes "NewDefaultLimiter lops precise_ops now (Some lmt) minW maxW thr ws (Some (NewPreciseStrategy n)) lg reg = Inr l0"
    and "0 < i32 (max 1 (EstimatedLimit lops lmt))"
  obtains ls l e where "limiter_Acquire precise_ops now' c l0 = (Some ls, l, e)"
  using assms
  by (auto simp: NewDefaultLimiter_def limiter_Acquire_def precise_ops_def precise_TryAcquire_def precise_SetLimit_def
      NewPreciseStrategy_simps Let_def max_def split: if_splits)

definition fixed_limiter :: "(fixed, precise) default_limiter" where
  "fixed_limiter =
     \<lparr>dl_limit = \<lparr>fx_limit = 5, fx_registry = EmptyMetricRegistry, fx_commonSampler = None\<rparr>,
      dl_strategy = precise_SetLimit 5 (NewPreciseStrategy 1), dl_minWindowTime = 1, dl_maxWindowTime = 1,
      dl_windowSize = 10, dl_minRTTThreshold = 1, dl_logger = None, dl_registry = EmptyMetricRegistry,
      dl_sample = NewDefaultImmutableSampleWindow 0, dl_inFlight = 0, dl_nextUpdateTime = 0\<rparr>"

lemma fixed_limiter_new:
  "NewDefaultLimiter fixed_ops precise_ops 0 (Some \<lparr>fx_limit = 5, fx_registry = EmptyMetricRegistry, fx_commonSampler = None\<rparr>)
     1 1 1 10 (Some (NewPreciseStrategy 1)) None EmptyMetricRegistry = Inr fixed_limiter"
  by (simp add: NewDefaultLimiter_def fixed_limiter_def fixed_ops_def precise_ops_def fixed_EstimatedLimit_def)

theorem limiter_accounting_witness:
  "\<exists>l rs. limiter_reach fixed_ops precise_ops fixed_limiter (l, rs) \<and> dl_inFlight l = 1 \<and> precise_GetLimit (dl_strategy l) = 5"
proof -
  have i: "i32 5 = 5" by (rule i32_id) (simp add: in_i32_def)
  obtain ls l e where acq: "limiter_Acquire precise_ops 0 [] fixed_limiter = (Some ls, l, e)"
    using precise_first_grant [OF fixed_limiter_new, of 0 "[]"] i by (auto simp: fixed_ops_def fixed_EstimatedLimit_def)
  have reach: "limiter_reach fixed_ops precise_ops fixed_limiter (l, [Running ls])" using acq by (rule reach_new_granted)
  have "dl_limit l = dl_limit fixed_limiter"
    using acq by (auto simp: limiter_Acquire_def Let_def split: if_splits prod.splits)
  then have "limiter_EstimatedLimit fixed_ops l = 5"
    by (simp add: limiter_EstimatedLimit_def fixed_ops_def fixed_EstimatedLimit_def fixed_limiter_def)
  then show ?thesis using limiter_accounting [OF fixed_limiter_new reach] reach i
    by (auto simp: count_reqs_def)
qed

text \<open>The parts of a limiter made with the defaults.\<close>

lemma default_vegas_inv:
  assumes "Log10_ok Log10"
  shows "vegas_inv 1000 (fst (NewDefaultVegasLimit Log10 (log10RootLookup Log10 env) rd name lg reg tags))" (is "vegas_inv 1000 ?v")
proof -
  have fl: "is_float (Fin 1)" using representable_of_int [of 1] pow2_le_huge [of 0] by simp
  have "mk (- 1) = Fin (- 1)" using mk_of_int [of "- 1"] by simp
  then have "NewVegasLimitWithRegistry Log10 (log10RootLookup Log10 env) rd name 20 None 1000 (Fin 1)
      None None None None None (- 1) lg reg tags = (?v, snd (NewDefaultVegasLimit Log10 (log10RootLookup Log10 env) rd name lg reg tags))"
    by (simp add: NewDefaultVegasLimit_def NewVegasLimitWithRegistry_def)
  then show ?thesis
    by (rule vegas_new_inv [OF _ assms]) (use fl in \<open>simp_all add: full_smoothing_def\<close>)
qed

lemma default_limiter_parts:
  assumes "NewDefaultLimiterWithDefaults Log10 table rd sops name s lg reg tags = Inr l0"
  shows "NewDefaultLimiter vegas_ops sops (timeNow rd) (Some (fst (NewDefaultVegasLimit Log10 table rd name lg reg tags)))
    1000000000 1000000000 100000 100 s lg reg = Inr l0"
  using assms by (simp add: NewDefaultLimiterWithDefaults_def defaultMinWindowTime_def defaultMaxWindowTime_def
      defaultMinRTTThreshold_def defaultWindowSize_def)

text \<open>C1: The default limiter end to end: created with its defaults (a Vegas limit) over the precise
  strategy, however requests arrive, complete and interleave and whatever their round-trip times, at
  most 1000 requests hold a token at any time, and the strategy enforces exactly the Vegas estimate,
  which is between 1 and 1000.\<close>

theorem default_limiter_bounded:
  assumes "NewDefaultLimiterWithDefaults Log10 (log10RootLookup Log10 env) rd precise_ops name (Some (NewPreciseStrategy n))
      lg reg tags = Inr l0"
    and "Log10_ok Log10" and "limiter_reach vegas_ops precise_ops l0 (l, rs)"
  shows "count_reqs holds_token rs \<le> 1000 \<and> precise_GetLimit (dl_strategy l) = vegas_EstimatedLimit (dl_limit l)
    \<and> 1 \<le> precise_GetLimit (dl_strategy l) \<and> precise_GetLimit (dl_strategy l) \<le> 1000"
proof -
  let ?v = "fst (NewDefaultVegasLimit Log10 (log10RootLookup Log10 env) rd name lg reg tags)"
  note new = default_limiter_parts [OF assms(1)]
  have inv: "vegas_inv 1000 ?v" by (rule default_vegas_inv [OF assms(2)])
  have ranged: "precise_vegas.ranged 1000 (l0, [])"
    using precise_vegas.new_ranged [OF new precise_idle precise_idle(2) inv] by simp
  have synced: "precise_stack.synced vegas_ops (l0, [])"
    using precise_stack.new_limiter(2) [OF new precise_idle precise_idle(2)] .
  have acc: "precise_stack.accounted (l, rs)"
    using precise_vegas.ranged_reach [OF assms(3) ranged] by (simp add: precise_vegas.ranged_def)
  have "p_inFlight (dl_strategy l) \<le> 1000"
    using precise_vegas.busy_reach [OF assms(3) ranged synced] by simp
  then show ?thesis
    using precise_vegas.reach_enforced [OF assms(3) ranged synced] acc
    by (simp add: precise_stack.accounted_def precise_GetLimit_def vegas_ops_def)
qed

theorem default_limiter_bounded_witness:
  "\<exists>l0 l rs. NewDefaultLimiterWithDefaults Log10_rounded (log10RootLookup Log10_rounded None) undefined precise_ops ''d''
      (Some (NewPreciseStrategy 10)) None NilRegistry [] = Inr l0
    \<and> limiter_reach vegas_ops precise_ops l0 (l, rs) \<and> precise_GetLimit (dl_strategy l) \<le> 1000"
proof -
  obtain l0 where new: "NewDefaultLimiterWithDefaults Log10_rounded (log10RootLookup Log10_rounded None) undefined precise_ops
      ''d'' (Some (NewPreciseStrategy 10)) None NilRegistry [] = Inr l0"
    by (simp add: NewDefaultLimiterWithDefaults_def NewDefaultLimiter_def defaultMinWindowTime_def defaultMaxWindowTime_def
        defaultWindowSize_def)
  have "limiter_reach vegas_ops precise_ops l0 (l0, [])" by (rule limiter_reach.start)
  then show ?thesis using default_limiter_bounded [OF new Log10_rounded_ok] new by blast
qed

text \<open>The default limiter protects its limit algorithm from round-trip times of zero: over the
  precise strategy and a Gradient2 limit in range, with a threshold of at least a nanosecond, the
  estimate stays in its range in every reachable state, and the strategy enforces it.\<close>

theorem default_limiter_gradient2:
  assumes "NewDefaultLimiter gradient2_ops precise_ops now (Some g) minW maxW thr ws (Some (NewPreciseStrategy n)) lg reg
      = Inr l0"
    and "gradient2_inv lo hi g" and "1 \<le> thr" and "hi < 2 ^ 31" and "limiter_reach gradient2_ops precise_ops l0 (l, rs)"
  shows "precise_GetLimit (dl_strategy l) = gradient2_EstimatedLimit (dl_limit l)
    \<and> lo \<le> precise_GetLimit (dl_strategy l) \<and> precise_GetLimit (dl_strategy l) \<le> hi \<and> count_reqs holds_token rs \<le> hi"
proof -
  have lo: "1 \<le> lo" using assms(2) by (simp add: gradient2_inv_def)
  have ranged: "precise_gradient2.ranged lo hi (l0, [])"
    using precise_gradient2.new_ranged [OF assms(1) precise_idle precise_idle(2) assms(2,3)] .
  have synced: "precise_stack.synced gradient2_ops (l0, [])"
    using precise_stack.new_limiter(2) [OF assms(1) precise_idle precise_idle(2)] .
  have acc: "precise_stack.accounted (l, rs)"
    using precise_gradient2.ranged_reach [OF assms(5) ranged] by (simp add: precise_gradient2.ranged_def)
  have "p_inFlight (dl_strategy l) \<le> hi"
    using precise_gradient2.busy_reach [OF assms(5) ranged synced lo assms(4)] by simp
  then show ?thesis
    using precise_gradient2.reach_enforced [OF assms(5) ranged synced lo assms(4)] acc
    by (simp add: precise_stack.accounted_def precise_GetLimit_def gradient2_ops_def)
qed

theorem default_limiter_gradient2_witness:
  "\<exists>g e l0. NewGradient2Limit ''g'' 20 200 20 (Some (\<lambda>_. Some 4)) (Fin 1) 600 None NilRegistry [] = Inr (g, e)
     \<and> NewDefaultLimiter gradient2_ops precise_ops 0 (Some g) 1 1 1 10 (Some (NewPreciseStrategy 1)) None NilRegistry = Inr l0
     \<and> precise_GetLimit (dl_strategy l0) \<le> 200"
proof -
  obtain g e where g: "NewGradient2Limit ''g'' 20 200 20 (Some (\<lambda>_. Some 4)) (Fin 1) 600 None NilRegistry [] = Inr (g, e)"
    by (simp add: NewGradient2Limit_def Let_def case_prod_beta)
  have "f64 20 = Fin 20" using f64_exact [of 20] by simp
  then have inv: "gradient2_inv 20 200 g"
    using g expavg_inv_New [of 600 10]
    by (auto simp: NewGradient2Limit_def gradient2_inv_def Let_def case_prod_beta in_i64_def)
  obtain l0 where l0: "NewDefaultLimiter gradient2_ops precise_ops 0 (Some g) 1 1 1 10 (Some (NewPreciseStrategy 1)) None
      NilRegistry = Inr l0" by (simp add: NewDefaultLimiter_def)
  then show ?thesis using default_limiter_gradient2 [OF l0 inv _ _ limiter_reach.start] g by auto
qed

text \<open>
  Run without interference, \<open>OnSuccess\<close>, \<open>OnIgnore\<close> and \<open>OnDropped\<close> of a running request's
  listener take the limiter through a sequence of steps of the concurrent model to the state they
  return, with the request finished. So what holds of every reachable state holds before and
  after every call of a handler.
\<close>

lemma handlers_are_steps:
  assumes "i < length rs" and "rs ! i = Running ls"
  shows "(limiter_step lops sops)\<^sup>*\<^sup>* (l, rs) (fst (listener_OnSuccess lops sops rd ls l), rs[i := Finished])
    \<and> (limiter_step lops sops)\<^sup>*\<^sup>* (l, rs) (listener_OnIgnore sops ls l, rs[i := Finished])
    \<and> (limiter_step lops sops)\<^sup>*\<^sup>* (l, rs) (fst (listener_OnDropped lops sops rd ls l), rs[i := Finished])"
proof -
  let ?S = "limiter_step lops sops" and ?f = "listener_free sops ls (listener_count l)"
  have counted: "?S (l, rs) (listener_count l, rs[i := Counted ls oc])" for oc
    using assms by (rule limiter_step.count)
  have freed: "?S\<^sup>*\<^sup>* (l, rs) (?f, rs[i := (if oc = Ignored then Finished else Freed ls oc)])" for oc
    using counted [of oc] limiter_step.free [of i "rs[i := Counted ls oc]" ls oc lops sops "listener_count l"] assms(1)
    by (simp add: converse_rtranclp_into_rtranclp)
  have update: "?S\<^sup>*\<^sup>* (l', rs[i := Measured ls cur]) (fst (listener_updateLimit lops sops rd ls t cur l'), rs[i := Finished])"
    for l' cur t
    using limiter_step.update [of i "rs[i := Measured ls cur]" ls cur lops sops rd t l' "fst (listener_updateLimit lops sops rd ls t cur l')"
        "snd (listener_updateLimit lops sops rd ls t cur l')"] assms(1)
    by auto
  obtain w l1 where ms: "listener_measureSuccess rd (timeNow rd) ls ?f = (w, l1)" by (metis prod.exhaust)
  have "?S (?f, rs[i := Freed ls Succeeded]) (l1, rs[i := (case w of None \<Rightarrow> Finished | Some cur \<Rightarrow> Measured ls cur)])"
    using limiter_step.measure [OF _ _ ms, of i "rs[i := Freed ls Succeeded]" lops sops] assms(1) by simp
  then have "?S\<^sup>*\<^sup>* (l, rs) (l1, rs[i := (case w of None \<Rightarrow> Finished | Some cur \<Rightarrow> Measured ls cur)])"
    using freed [of Succeeded] by (simp add: rtranclp.rtrancl_into_rtrancl)
  moreover have "fst (listener_OnSuccess lops sops rd ls l)
      = (case w of None \<Rightarrow> l1 | Some cur \<Rightarrow> fst (listener_updateLimit lops sops rd ls (timeNow rd) cur l1))"
    using ms by (simp add: listener_OnSuccess_def split: option.splits)
  ultimately have 1: "?S\<^sup>*\<^sup>* (l, rs) (fst (listener_OnSuccess lops sops rd ls l), rs[i := Finished])"
    using update [of l1 _ "timeNow rd"] by (cases w) (auto intro: rtranclp_trans)
  obtain cur l2 where md: "listener_measureDropped rd ls ?f = (cur, l2)" by (metis prod.exhaust)
  have "?S (?f, rs[i := Freed ls WasDropped]) (l2, rs[i := Measured ls cur])"
    using limiter_step.measure_drop [OF _ _ md, of i "rs[i := Freed ls WasDropped]" lops sops] assms(1) by simp
  then have "?S\<^sup>*\<^sup>* (l, rs) (l2, rs[i := Measured ls cur])"
    using freed [of WasDropped] by (simp add: rtranclp.rtrancl_into_rtrancl)
  then have 2: "?S\<^sup>*\<^sup>* (l, rs) (fst (listener_OnDropped lops sops rd ls l), rs[i := Finished])"
    using update [of l2 cur "timeNow rd"] md by (auto simp: listener_OnDropped_def intro: rtranclp_trans)
  show ?thesis using 1 2 freed [of Ignored] by (simp add: listener_OnIgnore_def)
qed

text \<open>C23: When and how the default limiter updates its limit: a completion updates it exactly when it ends after the
  listener's and the limiter's next update time, the window holds more completed requests than the window size, and its least
  round-trip time is below the largest 64-bit integer (which stands for a window without a positive round-trip
  time: with a threshold of zero, requests of no duration leave it so). The algorithm then gets the window's least round-trip time, its largest number in
  flight and whether any request was dropped, the strategy gets the new estimate, the window is replaced by an
  empty one (no request, no drop, nothing in flight, no round-trip time), and the next update is twice the least
  round-trip time later, but at least the minimal and at most the maximal window time. Nothing else changes.\<close>

theorem limiter_update_spec:
  assumes "listener_updateLimit lops sops rd ls endTime cur l = (l', e)"
    and "0 < dl_minWindowTime l" and "dl_minWindowTime l \<le> dl_maxWindowTime l"
    and "0 \<le> endTime" and "endTime + dl_maxWindowTime l < 2 ^ 63"
  shows "if endTime > ls_nextUpdateTime ls \<and> endTime > dl_nextUpdateTime l
           \<and> CandidateRTTNanoseconds cur < 2 ^ 63 - 1 \<and> SampleCount cur > dl_windowSize l
         then let lmt = fst (OnSample lops rd 0 (CandidateRTTNanoseconds cur) (MaxInFlight cur) (DidDrop cur) (dl_limit l))
           in \<exists>t. l' = l\<lparr>dl_limit := lmt, dl_strategy := SetLimit sops (EstimatedLimit lops lmt) (dl_strategy l),
                       dl_sample := \<lparr>sw_startTime = - 1, sw_minRTT = 2 ^ 63 - 1, sw_maxInFlight = 0, sw_sampleCount = 0,
                         sw_sum = 0, sw_didDrop = False\<rparr>,
                       dl_nextUpdateTime := t\<rparr>
             \<and> endTime + dl_minWindowTime l \<le> t \<and> t \<le> endTime + dl_maxWindowTime l
             \<and> (0 \<le> CandidateRTTNanoseconds cur \<and> CandidateRTTNanoseconds cur < 2 ^ 62 \<longrightarrow>
                  t = endTime + min (dl_maxWindowTime l) (max (dl_minWindowTime l) (2 * CandidateRTTNanoseconds cur)))
         else l' = l \<and> e = []"
proof -
  define m where "m = (let c = i64 (CandidateRTTNanoseconds cur * 2); c = (if dl_minWindowTime l > c then dl_minWindowTime l else c)
    in if c < dl_maxWindowTime l then c else dl_maxWindowTime l)"
  have m: "dl_minWindowTime l \<le> m" "m \<le> dl_maxWindowTime l" using assms(3) by (auto simp: m_def Let_def)
  then have "in_i64 (endTime + m)" using assms(2,4,5) unfolding in_i64_def by linarith
  then have time: "i64 (endTime + m) = endTime + m" by (rule i64_id)
  have exact: "m = min (dl_maxWindowTime l) (max (dl_minWindowTime l) (2 * CandidateRTTNanoseconds cur))"
    if "0 \<le> CandidateRTTNanoseconds cur \<and> CandidateRTTNanoseconds cur < 2 ^ 62"
  proof -
    have "i64 (CandidateRTTNanoseconds cur * 2) = CandidateRTTNanoseconds cur * 2"
      using that by (intro i64_id) (simp add: in_i64_def)
    then show ?thesis by (auto simp: m_def Let_def min_def max_def mult.commute)
  qed
  show ?thesis
  proof (cases "endTime > ls_nextUpdateTime ls \<and> endTime > dl_nextUpdateTime l \<and> limiter_isWindowReady cur l")
    case True
    let ?lmt = "fst (OnSample lops rd 0 (CandidateRTTNanoseconds cur) (MaxInFlight cur) (DidDrop cur) (dl_limit l))"
    have "l' = l\<lparr>dl_sample := NewImmutableSampleWindow (- 1) 0 0 0 0 False, dl_nextUpdateTime := i64 (endTime + m),
        dl_limit := ?lmt, dl_strategy := SetLimit sops (EstimatedLimit lops ?lmt) (dl_strategy l)\<rparr>"
      using assms(1) True unfolding listener_updateLimit_def m_def Let_def by (simp add: case_prod_beta)
    then have "l' = l\<lparr>dl_limit := ?lmt, dl_strategy := SetLimit sops (EstimatedLimit lops ?lmt) (dl_strategy l),
        dl_sample := \<lparr>sw_startTime = - 1, sw_minRTT = 2 ^ 63 - 1, sw_maxInFlight = 0, sw_sampleCount = 0,
          sw_sum = 0, sw_didDrop = False\<rparr>, dl_nextUpdateTime := endTime + m\<rparr>"
      unfolding time by (simp add: NewImmutableSampleWindow_def)
    then have "\<exists>t. l' = l\<lparr>dl_limit := ?lmt, dl_strategy := SetLimit sops (EstimatedLimit lops ?lmt) (dl_strategy l),
        dl_sample := \<lparr>sw_startTime = - 1, sw_minRTT = 2 ^ 63 - 1, sw_maxInFlight = 0, sw_sampleCount = 0,
          sw_sum = 0, sw_didDrop = False\<rparr>, dl_nextUpdateTime := t\<rparr>
      \<and> endTime + dl_minWindowTime l \<le> t \<and> t \<le> endTime + dl_maxWindowTime l
      \<and> (0 \<le> CandidateRTTNanoseconds cur \<and> CandidateRTTNanoseconds cur < 2 ^ 62 \<longrightarrow>
          t = endTime + min (dl_maxWindowTime l) (max (dl_minWindowTime l) (2 * CandidateRTTNanoseconds cur)))"
      using m exact by (intro exI [of _ "endTime + m"]) simp
    then show ?thesis using True unfolding limiter_isWindowReady_def Let_def by simp
  next
    case False
    then show ?thesis using assms(1) by (auto simp: listener_updateLimit_def limiter_isWindowReady_def)
  qed
qed

theorem limiter_update_spec_witness:
  "let cur = \<lparr>sw_startTime = 1, sw_minRTT = 3, sw_maxInFlight = 4, sw_sampleCount = 11, sw_sum = 40, sw_didDrop = True\<rparr>;
      l' = fst (listener_updateLimit fixed_ops precise_ops undefined
        \<lparr>ls_currentMaxInFlight = 1, ls_token = NewNotAcquiredStrategyToken 0, ls_startTime = 0, ls_minRTTThreshold = 1,
         ls_nextUpdateTime = 0\<rparr> 7 cur (fixed_limiter\<lparr>dl_sample := cur\<rparr>))
   in SampleCount (dl_sample l') = 0 \<and> \<not> DidDrop (dl_sample l') \<and> MaxInFlight (dl_sample l') = 0 \<and> dl_nextUpdateTime l' = 8"
proof -
  let ?cur = "\<lparr>sw_startTime = 1, sw_minRTT = 3, sw_maxInFlight = 4, sw_sampleCount = 11, sw_sum = 40, sw_didDrop = True\<rparr>"
  let ?ls = "\<lparr>ls_currentMaxInFlight = 1, ls_token = NewNotAcquiredStrategyToken 0, ls_startTime = 0, ls_minRTTThreshold = 1,
       ls_nextUpdateTime = 0\<rparr>"
  obtain l' e where run: "listener_updateLimit fixed_ops precise_ops undefined ?ls 7 ?cur (fixed_limiter\<lparr>dl_sample := ?cur\<rparr>) = (l', e)"
    by fastforce
  from limiter_update_spec [OF run] obtain t lmt s where "t = 8"
    "l' = fixed_limiter\<lparr>dl_sample := ?cur, dl_limit := lmt, dl_strategy := s,
      dl_sample := \<lparr>sw_startTime = - 1, sw_minRTT = 2 ^ 63 - 1, sw_maxInFlight = 0, sw_sampleCount = 0, sw_sum = 0, sw_didDrop = False\<rparr>,
      dl_nextUpdateTime := t\<rparr>"
    by (simp add: fixed_limiter_def CandidateRTTNanoseconds_def SampleCount_def Let_def)
  then show ?thesis unfolding Let_def run by (simp add: SampleCount_def DidDrop_def MaxInFlight_def)
qed

text \<open>Accounting per partition through the limiter: over the lookup strategy and any limit
  algorithm, however the callers interleave, every partition's counter is the number of requests that
  hold a token charged to it, and the strategy's counter their total.\<close>

theorem limiter_lookup_accounting:
  assumes "NewDefaultLimiter lops lookup_ops now (Some lmt) minW maxW thr ws (Some s) lg reg = Inr l0"
    and "lookup_inv s" and "lookup_BusyCount s = 0" and "limiter_reach lops lookup_ops l0 (l, rs)"
  shows "lookup_BusyCount (dl_strategy l) = count_reqs holds_token rs
    \<and> (\<forall>r. part_BusyCount (lk_store (dl_strategy l) r) = count_reqs (\<lambda>q. req_func q = Some r) rs)"
proof -
  have "pt_busy (lk_store s r) = 0" for r
    using assms(2,3) by (auto simp: lookup_inv_def lookup_BusyCount_def tokens_match_def)
  then have "lookup_stack.accounted (l0, [])"
    using lookup_stack.new_limiter(1) [OF assms(1,2)] assms(3) by (simp add: lookup_BusyCount_def)
  then show ?thesis using lookup_stack.accounted_reach [OF assms(4)]
    by (simp add: lookup_stack.accounted_def lookup_BusyCount_def part_BusyCount_def)
qed

theorem limiter_lookup_accounting_witness:
  "\<exists>l0. NewDefaultLimiter fixed_ops lookup_ops 0 (Some \<lparr>fx_limit = 5, fx_registry = EmptyMetricRegistry, fx_commonSampler = None\<rparr>)
     1 1 1 10 (Some half_strategy) None EmptyMetricRegistry = Inr l0 \<and> part_BusyCount (lk_store (dl_strategy l0) 0) = 0"
proof -
  obtain l0 where l0: "NewDefaultLimiter fixed_ops lookup_ops 0
      (Some \<lparr>fx_limit = 5, fx_registry = EmptyMetricRegistry, fx_commonSampler = None\<rparr>)
      1 1 1 10 (Some half_strategy) None EmptyMetricRegistry = Inr l0" by (simp add: NewDefaultLimiter_def)
  have "lookup_BusyCount half_strategy = 0" by (simp add: half_strategy_def lookup_BusyCount_def)
  then show ?thesis using limiter_lookup_accounting [OF l0 half_strategy_inv _ limiter_reach.start] l0
    by (simp add: count_reqs_def)
qed

end
