(* ===== verification/Limiter_Locked.thy ===== *)
theory Limiter_Locked
  imports Limiter_Default
begin

text \<open>
  The simple strategy under the default limiter's lock. \<open>SimpleStrategy.TryAcquire\<close> loads the number
  in flight, compares it and adds to it in three atomic operations, so callers that race can exceed the limit
  (\<open>Strategy_Simple\<close>). \<open>DefaultLimiter.Acquire\<close> (\<open>limiter/default.go\<close>) calls it with the limiter's mutex
  held, and changes of the limit hold the mutex too: only completions, which release their token
  before they take the mutex, run between the three operations. Here these are steps of their own.
\<close>

section \<open>Acquisitions in steps\<close>

text \<open>
  Where the holder of the mutex is in \<open>Acquire\<close>: it has loaded the number in flight, passed the comparison, or
  taken its token, which the limiter's counter does not show yet. \<open>Unlocked\<close>: no caller is in \<open>Acquire\<close>.
\<close>

datatype acquiring = Unlocked | InFlightLoaded int | CheckPassed | TokenTaken "unit token"

type_synonym 'l locked_callers = "('l, simple) default_limiter \<times> unit request list \<times> acquiring"

text \<open>The listener that \<open>Acquire\<close> builds once it has its token, and the limiter after it.\<close>

definition acquire_finish ::
    "int \<Rightarrow> unit token \<Rightarrow> ('l, simple) default_limiter \<Rightarrow> unit default_listener \<times> ('l, simple) default_limiter" where
  "acquire_finish now t l =
     (let n = i64 (dl_inFlight l + 1)
      in (\<lparr>ls_currentMaxInFlight = n, ls_token = t, ls_startTime = now, ls_minRTTThreshold = dl_minRTTThreshold l,
           ls_nextUpdateTime = dl_nextUpdateTime l\<rparr>, l\<lparr>dl_inFlight := n\<rparr>))"

definition acquire_add :: "('l, simple) default_limiter \<Rightarrow> unit token \<times> ('l, simple) default_limiter" where
  "acquire_add l =
     (let inFlight = i32 (s_inFlight (dl_strategy l) + 1)
      in (NewAcquiredStrategyToken inFlight (), l\<lparr>dl_strategy := (dl_strategy l)\<lparr>s_inFlight := inFlight\<rparr>\<rparr>))"

text \<open>
  A completion counts and releases without the mutex; it measures and updates the limit with it,
  when no caller is in \<open>Acquire\<close>. Those steps are the steps of \<open>limiter_step\<close> that add no request.
\<close>

inductive locked_step :: "'l limit_ops \<Rightarrow> 'l locked_callers \<Rightarrow> 'l locked_callers \<Rightarrow> bool"
  for lops :: "'l limit_ops" where
  load: "locked_step lops (l, rs, Unlocked) (l, rs, InFlightLoaded (s_inFlight (dl_strategy l)))"
| refuse: "v \<ge> s_limit (dl_strategy l) \<Longrightarrow> locked_step lops (l, rs, InFlightLoaded v) (l, rs, Unlocked)"
| pass: "\<not> v \<ge> s_limit (dl_strategy l) \<Longrightarrow> locked_step lops (l, rs, InFlightLoaded v) (l, rs, CheckPassed)"
| add: "acquire_add l = (t, l') \<Longrightarrow> locked_step lops (l, rs, CheckPassed) (l', rs, TokenTaken t)"
| finish: "acquire_finish now t l = (ls, l') \<Longrightarrow> locked_step lops (l, rs, TokenTaken t) (l', rs @ [Running ls], Unlocked)"
| count: "i < length rs \<Longrightarrow> rs ! i = Running ls \<Longrightarrow>
    locked_step lops (l, rs, a) (listener_count l, rs[i := Counted ls oc], a)"
| free: "i < length rs \<Longrightarrow> rs ! i = Counted ls oc \<Longrightarrow>
    locked_step lops (l, rs, a)
      (listener_free simple_ops ls l, rs[i := (if oc = Ignored then Finished else Freed ls oc)], a)"
| locked: "limiter_step lops simple_ops (l, rs) (l', rs') \<Longrightarrow> length rs' = length rs \<Longrightarrow>
    locked_step lops (l, rs, Unlocked) (l', rs', Unlocked)"

inductive locked_reach :: "'l limit_ops \<Rightarrow> ('l, simple) default_limiter \<Rightarrow> 'l locked_callers \<Rightarrow> bool"
  for lops :: "'l limit_ops" and l0 :: "('l, simple) default_limiter" where
  start: "locked_reach lops l0 (l0, [], Unlocked)"
| step: "locked_reach lops l0 st \<Longrightarrow> locked_step lops st st' \<Longrightarrow> locked_reach lops l0 st'"

lemma locked_reach_steps:
  assumes "locked_reach lops l0 st" and "(locked_step lops)\<^sup>*\<^sup>* st st'"
  shows "locked_reach lops l0 st'"
  using assms(2,1) by induction (auto intro: locked_reach.step)

text \<open>An acquisition that nothing interrupts is the one of the coarser model.\<close>

lemma uninterrupted_acquire:
  assumes "limiter_Acquire simple_ops now c l = (found, l', e)"
  shows "(locked_step lops)\<^sup>*\<^sup>* (l, rs, Unlocked) (l', case found of None \<Rightarrow> rs | Some ls \<Rightarrow> rs @ [Running ls], Unlocked)"
proof (cases "s_inFlight (dl_strategy l) \<ge> s_limit (dl_strategy l)")
  case True
  then have "found = None" "l' = l"
    using assms by (auto simp: limiter_Acquire_def simple_ops_def simple_TryAcquire_def Let_def)
  then show ?thesis using locked_step.load [of lops l rs] locked_step.refuse [OF True, of lops rs]
    by (simp add: converse_rtranclp_into_rtranclp)
next
  case False
  obtain t l1 where add: "acquire_add l = (t, l1)" by fastforce
  obtain ls l2 where fin: "acquire_finish now t l1 = (ls, l2)" by fastforce
  have "found = Some ls" "l' = l2" using assms False add fin
    by (auto simp: limiter_Acquire_def simple_ops_def simple_TryAcquire_def acquire_add_def acquire_finish_def Let_def)
  then show ?thesis
    using locked_step.load [of lops l rs] locked_step.pass [OF False, of lops rs] locked_step.add [OF add, of lops rs]
      locked_step.finish [OF fin, of lops rs]
    by (simp add: converse_rtranclp_into_rtranclp)
qed

section \<open>The bound\<close>

text \<open>The limiter as the completed acquisitions see it: without a token whose acquisition is not finished.\<close>

fun taken :: "acquiring \<Rightarrow> int" where
  "taken (TokenTaken t) = 1"
| "taken _ = 0"

definition settled :: "acquiring \<Rightarrow> ('l, simple) default_limiter \<Rightarrow> ('l, simple) default_limiter" where
  "settled a l = l\<lparr>dl_strategy := (dl_strategy l)\<lparr>s_inFlight := s_inFlight (dl_strategy l) - taken a\<rparr>\<rparr>"

lemma settled_simps [simp]:
  "dl_limit (settled a l) = dl_limit l" "dl_sample (settled a l) = dl_sample l"
  "dl_minRTTThreshold (settled a l) = dl_minRTTThreshold l" "dl_inFlight (settled a l) = dl_inFlight l"
  "s_inFlight (dl_strategy (settled a l)) = s_inFlight (dl_strategy l) - taken a"
  "s_limit (dl_strategy (settled a l)) = s_limit (dl_strategy l)"
  by (simp_all add: settled_def)

lemma settled_id: "taken a = 0 \<Longrightarrow> settled a l = l"
  by (simp add: settled_def)

text \<open>What the holder of the mutex knows: the number in flight has not grown since it was loaded.\<close>

fun holder_ok :: "acquiring \<Rightarrow> simple \<Rightarrow> bool" where
  "holder_ok Unlocked s = True"
| "holder_ok (InFlightLoaded v) s = (s_inFlight s \<le> v)"
| "holder_ok CheckPassed s = (s_inFlight s < s_limit s)"
| "holder_ok (TokenTaken t) s = (releaseFunc t = Some ())"

lemma holder_ok_release: "holder_ok a s \<Longrightarrow> holder_ok a (s\<lparr>s_inFlight := s_inFlight s - 1\<rparr>)"
  by (cases a) simp_all

locale locked_limiter = limiter_bounded simple_ops s_inFlight "\<lambda>s _. s_inFlight s" simple_inv s_limit lops I good lo hi
  for lops :: "'l limit_ops" and I good lo hi
begin

definition locked_ok :: "'l locked_callers \<Rightarrow> bool" where
  "locked_ok st \<longleftrightarrow> (case st of (l, rs, a) \<Rightarrow>
     ranged (settled a l, rs) \<and> synced (l, rs) \<and> s_limit (dl_strategy l) \<le> hi \<and> s_inFlight (dl_strategy l) \<le> hi
     \<and> holder_ok a (dl_strategy l))"

lemma synced_settled: "synced (settled a l, rs) = synced (l, rs)"
  by (simp add: synced_def)

lemma limit_in_range:
  assumes "I (dl_limit l)" and "synced (l, rs)" and "1 \<le> lo" and "hi < 2 ^ 31"
  shows "s_limit (dl_strategy l) = EstimatedLimit lops (dl_limit l)" and "lo \<le> s_limit (dl_strategy l)"
    and "s_limit (dl_strategy l) \<le> hi"
proof -
  have r: "lo \<le> EstimatedLimit lops (dl_limit l)" "EstimatedLimit lops (dl_limit l) \<le> hi"
    using estimate_range [OF assms(1)] by simp_all
  then have "i32 (max 1 (EstimatedLimit lops (dl_limit l))) = EstimatedLimit lops (dl_limit l)"
    using assms(3,4) by (subst i32_id) (auto simp: in_i32_def)
  then show "s_limit (dl_strategy l) = EstimatedLimit lops (dl_limit l)" using assms(2) by (simp add: synced_def)
  with r show "lo \<le> s_limit (dl_strategy l)" and "s_limit (dl_strategy l) \<le> hi" by simp_all
qed

lemma in_flight_nonneg: "locked_ok (l, rs, a) \<Longrightarrow> taken a \<le> s_inFlight (dl_strategy l)"
  by (auto simp: locked_ok_def ranged_def accounted_def count_reqs_def)

lemma locked_add:
  assumes "locked_ok (l, rs, CheckPassed)" and "acquire_add l = (t, l')" and "hi < 2 ^ 31"
  shows "locked_ok (l', rs, TokenTaken t)"
proof -
  have b: "s_inFlight (dl_strategy l) < s_limit (dl_strategy l)" "s_limit (dl_strategy l) \<le> hi"
    "0 \<le> s_inFlight (dl_strategy l)"
    using assms(1) in_flight_nonneg [OF assms(1)] by (simp_all add: locked_ok_def)
  then have "in_i32 (s_inFlight (dl_strategy l) + 1)" using assms(3) by (simp add: in_i32_def)
  then have i: "i32 (s_inFlight (dl_strategy l) + 1) = s_inFlight (dl_strategy l) + 1" by (rule i32_id)
  then have t: "releaseFunc t = Some ()"
    and l': "l' = l\<lparr>dl_strategy := (dl_strategy l)\<lparr>s_inFlight := s_inFlight (dl_strategy l) + 1\<rparr>\<rparr>"
    using assms(2) by (auto simp: acquire_add_def Let_def)
  have "settled (TokenTaken t) l' = settled CheckPassed l" by (simp add: settled_def l')
  then show ?thesis using assms(1) b by (simp add: locked_ok_def t) (simp add: synced_def l')
qed

lemma locked_finish:
  assumes "locked_ok (l, rs, TokenTaken t)" and "acquire_finish now t l = (ls, l')" and "hi < 2 ^ 31"
  shows "locked_ok (l', rs @ [Running ls], Unlocked)"
proof -
  let ?v = "settled (TokenTaken t) l"
  have acc: "accounted (?v, rs)" and ranged: "ranged (?v, rs)" using assms(1) by (simp_all add: locked_ok_def ranged_def)
  have t: "releaseFunc t = Some ()" using assms(1) by (simp add: locked_ok_def)
  note n = inFlight_i64(1) [OF acc]
  have l': "l' = l\<lparr>dl_inFlight := dl_inFlight l + 1\<rparr>" and ls: "ls_token ls = t"
      "ls_currentMaxInFlight ls = dl_inFlight l + 1" "ls_minRTTThreshold ls = dl_minRTTThreshold l"
    using assms(2) n by (auto simp: acquire_finish_def Let_def)
  have bounds: "count_reqs holds_token rs = s_inFlight (dl_strategy l) - 1" "s_inFlight (dl_strategy l) \<le> hi"
    using acc assms(1) by (simp_all add: accounted_def locked_ok_def)
  have inv: "simple_inv (dl_strategy l)"
    using acc in_flight_nonneg [OF assms(1)] bounds(2) assms(3)
    by (auto simp: accounted_def simple_inv_def precise_inv_def to_precise_def settled_def in_i32_def)
  have "req_func (Running ls) = Some ()" using ls t by simp
  then have acc': "accounted (l', rs @ [Running ls])"
    using acc inv bounds assms(3) by (auto simp: accounted_def l')
  have "request_ok (Running ls)"
    using ls ranged acc running_le_holds [of rs] bounds assms(3) by (simp add: ranged_def accounted_def)
  then have "ranged (l', rs @ [Running ls])" using ranged acc' by (auto simp: ranged_def l')
  moreover have "synced (l', rs @ [Running ls])" using assms(1) by (simp add: locked_ok_def synced_def l')
  ultimately show ?thesis using assms(1) by (simp add: locked_ok_def settled_id l')
qed

lemma locked_count:
  assumes "locked_ok (l, rs, a)" and "i < length rs" and "rs ! i = Running ls"
  shows "locked_ok (listener_count l, rs[i := Counted ls oc], a)"
proof -
  have step: "limiter_step lops simple_ops (settled a l, rs) (listener_count (settled a l), rs[i := Counted ls oc])"
    using assms(2,3) by (rule limiter_step.count)
  have "settled a (listener_count l) = listener_count (settled a l)" by (simp add: settled_def listener_count_def)
  then have "ranged (settled a (listener_count l), rs[i := Counted ls oc])"
    using ranged_step [OF _ step] assms(1) by (simp add: locked_ok_def)
  moreover have "synced (listener_count l, rs[i := Counted ls oc])"
    using assms(1) by (simp add: locked_ok_def synced_def listener_count_def)
  ultimately show ?thesis using assms(1) by (simp add: locked_ok_def listener_count_def)
qed

lemma locked_free:
  assumes "locked_ok (l, rs, a)" and "i < length rs" and "rs ! i = Counted ls oc" and "hi < 2 ^ 31"
  shows "locked_ok (listener_free simple_ops ls l, rs[i := (if oc = Ignored then Finished else Freed ls oc)], a)"
proof -
  let ?rs = "rs[i := (if oc = Ignored then Finished else Freed ls oc)]" and ?s = "dl_strategy l"
  have acc: "accounted (settled a l, rs)" and ranged: "ranged (settled a l, rs)" and hold: "holder_ok a ?s"
    using assms(1) by (simp_all add: locked_ok_def ranged_def)
  have "holds_token (rs ! i)" using assms(3) by simp
  then have f: "releaseFunc (ls_token ls) = Some ()" and pos: "0 < count_reqs holds_token rs"
    using acc assms(2,3) count_reqs_pos [OF assms(2), of holds_token] nth_mem [OF assms(2)]
    by (force simp: accounted_def)+
  have b: "0 < s_inFlight ?s - taken a" "s_inFlight ?s \<le> hi" "0 \<le> taken a"
    using acc pos assms(1) by (auto simp: accounted_def locked_ok_def elim: taken.elims) (cases a; simp)
  have rel: "i32 (x + -1) = x - 1" if "0 < x" "x \<le> hi" for x
    using that assms(4) by (subst i32_id) (auto simp: in_i32_def)
  have free: "listener_free simple_ops ls l = l\<lparr>dl_strategy := ?s\<lparr>s_inFlight := s_inFlight ?s - 1\<rparr>\<rparr>"
    and free': "listener_free simple_ops ls (settled a l)
      = l\<lparr>dl_strategy := ?s\<lparr>s_inFlight := s_inFlight ?s - taken a - 1\<rparr>\<rparr>"
    using rel [of "s_inFlight ?s"] rel [of "s_inFlight ?s - taken a"] b
    by (simp_all add: listener_free_def token_Release_def f simple_ops_def simple_release_def) (simp_all add: settled_def)
  have "settled a (listener_free simple_ops ls l) = listener_free simple_ops ls (settled a l)"
    unfolding free free' by (simp add: settled_def)
  then have "ranged (settled a (listener_free simple_ops ls l), ?rs)"
    using ranged_step [OF ranged limiter_step.free [OF assms(2,3)]] by simp
  moreover have "synced (listener_free simple_ops ls l, ?rs)"
    using assms(1) by (simp add: locked_ok_def synced_def free)
  ultimately show ?thesis using assms(1) b holder_ok_release [OF hold] by (simp add: locked_ok_def free)
qed

lemma locked_others:
  assumes "locked_ok (l, rs, Unlocked)" and "limiter_step lops simple_ops (l, rs) (l', rs')" and "length rs' = length rs"
    and "1 \<le> lo" and "hi < 2 ^ 31"
  shows "locked_ok (l', rs', Unlocked)"
proof -
  have ranged: "ranged (l', rs')" and synced: "synced (l', rs')"
    using ranged_step [OF _ assms(2)] synced_step [OF _ assms(2)] assms(1) by (simp_all add: locked_ok_def settled_id)
  have "count_reqs holds_token rs' \<le> count_reqs holds_token rs"
    using assms(2)
  proof (cases rule: limiter_step.cases)
    case granted
    then show ?thesis using assms(3) by simp
  qed (auto simp: count_reqs_update split: option.split)
  then have "s_inFlight (dl_strategy l') \<le> hi"
    using ranged assms(1) by (simp add: locked_ok_def settled_id ranged_def accounted_def)
  then show ?thesis using ranged synced limit_in_range(3) [OF _ synced assms(4,5)]
    by (simp add: locked_ok_def settled_id ranged_def)
qed

lemma locked_ok_step:
  assumes "locked_step lops st st'" and "locked_ok st" and "1 \<le> lo" and "hi < 2 ^ 31"
  shows "locked_ok st'"
  using assms(1,2)
proof (induction rule: locked_step.induct)
  case (locked l rs l' rs')
  then show ?case using locked_others assms(3,4) by blast
next
  case (add l t l' rs)
  then show ?case using locked_add assms(4) by blast
next
  case (finish now t l ls l' rs)
  then show ?case using locked_finish assms(4) by blast
next
  case (count i rs ls l a oc)
  then show ?case using locked_count by blast
next
  case (free i rs ls oc l a)
  then show ?case using locked_free assms(4) by blast
qed (simp_all add: locked_ok_def settled_id)

lemma locked_ok_reach:
  assumes "locked_reach lops l0 st" and "ranged (l0, [])" and "synced (l0, [])" and "1 \<le> lo" and "hi < 2 ^ 31"
  shows "locked_ok st"
  using assms(1)
proof (induction rule: locked_reach.induct)
  case start
  have "s_limit (dl_strategy l0) \<le> hi" "lo \<le> s_limit (dl_strategy l0)"
    using limit_in_range [OF _ assms(3-5)] assms(2) by (simp_all add: ranged_def)
  then show ?case using assms(2-5) by (simp add: locked_ok_def settled_id ranged_def accounted_def count_reqs_def)
next
  case (step st st')
  then show ?case using locked_ok_step assms(4,5) by blast
qed

end

interpretation simple_vegas: locked_limiter vegas_ops "vegas_inv hi" "\<lambda>_. True" 1 hi for hi
  by unfold_locales simp_all

lemma simple_idle: "simple_inv (NewSimpleStrategy n)" "s_inFlight (NewSimpleStrategy n) = 0"
proof -
  show "simple_inv (NewSimpleStrategy n)" using precise_idle(1) [of n] by (simp add: simple_inv_def simple_sim_New)
  show "s_inFlight (NewSimpleStrategy n) = 0"
    using arg_cong [OF simple_sim_New [of n], of p_inFlight] precise_idle(2) by (simp add: to_precise_def)
qed

section \<open>Properties\<close>

text \<open>The mutex hides the race of the simple strategy: a limiter with the default Vegas limit over the simple
  strategy, as the HTTP and gRPC interceptors create it, never has more than 1000 tokens out, when the
  three atomic operations of an acquisition interleave with completions in any way; its strategy
  enforces the Vegas estimate, and its counter is the number of tokens, the one just being taken included.\<close>

lemma default_limiter_simple:
  assumes "NewDefaultLimiterWithDefaults Log10 (log10RootLookup Log10 env) rd simple_ops name (Some (NewSimpleStrategy n))
      lg reg tags = Inr l0"
    and "Log10_ok Log10" and "locked_reach vegas_ops l0 (l, rs, a)"
  shows "simple_GetBusyCount (dl_strategy l) = count_reqs holds_token rs + taken a
    \<and> simple_GetBusyCount (dl_strategy l) \<le> 1000
    \<and> simple_GetLimit (dl_strategy l) = vegas_EstimatedLimit (dl_limit l)
    \<and> dl_inFlight l = count_reqs is_running rs"
proof -
  let ?v = "fst (NewDefaultVegasLimit Log10 (log10RootLookup Log10 env) rd name lg reg tags)"
  note new = default_limiter_parts [OF assms(1)]
  have "simple_vegas.ranged 1000 (l0, [])"
    using simple_vegas.new_ranged [OF new simple_idle simple_idle(2) default_vegas_inv [OF assms(2)]] by simp
  then have ok: "simple_vegas.locked_ok 1000 (l, rs, a)"
    using simple_vegas.locked_ok_reach [OF assms(3) _ simple_stack.new_limiter(2) [OF new simple_idle simple_idle(2)]] by simp
  then have acc: "simple_stack.accounted (settled a l, rs)" and I: "vegas_inv 1000 (dl_limit l)"
    and synced: "simple_stack.synced vegas_ops (l, rs)"
    by (simp_all add: simple_vegas.locked_ok_def simple_vegas.ranged_def)
  have "s_limit (dl_strategy l) = vegas_EstimatedLimit (dl_limit l)"
    using simple_vegas.limit_in_range(1) [OF I synced] by (simp add: vegas_ops_def)
  then show ?thesis using acc ok
    by (simp add: simple_stack.accounted_def simple_vegas.locked_ok_def simple_GetBusyCount_def simple_GetLimit_def)
qed

text \<open>
  A run in which a completion releases its token between the load and the addition of the second
  acquisition, which goes on with the number it loaded.
\<close>

lemma released_while_acquiring:
  assumes "NewDefaultLimiterWithDefaults Log10_rounded (log10RootLookup Log10_rounded None) rd simple_ops name
      (Some (NewSimpleStrategy n)) lg reg tags = Inr l0"
  obtains l t where "locked_reach vegas_ops l0 (l, [Finished], TokenTaken t)"
proof -
  note new = assms
  have "dl_limit l0 = fst (NewDefaultVegasLimit Log10_rounded (log10RootLookup Log10_rounded None) rd name lg reg tags)"
    using default_limiter_parts [OF new] by (auto simp: NewDefaultLimiter_def split: if_splits)
  then have "EstimatedLimit vegas_ops (dl_limit l0) = f2i (f64 20)"
    by (simp add: NewDefaultVegasLimit_def NewVegasLimitWithRegistry_def vegas_ops_def vegas_EstimatedLimit_def Let_def
        case_prod_beta)
  then have est: "s_limit (dl_strategy l0) = i32 (max 1 (f2i (f64 20)))"
    using simple_stack.new_limiter(2) [OF default_limiter_parts [OF new] simple_idle simple_idle(2)]
    by (simp add: simple_stack.synced_def)
  have lmt: "s_limit (dl_strategy l0) = 20" using est by (simp add: f2i_f64 i32_def)
  have idle: "s_inFlight (dl_strategy l0) = 0"
    using locked_reach.start [of vegas_ops l0] default_limiter_simple [OF new Log10_rounded_ok]
    by (fastforce simp: simple_GetBusyCount_def count_reqs_def)
  obtain ls l1 e where acq: "limiter_Acquire simple_ops 0 [] l0 = (Some ls, l1, e)"
    and f: "releaseFunc (ls_token ls) = Some ()" and l1: "s_inFlight (dl_strategy l1) = 1" "s_limit (dl_strategy l1) = 20"
    using lmt idle by (auto simp: limiter_Acquire_def simple_ops_def simple_TryAcquire_def Let_def i32_def)
  let ?l2 = "listener_count l1" and ?l3 = "listener_free simple_ops ls (listener_count l1)"
  obtain t l4 where add: "acquire_add ?l3 = (t, l4)" by fastforce
  note rtranclp.rtrancl_into_rtrancl [trans]
  have "(locked_step vegas_ops)\<^sup>*\<^sup>* (l0, [], Unlocked) (l1, [Running ls], Unlocked)"
    using uninterrupted_acquire [OF acq, of vegas_ops "[]"] by simp
  also have "locked_step vegas_ops (l1, [Running ls], Unlocked) (l1, [Running ls], InFlightLoaded 1)"
    using locked_step.load [of vegas_ops l1] l1 by simp
  also have "locked_step vegas_ops (l1, [Running ls], InFlightLoaded 1) (?l2, [Counted ls Ignored], InFlightLoaded 1)"
    using locked_step.count [of 0 "[Running ls]" ls vegas_ops l1 "InFlightLoaded 1" Ignored] by simp
  also have "locked_step vegas_ops (?l2, [Counted ls Ignored], InFlightLoaded 1) (?l3, [Finished], InFlightLoaded 1)"
    using locked_step.free [of 0 "[Counted ls Ignored]" ls Ignored vegas_ops ?l2 "InFlightLoaded 1"] by simp
  also have "locked_step vegas_ops (?l3, [Finished], InFlightLoaded 1) (?l3, [Finished], CheckPassed)"
    using l1 by (intro locked_step.pass)
      (simp add: listener_free_def listener_count_def token_Release_def f simple_ops_def simple_release_def)
  also have "locked_step vegas_ops (?l3, [Finished], CheckPassed) (l4, [Finished], TokenTaken t)"
    by (rule locked_step.add [OF add])
  finally have reach: "locked_reach vegas_ops l0 (l4, [Finished], TokenTaken t)"
    by (rule locked_reach_steps [OF locked_reach.start])
  then show ?thesis by (rule that)
qed

end
