(* ===== verification/Limit_Gradient.thy ===== *)
theory Limit_Gradient
  imports Limit_Gradient2 Limit_Vegas
begin

text \<open>
  \<open>limit/gradient.go\<close>: the limit that follows the gradient of the round-trip time against its
  minimum, with a periodic probe for a new minimum. The queue-size function and \<open>rand.Intn\<close> may
  panic, so processing a sample is an \<open>option\<close>. Every operation holds the mutex.
\<close>

record gradient =
  gr_estimatedLimit :: float64
  gr_maxLimit :: int
  gr_minLimit :: int
  gr_queueSizeFunc :: "int \<Rightarrow> int option"
  gr_smoothing :: float64
  gr_rttTolerance :: float64
  gr_probeInterval :: int
  gr_resetRTTCounter :: int
  gr_rttNoLoadMeasurement :: measurement
  gr_listeners :: "nat list"
  gr_logger :: logger
  gr_registry :: registry
  gr_commonSampler :: "common_sampler option"
  gr_minRTTSampleListener :: sample_listener
  gr_minWindowRTTSampleListener :: sample_listener
  gr_queueSizeSampleListener :: sample_listener

text \<open>\<open>rand.Intn(n)\<close> panics unless \<open>n\<close> is positive.\<close>

definition nextProbeCountdown :: "rand \<Rightarrow> int \<Rightarrow> int option" where
  "nextProbeCountdown rd probeInterval =
     (if probeInterval = ProbeDisabled then Some ProbeDisabled
      else if probeInterval \<le> 0 then None
      else Some (i64 (probeInterval + randIntn rd probeInterval)))"

text \<open>\<open>table\<close> holds the precomputed square roots of the default queue-size function.\<close>

definition NewGradientLimitWithRegistry ::
    "int list \<Rightarrow> rand \<Rightarrow> string \<Rightarrow> int \<Rightarrow> int \<Rightarrow> int \<Rightarrow> float64 \<Rightarrow> (int \<Rightarrow> int option) option \<Rightarrow> float64 \<Rightarrow> int
     \<Rightarrow> logger option \<Rightarrow> registry \<Rightarrow> string list \<Rightarrow> (gradient \<times> effect list) option" where
  "NewGradientLimitWithRegistry table rd name initialLimit minLimit maxConcurrency smoothing queueSizeFunc
     rttTolerance probeInterval logger registry tags =
   (let initialLimit = (if initialLimit \<le> 0 then 50 else initialLimit);
        minLimit = (if minLimit < 1 then 1 else minLimit);
        maxConcurrency = (if maxConcurrency \<le> 0 then 1000 else maxConcurrency);
        smoothing = (if fless smoothing (lit 0) \<or> fless (lit 1) smoothing then lit (2 / 10) else smoothing);
        rttTolerance = (if fless rttTolerance (lit 0) then lit 2 else rttTolerance);
        probeInterval = (if probeInterval = 0 then 1000 else probeInterval);
        queueSizeFunc = (case queueSizeFunc of None \<Rightarrow> SqrtRootFunction table 4 | Some f \<Rightarrow> f);
        logger = (case logger of None \<Rightarrow> NoopLimitLogger | Some g \<Rightarrow> g);
        registry = registry_or_empty registry
    in case nextProbeCountdown rd probeInterval of
         None \<Rightarrow> None
       | Some counter \<Rightarrow>
           (let (minL, e1) = RegisterDistribution registry (PrefixMetricWithName MetricMinRTT name) tags;
                (winL, e2) = RegisterDistribution registry (PrefixMetricWithName MetricWindowMinRTT name) tags;
                (queueL, e3) = RegisterDistribution registry (PrefixMetricWithName MetricWindowQueueSize name) tags;
                (sampler, e4) = NewCommonMetricSamplerOrNil registry name tags
            in Some (\<lparr>gr_estimatedLimit = f64 initialLimit, gr_maxLimit = maxConcurrency, gr_minLimit = minLimit,
                      gr_queueSizeFunc = queueSizeFunc, gr_smoothing = smoothing, gr_rttTolerance = rttTolerance,
                      gr_probeInterval = probeInterval, gr_resetRTTCounter = counter,
                      gr_rttNoLoadMeasurement = Minimum minimum_zero, gr_listeners = [], gr_logger = logger,
                      gr_registry = registry, gr_commonSampler = sampler, gr_minRTTSampleListener = minL,
                      gr_minWindowRTTSampleListener = winL, gr_queueSizeSampleListener = queueL\<rparr>,
                     e1 @ e2 @ e3 @ e4)))"

definition gradient_EstimatedLimit :: "gradient \<Rightarrow> int" where
  "gradient_EstimatedLimit l = f2i (gr_estimatedLimit l)"

definition gradient_RTTNoLoad :: "gradient \<Rightarrow> int" where
  "gradient_RTTNoLoad l = f2i (meas_Get (gr_rttNoLoadMeasurement l))"

definition gradient_NotifyOnChange :: "nat \<Rightarrow> gradient \<Rightarrow> gradient" where
  "gradient_NotifyOnChange consumer l = l\<lparr>gr_listeners := gr_listeners l @ [consumer]\<rparr>"

definition gradient_notifyListeners :: "float64 \<Rightarrow> gradient \<Rightarrow> effect list" where
  "gradient_notifyListeners newLimit l = notify_all (gr_listeners l) (f2i newLimit)"

text \<open>The part of \<open>OnSample\<close> after the probe: the new estimate, or \<open>None\<close> when it returns early.\<close>

definition gradient_slope :: "int \<Rightarrow> int \<Rightarrow> gradient \<Rightarrow> float64" where
  "gradient_slope rttNoLoad rtt l =
     fmax (lit (1 / 2)) (fmin (lit 1) (fdiv (fmul (gr_rttTolerance l) (f64 rttNoLoad)) (f64 rtt)))"

definition gradient_newLimit :: "float64 \<Rightarrow> int \<Rightarrow> int \<Rightarrow> bool \<Rightarrow> gradient \<Rightarrow> float64 option" where
  "gradient_newLimit slope queueSize inFlight didDrop l =
     (if \<not> didDrop \<and> fless (f64 inFlight) (fdiv (gr_estimatedLimit l) (lit 2)) then None
      else let newLimit = (if didDrop then fdiv (gr_estimatedLimit l) (lit 2)
                           else fadd (fmul (gr_estimatedLimit l) slope) (f64 queueSize));
               newLimit = (if fless newLimit (gr_estimatedLimit l)
                           then fmax (f64 (gr_minLimit l))
                                  (fadd (fmul (gr_estimatedLimit l) (fsub (lit 1) (gr_smoothing l)))
                                        (fmul (gr_smoothing l) newLimit))
                           else newLimit)
           in Some (fmax (f64 queueSize) (fmin (f64 (gr_maxLimit l)) newLimit)))"

definition gradient_update ::
    "int \<Rightarrow> int \<Rightarrow> int \<Rightarrow> bool \<Rightarrow> gradient \<Rightarrow> gradient \<times> effect list" where
  "gradient_update queueSize rtt inFlight didDrop l =
     (let (added, m) = meas_Add (f64 rtt) (gr_rttNoLoadMeasurement l);
          rttNoLoad = f2i (fst added);
          l = l\<lparr>gr_rttNoLoadMeasurement := m\<rparr>;
          e1 = AddSample (gr_minRTTSampleListener l) (f64 rttNoLoad);
          slope = gradient_slope rttNoLoad rtt l
      in case gradient_newLimit slope queueSize inFlight didDrop l of
           None \<Rightarrow> (l, e1)
         | Some newLimit \<Rightarrow>
             (let e2 = (if f2i newLimit \<noteq> f2i (gr_estimatedLimit l) \<and> logger_IsDebugEnabled (gr_logger l)
                        then logger_Debugf (gr_logger l)
                          ''new limit=%d, minRtt=%d ms, winRtt=%d ms, queueSize=%d, gradient=%0.4f, resetCounter=%d''
                          [LogInt (f2i newLimit), LogInt (quot rttNoLoad 1000000), LogInt (quot rtt 1000000),
                           LogInt queueSize, LogFloat slope, LogInt (gr_resetRTTCounter l)]
                        else []);
                  l' = l\<lparr>gr_estimatedLimit := newLimit\<rparr>
              in (l', e1 @ e2 @ gradient_notifyListeners (gr_estimatedLimit l') l')))"

definition gradient_OnSample ::
    "rand \<Rightarrow> int \<Rightarrow> int \<Rightarrow> int \<Rightarrow> bool \<Rightarrow> gradient \<Rightarrow> (gradient \<times> effect list) option" where
  "gradient_OnSample rd startTime rtt inFlight didDrop l =
     (let e1 = Sample (gr_commonSampler l) rtt inFlight didDrop
               @ AddSample (gr_minWindowRTTSampleListener l) (f64 rtt)
      in case gr_queueSizeFunc l (f2i (gr_estimatedLimit l)) of
           None \<Rightarrow> None
         | Some queueSize \<Rightarrow>
             (let e2 = e1 @ AddSample (gr_queueSizeSampleListener l) (f64 queueSize);
                  l = (if gr_probeInterval l \<noteq> ProbeDisabled
                       then l\<lparr>gr_resetRTTCounter := i64 (gr_resetRTTCounter l - 1)\<rparr> else l)
              in if gr_probeInterval l \<noteq> ProbeDisabled \<and> gr_resetRTTCounter l \<le> 0
                 then (case nextProbeCountdown rd (gr_probeInterval l) of
                         None \<Rightarrow> None
                       | Some counter \<Rightarrow>
                           (let l' = l\<lparr>gr_resetRTTCounter := counter,
                                       gr_estimatedLimit := fmax (f64 (gr_minLimit l)) (f64 queueSize),
                                       gr_rttNoLoadMeasurement := meas_Reset (gr_rttNoLoadMeasurement l)\<rparr>
                            in Some (l', e2 @ logger_Debugf (gr_logger l') ''probe minRTT limit=%d''
                                              [LogInt (f2i (gr_estimatedLimit l'))]
                                         @ gradient_notifyListeners (gr_estimatedLimit l') l')))
                 else (case gradient_update queueSize rtt inFlight didDrop l of (l', e3) \<Rightarrow> Some (l', e2 @ e3))))"

definition gradient_ops :: "gradient limit_ops" where
  "gradient_ops = \<lparr>EstimatedLimit = gradient_EstimatedLimit, NotifyOnChange = gradient_NotifyOnChange,
     OnSample = (\<lambda>rd st rtt infl d l. case gradient_OnSample rd st rtt infl d l of None \<Rightarrow> (l, []) | Some r \<Rightarrow> r)\<rparr>"

section \<open>The range of the limit\<close>

text \<open>
  \<open>q\<close> bounds the queue sizes. The lower bound is the smallest of the initial, minimum and
  maximum limit and the upper bound the largest of them and \<open>q\<close>: nothing orders the three.
\<close>

definition gradient_inv :: "int \<Rightarrow> int \<Rightarrow> gradient \<Rightarrow> bool" where
  "gradient_inv lo hi l \<longleftrightarrow> 1 \<le> lo \<and> hi \<le> 2 ^ 52 \<and> lo \<le> gr_minLimit l \<and> gr_minLimit l \<le> hi
     \<and> lo \<le> gr_maxLimit l \<and> gr_maxLimit l \<le> hi
     \<and> (gr_probeInterval l = ProbeDisabled \<or> 1 \<le> gr_probeInterval l)
     \<and> (\<exists>x. gr_estimatedLimit l = Fin x \<and> of_int lo \<le> x \<and> x \<le> of_int hi)
     \<and> (\<exists>s. gr_smoothing l = Fin s \<and> 0 \<le> s \<and> s \<le> 1)
     \<and> (\<exists>t. gr_rttTolerance l = Fin t \<and> 0 \<le> t \<and> t \<le> 2 ^ 52)
     \<and> (\<forall>n. lo \<le> n \<and> n \<le> hi \<longrightarrow> (\<exists>q. gr_queueSizeFunc l n = Some q \<and> 0 \<le> q \<and> q \<le> hi))
     \<and> (\<exists>m v. gr_rttNoLoadMeasurement l = Minimum m \<and> mn_value m = Fin v \<and> 0 \<le> v \<and> v \<le> 2 ^ 63)"

lemma gradient_slope_range:
  assumes "gr_rttTolerance l = Fin t" and "0 \<le> t" and "t \<le> 2 ^ 52" and "in_i64 noload" and "1 \<le> rtt" and "in_i64 rtt"
  obtains g where "gradient_slope noload rtt l = Fin g" and "1 / 2 \<le> g" and "g \<le> 1"
proof -
  obtain n where n: "f64 noload = Fin n" "\<bar>n\<bar> \<le> 2 ^ 63" using f64_in_i64 [OF assms(4)] by blast
  obtain r where r: "f64 rtt = Fin r" "1 \<le> r" using f64_in_i64 [OF assms(6)] assms(5) by metis
  have "\<bar>t * n\<bar> \<le> 2 ^ 52 * 2 ^ 63" using assms(2,3) n(2) by (intro abs_prod_le) simp_all
  then have m: "mk (t * n) = Fin (rnd (t * n)) \<and> \<bar>rnd (t * n)\<bar> \<le> 2 ^ 115" by (intro mk_bounded) simp_all
  have "fdiv (fmul (Fin t) (Fin n)) (Fin r) \<noteq> NaN" using m r(2) by simp
  then obtain g where "fmax (Fin (1 / 2)) (fmin (Fin 1) (fdiv (fmul (Fin t) (Fin n)) (Fin r))) = Fin g" "1 / 2 \<le> g" "g \<le> 1"
    by (rule clamp_Fin [where lo = "1 / 2" and hi = 1]) (simp_all del: fdiv.simps fmul.simps)
  then show thesis using that by (simp add: gradient_slope_def assms(1) n(1) r(1) lit_half del: fdiv.simps fmul.simps)
qed

lemma gradient_newLimit_range:
  assumes inv: "gradient_inv lo hi l" and g: "1 / 2 \<le> g" "g \<le> 1" and q: "0 \<le> q" "q \<le> hi"
    and new: "gradient_newLimit (Fin g) q infl d l = Some v"
  obtains x where "v = Fin x" and "of_int lo \<le> x" and "x \<le> of_int hi"
proof -
  obtain x where x: "gr_estimatedLimit l = Fin x" "of_int lo \<le> x" "x \<le> of_int hi"
    using inv by (auto simp: gradient_inv_def)
  obtain c where c: "gr_smoothing l = Fin c" "0 \<le> c" "c \<le> 1" using inv by (auto simp: gradient_inv_def)
  have b: "1 \<le> lo" "hi \<le> 2 ^ 52" "lo \<le> gr_minLimit l" "gr_minLimit l \<le> hi" "lo \<le> gr_maxLimit l" "gr_maxLimit l \<le> hi"
    using inv by (auto simp: gradient_inv_def)
  have "of_int hi \<le> (of_int (2 ^ 52) :: real)" using b(2) by (simp only: of_int_le_iff)
  moreover have lo1: "1 \<le> (of_int lo :: real)" using b(1) by simp
  ultimately have x52: "\<bar>x\<bar> \<le> 2 ^ 52" using x(2,3) by simp
  have f: "f64 q = Fin (of_int q)" "f64 (gr_minLimit l) = Fin (of_int (gr_minLimit l))"
    "f64 (gr_maxLimit l) = Fin (of_int (gr_maxLimit l))" by (rule f64_exact, use b q in simp)+
  have q52: "\<bar>of_int q :: real\<bar> \<le> 2 ^ 52"
    using q b(2) by (metis abs_of_nonneg of_int_0_le_iff of_int_le_iff of_int_numeral of_int_power order_trans)
  have two: "mk 2 = Fin 2" using mk_of_int [of 2] by simp
  have "\<bar>x / 2\<bar> \<le> 2 ^ 52" using x52 by simp
  then have h: "mk (x / 2) = Fin (rnd (x / 2)) \<and> \<bar>rnd (x / 2)\<bar> \<le> 2 ^ 52" by (intro mk_bounded) simp_all
  have "\<bar>g\<bar> \<le> 1" using g by simp
  with x52 have "\<bar>x * g\<bar> \<le> 2 ^ 52 * 1" by (rule abs_prod_le)
  then have 1: "mk (x * g) = Fin (rnd (x * g)) \<and> \<bar>rnd (x * g)\<bar> \<le> 2 ^ 52" by (intro mk_bounded) simp_all
  then have "\<bar>rnd (x * g) + of_int q\<bar> \<le> 2 ^ 53" using q52 by (simp add: abs_le_iff)
  then have 2: "mk (rnd (x * g) + of_int q) = Fin (rnd (rnd (x * g) + of_int q)) \<and> \<bar>rnd (rnd (x * g) + of_int q)\<bar> \<le> 2 ^ 53"
    by (intro mk_bounded) simp_all
  define y where "y = (if d then rnd (x / 2) else rnd (rnd (x * g) + of_int q))"
  have y: "(if d then fdiv (Fin x) (Fin 2) else fadd (fmul (Fin x) (Fin g)) (Fin (of_int q))) = Fin y" "\<bar>y\<bar> \<le> 2 ^ 53"
    using h 1 2 by (auto simp: y_def)
  have 3: "mk (1 - c) = Fin (rnd (1 - c)) \<and> \<bar>rnd (1 - c)\<bar> \<le> 2 ^ 0" using c(2,3) by (intro mk_bounded) simp_all
  then have "\<bar>x * rnd (1 - c)\<bar> \<le> 2 ^ 52 * 1" using x52 by (intro abs_prod_le) simp_all
  then have 4: "mk (x * rnd (1 - c)) = Fin (rnd (x * rnd (1 - c))) \<and> \<bar>rnd (x * rnd (1 - c))\<bar> \<le> 2 ^ 52"
    by (intro mk_bounded) simp_all
  have "\<bar>c\<bar> \<le> 1" using c(2,3) by simp
  then have "\<bar>c * y\<bar> \<le> 1 * 2 ^ 53" using y(2) by (rule abs_prod_le)
  then have 5: "mk (c * y) = Fin (rnd (c * y)) \<and> \<bar>rnd (c * y)\<bar> \<le> 2 ^ 53" by (intro mk_bounded) simp_all
  then have "\<bar>rnd (x * rnd (1 - c)) + rnd (c * y)\<bar> \<le> 2 ^ 54" using 4 by (simp add: abs_le_iff)
  then have 6: "mk (rnd (x * rnd (1 - c)) + rnd (c * y)) = Fin (rnd (rnd (x * rnd (1 - c)) + rnd (c * y)))"
    using mk_bounded [of _ 54] by simp
  define z where "z = (if y < x then max (of_int (gr_minLimit l)) (rnd (rnd (x * rnd (1 - c)) + rnd (c * y))) else y)"
  have v: "v = Fin (max (of_int q) (min (of_int (gr_maxLimit l)) z))"
    using new y(1) 3 4 5 6 unfolding gradient_newLimit_def Let_def x(1) c(1) f two lit_1 z_def
    by (auto simp: max_def min_def simp del: fdiv.simps split: if_splits)
  have r: "of_int lo \<le> (of_int (gr_minLimit l) :: real)" "of_int lo \<le> (of_int (gr_maxLimit l) :: real)"
    "(of_int (gr_maxLimit l) :: real) \<le> of_int hi" "(of_int q :: real) \<le> of_int hi"
    using b q by (simp_all only: of_int_le_iff)
  have "of_int lo \<le> z" using r(1) x(2) by (auto simp: z_def)
  then have "of_int lo \<le> max (of_int q) (min (of_int (gr_maxLimit l)) z)" using r(2) by (simp add: le_max_iff_disj)
  moreover have "max (of_int q) (min (of_int (gr_maxLimit l)) z) \<le> of_int hi" using r(3,4) by (simp add: min_le_iff_disj)
  ultimately show thesis using v that by blast
qed

lemma in_i64_f2i: "in_i64 (f2i a)"
  by (cases a) (auto simp: in_i64_def)

lemma gradient_update_inv:
  assumes inv: "gradient_inv lo hi l" and q: "0 \<le> q" "q \<le> hi" and rtt: "1 \<le> rtt" "in_i64 rtt"
  shows "gradient_inv lo hi (fst (gradient_update q rtt infl d l))"
proof -
  obtain m v where m: "gr_rttNoLoadMeasurement l = Minimum m" "mn_value m = Fin v" "0 \<le> v" "v \<le> 2 ^ 63"
    using inv by (auto simp: gradient_inv_def)
  obtain r where r: "f64 rtt = Fin r" "\<bar>r\<bar> \<le> 2 ^ 63" "1 \<le> r" using f64_in_i64 [OF rtt(2)] rtt(1) by metis
  define v' where "v' = (if v = 0 \<or> r < v then r else v)"
  define m' where "m' = m\<lparr>mn_value := Fin v'\<rparr>"
  have add: "minimum_Add (Fin r) m = ((Fin v', feq (Fin v) (Fin v')), m')" "mn_value m' = Fin v'"
    using m(2) by (cases m; simp add: minimum_Add_def Let_def v'_def m'_def)+
  have v': "0 \<le> v'" "v' \<le> 2 ^ 63" using m(3,4) r(2,3) by (simp_all add: v'_def)
  let ?l = "l\<lparr>gr_rttNoLoadMeasurement := Minimum m'\<rparr>"
  have linv: "gradient_inv lo hi ?l" using inv add(2) v' by (simp add: gradient_inv_def)
  obtain t where t: "gr_rttTolerance ?l = Fin t" "0 \<le> t" "t \<le> 2 ^ 52" using linv by (auto simp: gradient_inv_def)
  obtain g where g: "gradient_slope (f2i (Fin v')) rtt ?l = Fin g" "1 / 2 \<le> g" "g \<le> 1"
    using gradient_slope_range [OF t in_i64_f2i rtt] by blast
  have upd: "fst (gradient_update q rtt infl d l) =
      (case gradient_newLimit (Fin g) q infl d ?l of None \<Rightarrow> ?l | Some n \<Rightarrow> ?l\<lparr>gr_estimatedLimit := n\<rparr>)"
    using g(1) by (simp add: gradient_update_def m(1) r(1) lift_Add_def add(1) Let_def del: f2i.simps split: option.splits)
  show ?thesis
  proof (cases "gradient_newLimit (Fin g) q infl d ?l")
    case None
    then show ?thesis using upd linv by simp
  next
    case (Some n)
    obtain x where "n = Fin x" "of_int lo \<le> x" "x \<le> of_int hi"
      using gradient_newLimit_range [OF linv g(2,3) q Some] .
    then show ?thesis using upd Some linv by (simp add: gradient_inv_def)
  qed
qed

lemma gradient_probe_inv:
  assumes "gradient_inv lo hi l" and "0 \<le> q" and "q \<le> hi"
  shows "gradient_inv lo hi (l\<lparr>gr_resetRTTCounter := c, gr_estimatedLimit := fmax (f64 (gr_minLimit l)) (f64 q),
     gr_rttNoLoadMeasurement := meas_Reset (gr_rttNoLoadMeasurement l)\<rparr>)"
proof -
  have b: "1 \<le> lo" "lo \<le> gr_minLimit l" "gr_minLimit l \<le> hi" "hi \<le> 2 ^ 52" using assms(1) by (auto simp: gradient_inv_def)
  have "f64 q = Fin (of_int q)" "f64 (gr_minLimit l) = Fin (of_int (gr_minLimit l))"
    by (rule f64_exact, use b assms(2,3) in simp)+
  then show ?thesis using assms b by (auto simp: gradient_inv_def minimum_Reset_def le_max_iff_disj)
qed

lemma gradient_OnSample_ok:
  assumes inv: "gradient_inv lo hi l" and rtt: "1 \<le> rtt" "in_i64 rtt"
  obtains l' e where "gradient_OnSample rd st rtt infl d l = Some (l', e)" and "gradient_inv lo hi l'"
proof -
  obtain x where x: "gr_estimatedLimit l = Fin x" "of_int lo \<le> x" "x \<le> of_int hi"
    using inv by (auto simp: gradient_inv_def)
  have "in_i64 lo" "in_i64 hi" using inv by (auto intro!: in_i64_nonneg simp: gradient_inv_def)
  then obtain q where q: "gr_queueSizeFunc l (f2i (Fin x)) = Some q" "0 \<le> q" "q \<le> hi"
    using inv f2i_between [OF x(2,3)] by (auto simp: gradient_inv_def simp del: f2i.simps)
  define k where "k = (if gr_probeInterval l \<noteq> ProbeDisabled
      then l\<lparr>gr_resetRTTCounter := i64 (gr_resetRTTCounter l - 1)\<rparr> else l)"
  have kinv: "gradient_inv lo hi k" using inv by (auto simp: gradient_inv_def k_def)
  show thesis
  proof (cases "gr_probeInterval k \<noteq> ProbeDisabled \<and> gr_resetRTTCounter k \<le> 0")
    case True
    then obtain c where c: "nextProbeCountdown rd (gr_probeInterval k) = Some c"
      using kinv by (auto simp: nextProbeCountdown_def gradient_inv_def)
    show thesis using gradient_probe_inv [OF kinv q(2,3), of c] True c q(1) x(1) that
      by (simp add: gradient_OnSample_def Let_def k_def [symmetric] del: f2i.simps)
  next
    case False
    obtain l' e where u: "gradient_update q rtt infl d k = (l', e)" by (metis prod.exhaust)
    then have "gradient_inv lo hi l'" using gradient_update_inv [OF kinv q(2,3) rtt, of infl d] by simp
    then show thesis using False u q(1) x(1) that
      by (auto simp: gradient_OnSample_def Let_def k_def [symmetric] simp del: f2i.simps)
  qed
qed

interpretation gradient_limit: bounded_limit gradient_ops "gradient_inv lo hi" positive_rtt lo hi for lo hi
proof unfold_locales
  fix l r st rtt infl d
  assume "gradient_inv lo hi l" and "positive_rtt (r, st, rtt, infl, d)"
  then obtain l' e where "gradient_OnSample r st rtt infl d l = Some (l', e)" "gradient_inv lo hi l'"
    using gradient_OnSample_ok [of lo hi l rtt r st infl d] by (auto simp: positive_rtt_def)
  then show "gradient_inv lo hi (fst (OnSample gradient_ops r st rtt infl d l))" by (simp add: gradient_ops_def)
next
  fix l
  assume inv: "gradient_inv lo hi l"
  then obtain x where x: "gr_estimatedLimit l = Fin x" "of_int lo \<le> x" "x \<le> of_int hi" by (auto simp: gradient_inv_def)
  moreover have "in_i64 lo" "in_i64 hi" using inv by (auto intro!: in_i64_nonneg simp: gradient_inv_def)
  ultimately show "lo \<le> EstimatedLimit gradient_ops l \<and> EstimatedLimit gradient_ops l \<le> hi"
    using f2i_between [of lo x hi] by (simp add: gradient_ops_def gradient_EstimatedLimit_def del: f2i.simps)
qed

text \<open>C27: The gradient limit stays in range: created with a fixed queue size \<open>q\<close>, after any
  sequence of samples with round-trip times of at least one nanosecond, probes included, the limit
  is between the smallest of the initial, minimum and maximum limit and the largest of them and
  \<open>q\<close> (the constructor orders none of them, and a queue size above the maximum wins).\<close>

theorem gradient_range:
  assumes "NewGradientLimitWithRegistry table rd name n mn mx (Fin s) (Some (\<lambda>_. Some q)) (Fin t) pr lg reg tags
      = Some (l, e)"
    and "1 \<le> n" and "n \<le> 2 ^ 52" and "1 \<le> mn" and "mn \<le> 2 ^ 52" and "1 \<le> mx" and "mx \<le> 2 ^ 52"
    and "0 \<le> q" and "q \<le> 2 ^ 52" and "0 \<le> s" and "s \<le> 1" and "0 \<le> t" and "t \<le> 2 ^ 52"
    and "\<And>r st rtt infl d. (r, st, rtt, infl, d) \<in> set xs \<Longrightarrow> 1 \<le> rtt \<and> in_i64 rtt"
  shows "min n (min mn mx) \<le> gradient_EstimatedLimit (limit_run gradient_ops l xs)
    \<and> gradient_EstimatedLimit (limit_run gradient_ops l xs) \<le> max (max n q) (max mn mx)"
proof -
  let ?lo = "min n (min mn mx)" and ?hi = "max (max n q) (max mn mx)"
  have n: "f64 n = Fin (of_int n)" using assms(2,3) by (intro f64_exact) simp
  obtain c where "nextProbeCountdown rd (if pr = 0 then 1000 else pr) = Some c"
    using assms(1) by (auto simp: NewGradientLimitWithRegistry_def Let_def split: option.splits)
  then have probe: "gr_probeInterval l = ProbeDisabled \<or> 1 \<le> gr_probeInterval l"
    using assms(1) by (auto simp: NewGradientLimitWithRegistry_def nextProbeCountdown_def Let_def case_prod_beta
        split: option.splits if_splits)
  have l: "gr_estimatedLimit l = Fin (of_int n)" "gr_minLimit l = mn" "gr_maxLimit l = mx" "gr_smoothing l = Fin s"
    "gr_rttTolerance l = Fin t" "gr_queueSizeFunc l = (\<lambda>_. Some q)" "gr_rttNoLoadMeasurement l = Minimum minimum_zero"
    using assms(1-12) n
    by (auto simp: NewGradientLimitWithRegistry_def Let_def case_prod_beta split: option.splits)
  have "of_int ?lo \<le> (of_int n :: real)" "(of_int n :: real) \<le> of_int ?hi" by simp_all
  then have "gradient_inv ?lo ?hi l" unfolding gradient_inv_def
    using assms(2-13) probe by (auto simp: l minimum_zero_def min_le_iff_disj le_max_iff_disj)
  moreover have "x \<in> set xs \<Longrightarrow> positive_rtt x" for x using assms(14) by (cases x) (auto simp: positive_rtt_def)
  ultimately show ?thesis
    using gradient_limit.run_range [of ?lo ?hi l xs] by (simp add: gradient_ops_def)
qed

theorem gradient_range_witness:
  "\<exists>l e. NewGradientLimitWithRegistry [] undefined ''g'' 50 1 1000 (Fin 1) (Some (\<lambda>_. Some 4)) (Fin 2) (- 1) None
      NilRegistry [] = Some (l, e)
    \<and> gradient_EstimatedLimit (limit_run gradient_ops l [(undefined, 0, 1000, 60, False)]) \<le> 1000"
proof -
  obtain l e where new: "NewGradientLimitWithRegistry [] undefined ''g'' 50 1 1000 (Fin 1) (Some (\<lambda>_. Some 4)) (Fin 2) (- 1)
      None NilRegistry [] = Some (l, e)"
    by (simp add: NewGradientLimitWithRegistry_def nextProbeCountdown_def ProbeDisabled_def Let_def case_prod_beta)
  have "gradient_EstimatedLimit (limit_run gradient_ops l [(undefined, 0, 1000, 60, False)]) \<le> 1000"
    using gradient_range [OF new, of "[(undefined, 0, 1000, 60, False)]"] by (simp add: in_i64_def)
  with new show ?thesis by blast
qed

text \<open>Probing: every sample that runs the countdown out sets the estimate to the larger of
  the minimum limit and the queue size, forgets the minimal round-trip time and restarts the
  countdown between one and two probe intervals; a negative interval other than -1, which the
  constructor does not reject, makes the constructor panic.\<close>

theorem gradient_probe:
  assumes "gr_queueSizeFunc l (f2i (gr_estimatedLimit l)) = Some q" and "gr_probeInterval l = p" and "1 \<le> p"
    and "p \<le> 2 ^ 31" and "gr_resetRTTCounter l = 1" and "rand_ok rd" and "pr < - 1"
  shows "(\<exists>l' e. gradient_OnSample rd st rtt infl d l = Some (l', e)
      \<and> gr_estimatedLimit l' = fmax (f64 (gr_minLimit l)) (f64 q)
      \<and> meas_Get (gr_rttNoLoadMeasurement l') = meas_Get (meas_Reset (gr_rttNoLoadMeasurement l))
      \<and> p \<le> gr_resetRTTCounter l' \<and> gr_resetRTTCounter l' < 2 * p)
    \<and> NewGradientLimitWithRegistry table rd name n mn mx s qf t pr lg reg tags = None"
proof
  have rd: "0 \<le> randIntn rd p" "randIntn rd p < p" using assms(3,6) by (simp_all add: rand_ok_def)
  then have i: "i64 (p + randIntn rd p) = p + randIntn rd p" "i64 0 = 0"
    using assms(3,4) by (auto intro!: i64_id simp: in_i64_def)
  show "\<exists>l' e. gradient_OnSample rd st rtt infl d l = Some (l', e)
      \<and> gr_estimatedLimit l' = fmax (f64 (gr_minLimit l)) (f64 q)
      \<and> meas_Get (gr_rttNoLoadMeasurement l') = meas_Get (meas_Reset (gr_rttNoLoadMeasurement l))
      \<and> p \<le> gr_resetRTTCounter l' \<and> gr_resetRTTCounter l' < 2 * p"
    using assms(1-5) rd i by (simp add: gradient_OnSample_def nextProbeCountdown_def ProbeDisabled_def Let_def)
  show "NewGradientLimitWithRegistry table rd name n mn mx s qf t pr lg reg tags = None"
    using assms(7) by (simp add: NewGradientLimitWithRegistry_def nextProbeCountdown_def ProbeDisabled_def Let_def)
qed

definition probe_rand :: rand where
  "probe_rand = \<lparr>randFloat64 = Fin 0, randIntn = (\<lambda>n. 0), timeNow = 0\<rparr>"

theorem gradient_probe_witness:
  "NewGradientLimitWithRegistry [] probe_rand ''g'' 50 1 1000 (Fin 1) None (Fin 2) (- 5) None NilRegistry [] = None"
proof -
  let ?l = "\<lparr>gr_estimatedLimit = Fin 50, gr_maxLimit = 1000, gr_minLimit = 1, gr_queueSizeFunc = \<lambda>_. Some 4,
    gr_smoothing = Fin 1, gr_rttTolerance = Fin 2, gr_probeInterval = 10, gr_resetRTTCounter = 1,
    gr_rttNoLoadMeasurement = Minimum minimum_zero, gr_listeners = [], gr_logger = NoopLimitLogger,
    gr_registry = EmptyMetricRegistry, gr_commonSampler = None, gr_minRTTSampleListener = EmptyMetricSampleListener,
    gr_minWindowRTTSampleListener = EmptyMetricSampleListener, gr_queueSizeSampleListener = EmptyMetricSampleListener\<rparr>"
  have "rand_ok probe_rand" by (simp add: rand_ok_def probe_rand_def representable_def)
  then show ?thesis using gradient_probe [of ?l 4 10 probe_rand "- 5"] by simp
qed

end
