(* ===== verification/Limit_AIMD.thy ===== *)
theory Limit_AIMD
  imports Core
begin

text \<open>
  \<open>limit/aimd.go\<close>: the limit that grows by a constant while requests use it up and shrinks by a
  ratio when a request is dropped. Every operation holds the mutex.
\<close>

record aimd =
  ai_name :: string
  ai_limit :: int
  ai_increaseBy :: int
  ai_backOffRatio :: float64
  ai_listeners :: "nat list"
  ai_registry :: registry
  ai_commonSampler :: "common_sampler option"

definition NewAIMDLimit ::
    "string \<Rightarrow> int \<Rightarrow> float64 \<Rightarrow> int \<Rightarrow> registry \<Rightarrow> string list \<Rightarrow> aimd \<times> effect list" where
  "NewAIMDLimit name initialLimit backOffRatio increaseBy registry tags =
     (let registry = registry_or_empty registry;
          increaseBy = (if increaseBy \<le> 0 then 1 else increaseBy);
          (sampler, e) = NewCommonMetricSamplerOrNil registry name tags
      in (\<lparr>ai_name = name, ai_limit = initialLimit, ai_increaseBy = increaseBy,
           ai_backOffRatio = backOffRatio, ai_listeners = [], ai_registry = registry,
           ai_commonSampler = sampler\<rparr>, e))"

definition NewDefaultAIMDLimit :: "string \<Rightarrow> registry \<Rightarrow> string list \<Rightarrow> aimd \<times> effect list" where
  "NewDefaultAIMDLimit name registry tags = NewAIMDLimit name 10 (lit (9 / 10)) 1 registry tags"

definition aimd_EstimatedLimit :: "aimd \<Rightarrow> int" where
  "aimd_EstimatedLimit l = ai_limit l"

definition aimd_NotifyOnChange :: "nat \<Rightarrow> aimd \<Rightarrow> aimd" where
  "aimd_NotifyOnChange consumer l = l\<lparr>ai_listeners := ai_listeners l @ [consumer]\<rparr>"

definition aimd_notifyListeners :: "int \<Rightarrow> aimd \<Rightarrow> effect list" where
  "aimd_notifyListeners newLimit l = notify_all (ai_listeners l) newLimit"

definition aimd_OnSample :: "int \<Rightarrow> int \<Rightarrow> int \<Rightarrow> bool \<Rightarrow> aimd \<Rightarrow> aimd \<times> effect list" where
  "aimd_OnSample startTime rtt inFlight didDrop l =
     (let e = Sample (ai_commonSampler l) rtt inFlight didDrop in
      if didDrop then
        let l' = l\<lparr>ai_limit := f2i (fmax (lit 1) (fmin (f64 (i64 (ai_limit l - 1)))
                                                 (fmul (f64 (ai_limit l)) (ai_backOffRatio l))))\<rparr>
        in (l', e @ aimd_notifyListeners (ai_limit l') l')
      else if inFlight \<ge> ai_limit l then
        let l' = l\<lparr>ai_limit := i64 (ai_limit l + ai_increaseBy l)\<rparr>
        in (l', e @ aimd_notifyListeners (ai_limit l') l')
      else (l, e))"

definition aimd_BackOffRatio :: "aimd \<Rightarrow> float64" where
  "aimd_BackOffRatio l = ai_backOffRatio l"

definition aimd_ops :: "aimd limit_ops" where
  "aimd_ops = \<lparr>EstimatedLimit = aimd_EstimatedLimit, NotifyOnChange = aimd_NotifyOnChange,
     OnSample = (\<lambda>_. aimd_OnSample)\<rparr>"

section \<open>One sample\<close>

lemma aimd_drop_limit:
  assumes "1 \<le> ai_limit l" and "ai_limit l \<le> 2 ^ 53" and "ai_backOffRatio l \<noteq> NaN"
  shows "1 \<le> ai_limit (fst (aimd_OnSample st rtt infl True l))"
    and "ai_limit (fst (aimd_OnSample st rtt infl True l)) \<le> max 1 (ai_limit l - 1)"
proof -
  let ?n = "ai_limit l" and ?p = "fmul (f64 (ai_limit l)) (ai_backOffRatio l)"
  have small: "in_i64 (?n - 1)" "in_i64 1" "in_i64 (max 1 (?n - 1))"
    using assms(1,2) by (auto intro!: in_i64_nonneg)
  have f: "f64 (?n - 1) = Fin (of_int (?n - 1))" "f64 ?n = Fin (of_int ?n)"
    by (rule f64_exact, use assms(1,2) in simp)+
  have "?p \<noteq> NaN" using assms(1,3) f(2) by (cases "ai_backOffRatio l") (auto simp: inf_of_sign.simps)
  then obtain x where "fmax (Fin 1) (fmin (Fin (of_int (?n - 1))) ?p) = Fin x" "1 \<le> x"
      "x \<le> max 1 (of_int (?n - 1))" by (rule clamp_low)
  then have x: "fmax (lit 1) (fmin (f64 (?n - 1)) ?p) = Fin x" "1 \<le> x" "x \<le> of_int (max 1 (?n - 1))"
    using f(1) by (simp_all only: lit_1 of_int_max of_int_1)
  have lmt: "ai_limit (fst (aimd_OnSample st rtt infl True l)) = f2i (Fin x)"
    using x(1) small(1) by (simp add: aimd_OnSample_def i64_id Let_def)
  show "1 \<le> ai_limit (fst (aimd_OnSample st rtt infl True l))"
    and "ai_limit (fst (aimd_OnSample st rtt infl True l)) \<le> max 1 (?n - 1)"
    unfolding lmt using f2i_between [of 1 x "max 1 (?n - 1)"] x(2,3) small(2,3) by simp_all
qed

lemma aimd_keep_limit:
  assumes "in_i64 (ai_limit l + ai_increaseBy l)"
  shows "ai_limit (fst (aimd_OnSample st rtt infl False l)) =
     (if infl \<ge> ai_limit l then ai_limit l + ai_increaseBy l else ai_limit l)"
  using assms by (simp add: aimd_OnSample_def i64_id Let_def)

lemma aimd_OnSample_fields [simp]:
  "ai_backOffRatio (fst (aimd_OnSample st rtt infl d l)) = ai_backOffRatio l"
  "ai_increaseBy (fst (aimd_OnSample st rtt infl d l)) = ai_increaseBy l"
  "ai_listeners (fst (aimd_OnSample st rtt infl d l)) = ai_listeners l"
  by (simp_all add: aimd_OnSample_def Let_def)

section \<open>The range of the limit\<close>

text \<open>
  With at most \<open>m\<close> requests in flight the limit cannot pass \<open>m\<close> plus one increment unless it
  started there, because it only grows when the requests in flight reach it.
\<close>

definition aimd_inv :: "int \<Rightarrow> int \<Rightarrow> aimd \<Rightarrow> bool" where
  "aimd_inv m hi l \<longleftrightarrow> 1 \<le> ai_limit l \<and> ai_limit l \<le> hi \<and> m + ai_increaseBy l \<le> hi \<and> hi \<le> 2 ^ 53
     \<and> 1 \<le> ai_increaseBy l \<and> ai_backOffRatio l \<noteq> NaN"

definition inFlight_at_most :: "int \<Rightarrow> limit_sample \<Rightarrow> bool" where
  "inFlight_at_most m = (\<lambda>(r, st, rtt, infl, d). infl \<le> m)"

lemma aimd_inv_step:
  assumes "aimd_inv m hi l" and "infl \<le> m"
  shows "aimd_inv m hi (fst (aimd_OnSample st rtt infl d l))"
proof (cases d)
  case True
  have "ai_limit l \<le> 2 ^ 53" using assms(1) by (simp add: aimd_inv_def)
  with assms(1) True show ?thesis
    using aimd_drop_limit [of l st rtt infl] by (auto simp: aimd_inv_def)
next
  case False
  show ?thesis
  proof (cases "infl \<ge> ai_limit l")
    case True
    then have le: "ai_limit l + ai_increaseBy l \<le> hi" using assms by (auto simp: aimd_inv_def)
    moreover have "in_i64 (ai_limit l + ai_increaseBy l)"
      using le assms(1) by (intro in_i64_nonneg) (auto simp: aimd_inv_def)
    ultimately show ?thesis using False True assms(1) by (auto simp: aimd_inv_def aimd_keep_limit)
  next
    case small: False
    then show ?thesis using False assms(1) by (simp add: aimd_OnSample_def)
  qed
qed

interpretation aimd_limit: bounded_limit aimd_ops "aimd_inv m hi" "inFlight_at_most m" 1 hi for m hi
  using aimd_inv_step
  by unfold_locales (auto simp: aimd_ops_def inFlight_at_most_def aimd_EstimatedLimit_def aimd_inv_def)

text \<open>C25: The AIMD limit stays in range: from an initial limit of at least 1 and with at most
  \<open>m\<close> requests ever in flight, after any sequence of samples the limit is at least 1 and at most
  the larger of the initial limit and \<open>m\<close> plus one increment.\<close>

theorem aimd_range:
  assumes "NewAIMDLimit name n ratio inc reg tags = (l, e)" and "1 \<le> n" and "n \<le> 2 ^ 53"
    and "ratio \<noteq> NaN" and "m + max 1 inc \<le> 2 ^ 53"
    and "\<And>r st rtt infl d. (r, st, rtt, infl, d) \<in> set xs \<Longrightarrow> infl \<le> m"
  shows "1 \<le> aimd_EstimatedLimit (limit_run aimd_ops l xs)
    \<and> aimd_EstimatedLimit (limit_run aimd_ops l xs) \<le> max n (m + max 1 inc)"
proof -
  have "ai_limit l = n" "ai_increaseBy l = max 1 inc" "ai_backOffRatio l = ratio"
    using assms(1) by (auto simp: NewAIMDLimit_def Let_def split: prod.splits)
  then have "aimd_inv m (max n (m + max 1 inc)) l" using assms(2-5) by (simp add: aimd_inv_def)
  moreover have "x \<in> set xs \<Longrightarrow> inFlight_at_most m x" for x
    using assms(6) by (cases x) (auto simp: inFlight_at_most_def)
  ultimately show ?thesis
    using aimd_limit.run_range [of m "max n (m + max 1 inc)" l xs] by (simp add: aimd_ops_def)
qed

theorem aimd_range_witness:
  "aimd_EstimatedLimit (limit_run aimd_ops (fst (NewAIMDLimit ''a'' 10 (Fin (1 / 2)) 1 NilRegistry []))
      [(undefined, 0, 1, 20, False), (undefined, 0, 1, 20, True)]) \<le> 21"
  using aimd_range [of "''a''" 10 "Fin (1 / 2)" 1 NilRegistry "[]" _ _ 20
      "[(undefined, 0, 1, 20, False), (undefined, 0, 1, 20, True)]", OF prod.collapse [symmetric]]
  by auto

text \<open>One sample of the AIMD limit: a dropped request lowers a limit above one by at least
  one and never below one, a request that found the limit used up raises it by the increment, any
  other leaves it as it is; the listeners are told the new limit exactly in the first two cases.\<close>

theorem aimd_sample_steps:
  assumes "1 \<le> ai_limit l" and "ai_limit l + ai_increaseBy l \<le> 2 ^ 53" and "0 < ai_increaseBy l"
    and "ai_backOffRatio l \<noteq> NaN" and "aimd_OnSample st rtt infl d l = (l', e)"
  shows "(d \<longrightarrow> 1 \<le> ai_limit l' \<and> ai_limit l' \<le> max 1 (ai_limit l - 1))
    \<and> (\<not> d \<and> ai_limit l \<le> infl \<longrightarrow> ai_limit l' = ai_limit l + ai_increaseBy l)
    \<and> (\<not> d \<and> infl < ai_limit l \<longrightarrow> l' = l)
    \<and> e = Sample (ai_commonSampler l) rtt infl d
        @ (if d \<or> ai_limit l \<le> infl then map (\<lambda>k. Notify k (ai_limit l')) (ai_listeners l) else [])"
proof -
  have "in_i64 (ai_limit l + ai_increaseBy l)" using assms(1-3) by (intro in_i64_nonneg) simp_all
  note keep = aimd_keep_limit [OF this, of st rtt infl]
  have "ai_limit l \<le> 2 ^ 53" using assms(2,3) by simp
  note drop = aimd_drop_limit [OF assms(1) this assms(4), of st rtt infl]
  have effs: "e = Sample (ai_commonSampler l) rtt infl d
      @ (if d \<or> ai_limit l \<le> infl then map (\<lambda>k. Notify k (ai_limit l')) (ai_listeners l) else [])"
    using assms(5) by (auto simp: aimd_OnSample_def aimd_notifyListeners_def notify_all_def Let_def
        split: if_splits)
  have same: "\<not> d \<Longrightarrow> infl < ai_limit l \<Longrightarrow> l' = l" using assms(5) by (simp add: aimd_OnSample_def)
  show ?thesis using keep drop assms(5) effs same by (cases d) auto
qed

theorem aimd_sample_steps_witness:
  "ai_limit (fst (aimd_OnSample 0 1 12 False (fst (NewAIMDLimit ''a'' 10 (Fin (1 / 2)) 2 NilRegistry [])))) = 12"
proof -
  let ?l = "fst (NewAIMDLimit ''a'' 10 (Fin (1 / 2)) 2 NilRegistry [])"
  have l: "ai_limit ?l = 10" "ai_increaseBy ?l = 2" "ai_backOffRatio ?l \<noteq> NaN"
    by (simp_all add: NewAIMDLimit_def Let_def case_prod_beta)
  show ?thesis using aimd_sample_steps [of ?l 0 1 12 False, OF _ _ _ l(3) prod.collapse [symmetric]] l by simp
qed

section \<open>Finding the capacity\<close>

text \<open>
  The limit in front of a saturated resource: as many requests are in flight as the limit allows, and a request is dropped
  exactly when more than \<open>capacity\<close> of them are. \<open>aimd_saturated\<close> is the limit after \<open>k\<close> such samples.
\<close>

primrec aimd_saturated :: "int \<Rightarrow> int \<Rightarrow> nat \<Rightarrow> aimd \<Rightarrow> aimd" where
  "aimd_saturated capacity rtt 0 l = l"
| "aimd_saturated capacity rtt (Suc k) l =
     (let l = aimd_saturated capacity rtt k l; inFlight = aimd_EstimatedLimit l
      in fst (aimd_OnSample 0 rtt inFlight (inFlight > capacity) l))"

text \<open>A drop takes no more from the limit than the ratio says, rounded down, and at least one.\<close>

lemma aimd_drop_floor:
  assumes "1 \<le> ai_limit l" and "ai_limit l \<le> 2 ^ 53" and "ai_backOffRatio l = Fin r" and "0 \<le> r" and "r \<le> 1"
  shows "min (ai_limit l - 1) \<lfloor>of_int (ai_limit l) * r\<rfloor> \<le> ai_limit (fst (aimd_OnSample st rtt infl True l))"
proof -
  let ?n = "ai_limit l" and ?y = "of_int (ai_limit l) * r"
  have y: "0 \<le> ?y" "?y \<le> of_int ?n" using assms(1,4,5) by (simp_all add: mult_left_le)
  have n: "of_int ?n \<le> (2 ^ 53 :: real)" using assms(2) by (simp flip: of_int_le_iff)
  have f: "f64 (i64 (?n - 1)) = Fin (of_int (?n - 1))" "f64 ?n = Fin (of_int ?n)"
    using assms(1,2) by (auto simp: f64_exact i64_id in_i64_nonneg)
  have p: "mk ?y = Fin (rnd ?y)" using y n by (intro mk_le_pow2 [of _ 53]) auto
  have fl: "0 \<le> \<lfloor>?y\<rfloor>" "\<lfloor>?y\<rfloor> \<le> ?n" using y by (simp_all add: floor_le_iff)
  then have "representable (of_int \<lfloor>?y\<rfloor>)" using assms(2) by (intro representable_of_int) linarith
  then have "of_int \<lfloor>?y\<rfloor> \<le> rnd ?y" by (rule rnd_ge) simp
  moreover have "rnd ?y \<le> of_int ?n" using y(2) assms(1,2) by (intro rnd_le representable_of_int) simp_all
  ultimately have x: "of_int (min (?n - 1) \<lfloor>?y\<rfloor>) \<le> max 1 (min (of_int (?n - 1)) (rnd ?y))"
      "max 1 (min (of_int (?n - 1)) (rnd ?y)) \<le> of_int ?n" using assms(1) by auto
  have "ai_limit (fst (aimd_OnSample st rtt infl True l)) = f2i (Fin (max 1 (min (of_int (?n - 1)) (rnd ?y))))"
    using f p assms(3) by (simp add: aimd_OnSample_def Let_def)
  then show ?thesis using f2i_between [OF x] fl assms(1,2) by (simp add: in_i64_def)
qed

lemma aimd_saturated_fields [simp]:
  "ai_backOffRatio (aimd_saturated c rtt k l) = ai_backOffRatio l"
  "ai_increaseBy (aimd_saturated c rtt k l) = ai_increaseBy l"
  by (induction k) (simp_all add: Let_def)

text \<open>One sample of the saturated resource.\<close>

lemma aimd_saturated_step:
  assumes "1 \<le> ai_limit (aimd_saturated c rtt k l)" and "ai_limit (aimd_saturated c rtt k l) + ai_increaseBy l \<le> 2 ^ 53"
    and "0 < ai_increaseBy l" and "ai_backOffRatio l = Fin r" and "0 \<le> r" and "r \<le> 1" and "1 \<le> c"
  defines "x \<equiv> ai_limit (aimd_saturated c rtt k l)" and "y \<equiv> ai_limit (aimd_saturated c rtt (Suc k) l)"
  shows "x \<le> c \<Longrightarrow> y = x + ai_increaseBy l" and "c < x \<Longrightarrow> y \<le> x - 1" and "c < x \<Longrightarrow> 1 \<le> y"
    and "c < x \<Longrightarrow> min c \<lfloor>of_int (c + 1) * r\<rfloor> \<le> y"
proof -
  let ?l = "aimd_saturated c rtt k l"
  have "in_i64 (x + ai_increaseBy l)" using assms(1-3) by (intro in_i64_nonneg) (simp_all add: x_def)
  then show "x \<le> c \<Longrightarrow> y = x + ai_increaseBy l"
    using aimd_keep_limit [of ?l 0 rtt x] by (simp add: x_def y_def aimd_EstimatedLimit_def Let_def)
  have le: "x \<le> 2 ^ 53" using assms(2,3) by (simp add: x_def)
  assume c: "c < x"
  then have y: "y = ai_limit (fst (aimd_OnSample 0 rtt x True ?l))"
    by (simp add: x_def y_def aimd_EstimatedLimit_def Let_def)
  show "y \<le> x - 1" and "1 \<le> y"
    using aimd_drop_limit [of ?l 0 rtt x] le assms(1,4,7) c y by (simp_all add: x_def)
  have "\<lfloor>of_int (c + 1) * r\<rfloor> \<le> \<lfloor>of_int x * r\<rfloor>" using c assms(5) by (intro floor_mono mult_right_mono) simp_all
  then show "min c \<lfloor>of_int (c + 1) * r\<rfloor> \<le> y"
    using aimd_drop_floor [of ?l r 0 rtt x] le assms(1,4,5,6) c y by (simp add: x_def min_def split: if_splits)
qed

lemma aimd_saturated_bounds:
  assumes "ai_limit l = n" and "1 \<le> n" and "n + ai_increaseBy l \<le> 2 ^ 53" and "c + 2 * ai_increaseBy l \<le> 2 ^ 53"
    and "0 < ai_increaseBy l" and "ai_backOffRatio l = Fin r" and "0 \<le> r" and "r \<le> 1" and "1 \<le> c"
  shows "1 \<le> ai_limit (aimd_saturated c rtt k l)
    \<and> min (min c \<lfloor>of_int (c + 1) * r\<rfloor>) (n + int k) \<le> ai_limit (aimd_saturated c rtt k l)
    \<and> ai_limit (aimd_saturated c rtt k l) \<le> max (c + ai_increaseBy l) (n - int k)"
proof (induction k)
  case (Suc k)
  let ?x = "ai_limit (aimd_saturated c rtt k l)"
  have small: "?x + ai_increaseBy l \<le> 2 ^ 53" using Suc.IH assms(3-5) by (auto simp: max_def split: if_splits)
  note step = aimd_saturated_step [OF conjunct1 [OF Suc.IH] small assms(5-9)]
  show ?case
  proof (cases "?x \<le> c")
    case True
    then show ?thesis using step(1) Suc.IH assms(5) by auto
  next
    case False
    then show ?thesis using step(2-4) Suc.IH by auto
  qed
qed (use assms(1,2) in auto)

text \<open>C13: The AIMD limit finds the capacity of a saturated resource and keeps probing it: whatever the initial
  limit, after as many samples as that limit and the capacity are away from each other the limit is at most one increment above
  the capacity and at least what one back-off leaves of it, and stays so; and never do more than
  \<open>capacity\<close> samples pass before the limit is above the capacity again.\<close>

theorem aimd_settles:
  assumes "NewAIMDLimit name n (Fin r) inc reg tags = (l, e)" and "1 \<le> n" and "0 \<le> r" and "r \<le> 1" and "1 \<le> c"
    and "n + max 1 inc \<le> 2 ^ 53" and "c + 2 * max 1 inc \<le> 2 ^ 53" and "nat \<bar>n - c\<bar> \<le> k"
  shows "min c \<lfloor>of_int (c + 1) * r\<rfloor> \<le> aimd_EstimatedLimit (aimd_saturated c rtt k l)
    \<and> 1 \<le> aimd_EstimatedLimit (aimd_saturated c rtt k l)
    \<and> aimd_EstimatedLimit (aimd_saturated c rtt k l) \<le> c + max 1 inc
    \<and> (\<exists>j. int j \<le> c \<and> c < aimd_EstimatedLimit (aimd_saturated c rtt (k + j) l))"
proof -
  have l: "ai_limit l = n" "ai_increaseBy l = max 1 inc" "ai_backOffRatio l = Fin r"
    using assms(1) by (auto simp: NewAIMDLimit_def Let_def split: prod.splits)
  let ?x = "\<lambda>k. ai_limit (aimd_saturated c rtt k l)"
  have bounds: "1 \<le> ?x k \<and> min (min c \<lfloor>of_int (c + 1) * r\<rfloor>) (n + int k) \<le> ?x k \<and> ?x k \<le> max (c + max 1 inc) (n - int k)" for k
    using aimd_saturated_bounds [OF l(1) assms(2) _ _ _ l(3) assms(3-5)] assms(6,7) l(2) by simp
  have "\<exists>j. int j \<le> c \<and> c < ?x (k + j)"
  proof (rule ccontr)
    assume "\<nexists>j. int j \<le> c \<and> c < ?x (k + j)"
    then have low: "?x (k + j) \<le> c" if "int j \<le> c" for j using that by force
    have "1 + int j \<le> ?x (k + j)" if "int j \<le> c" for j using that
    proof (induction j)
      case (Suc j)
      then have "?x (k + j) \<le> c" and "1 + int j \<le> ?x (k + j)" using low by simp_all
      then show ?case
        using aimd_saturated_step(1) [of c rtt "k + j" l r] l bounds [of "k + j"] assms(3-5,7) by simp
    qed (use bounds [of k] in simp)
    from this [of "nat c"] low [of "nat c"] show False using assms(5) by simp
  qed
  then show ?thesis using bounds [of k] assms(8) by (auto simp: aimd_EstimatedLimit_def)
qed

theorem aimd_settles_witness:
  "\<exists>j. int j \<le> 50 \<and> 50 < aimd_EstimatedLimit (aimd_saturated 50 1 (40 + j) (fst (NewAIMDLimit ''a'' 10 (Fin (1 / 2)) 1 NilRegistry [])))
    \<and> aimd_EstimatedLimit (aimd_saturated 50 1 40 (fst (NewAIMDLimit ''a'' 10 (Fin (1 / 2)) 1 NilRegistry []))) \<in> {25..51}"
  using aimd_settles [of "''a''" 10 "1 / 2" 1 NilRegistry "[]" _ _ 50 40 1, OF prod.collapse [symmetric]] by auto

end
