(* ===== verification/Limit_Windowed.thy ===== *)
theory Limit_Windowed
  imports Limit_Gradient2 Limit_AIMD Sample_Window
begin

text \<open>
  \<open>limit/windowed.go\<close>: the wrapper that collects samples in a window and hands the delegate one
  aggregated sample per window. It is polymorphic in the delegate, given by its method table.
  Every operation holds the mutex.
\<close>

record 'l windowed =
  wd_minWindowTime :: int
  wd_maxWindowTime :: int
  wd_nextUpdateTime :: int
  wd_windowSize :: int
  wd_minRTTThreshold :: int
  wd_delegate :: 'l
  wd_sample :: sample_window
  wd_registry :: registry
  wd_commonSampler :: "common_sampler option"

datatype windowed_error = MinWindowTime | MaxWindowTime | WindowSize | NoDelegate

definition minInt64 :: "int \<Rightarrow> int \<Rightarrow> int" where
  "minInt64 a b = (if a < b then a else b)"

definition maxInt64 :: "int \<Rightarrow> int \<Rightarrow> int" where
  "maxInt64 a b = (if a > b then a else b)"

definition NewWindowedLimit ::
    "rand \<Rightarrow> string \<Rightarrow> int \<Rightarrow> int \<Rightarrow> int \<Rightarrow> int \<Rightarrow> 'l option \<Rightarrow> registry \<Rightarrow> string list
     \<Rightarrow> windowed_error + 'l windowed \<times> effect list" where
  "NewWindowedLimit rd name minWindowTime maxWindowTime windowSize minRTTThreshold delegate registry tags =
     (if minWindowTime < 100 * 1000000 then Inl MinWindowTime
      else if maxWindowTime < 100 * 1000000 then Inl MaxWindowTime
      else if windowSize < 10 then Inl WindowSize
      else case delegate of
             None \<Rightarrow> Inl NoDelegate
           | Some dl \<Rightarrow>
               (let registry = registry_or_empty registry;
                    (sampler, e) = NewCommonMetricSamplerOrNil registry name tags
                in Inr (\<lparr>wd_minWindowTime = minWindowTime, wd_maxWindowTime = maxWindowTime, wd_nextUpdateTime = 0,
                         wd_windowSize = windowSize, wd_minRTTThreshold = minRTTThreshold, wd_delegate = dl,
                         wd_sample = NewDefaultImmutableSampleWindow (timeNow rd), wd_registry = registry,
                         wd_commonSampler = sampler\<rparr>, e)))"

definition NewDefaultWindowedLimit ::
    "rand \<Rightarrow> string \<Rightarrow> 'l option \<Rightarrow> registry \<Rightarrow> string list \<Rightarrow> ('l windowed \<times> effect list) option" where
  "NewDefaultWindowedLimit rd name delegate registry tags =
     (case NewWindowedLimit rd name 1000000000 1000000000 10 100000000 delegate registry tags of
        Inl _ \<Rightarrow> None | Inr l \<Rightarrow> Some l)"

definition windowed_EstimatedLimit :: "'l limit_ops \<Rightarrow> 'l windowed \<Rightarrow> int" where
  "windowed_EstimatedLimit ops l = EstimatedLimit ops (wd_delegate l)"

definition windowed_NotifyOnChange :: "'l limit_ops \<Rightarrow> nat \<Rightarrow> 'l windowed \<Rightarrow> 'l windowed" where
  "windowed_NotifyOnChange ops consumer l = l\<lparr>wd_delegate := NotifyOnChange ops consumer (wd_delegate l)\<rparr>"

definition isWindowReady :: "int \<Rightarrow> int \<Rightarrow> 'l windowed \<Rightarrow> bool" where
  "isWindowReady rtt inFlight l \<longleftrightarrow> rtt < MaxInt64 \<and> i32 inFlight > wd_windowSize l"

definition windowed_OnSample ::
    "'l limit_ops \<Rightarrow> rand \<Rightarrow> int \<Rightarrow> int \<Rightarrow> int \<Rightarrow> bool \<Rightarrow> 'l windowed \<Rightarrow> 'l windowed \<times> effect list" where
  "windowed_OnSample ops rd startTime rtt inFlight didDrop l =
     (let e = Sample (wd_commonSampler l) rtt inFlight didDrop;
          endTime = i64 (startTime + rtt)
      in if rtt < wd_minRTTThreshold l then (l, e)
         else let l = l\<lparr>wd_sample := (if didDrop then window_AddDroppedSample (timeNow rd) (- 1) inFlight (wd_sample l)
                                      else window_AddSample (timeNow rd) (- 1) rtt inFlight (wd_sample l))\<rparr>
              in if endTime > wd_nextUpdateTime l \<and> isWindowReady rtt inFlight l
                 then let current = wd_sample l;
                          (dl, e') = OnSample ops rd startTime (AverageRTTNanoseconds current) (MaxInFlight current) didDrop
                                       (wd_delegate l)
                      in (l\<lparr>wd_sample := NewDefaultImmutableSampleWindow (timeNow rd),
                            wd_nextUpdateTime := i64 (endTime + minInt64 (maxInt64 (i64 (CandidateRTTNanoseconds current * 2))
                              (wd_minWindowTime l)) (wd_maxWindowTime l)),
                            wd_delegate := dl\<rparr>, e @ e')
                 else (l, e))"

definition windowed_ops :: "'l limit_ops \<Rightarrow> 'l windowed limit_ops" where
  "windowed_ops ops = \<lparr>EstimatedLimit = windowed_EstimatedLimit ops,
     NotifyOnChange = windowed_NotifyOnChange ops, OnSample = windowed_OnSample ops\<rparr>"

section \<open>What the delegate sees\<close>

text \<open>A sample either leaves the delegate alone or gives it the aggregate of the window.\<close>

lemma windowed_delegate:
  "wd_delegate (fst (windowed_OnSample ops rd st rtt infl d l)) = wd_delegate l
   \<or> (\<exists>rtt' infl'. wd_delegate (fst (windowed_OnSample ops rd st rtt infl d l))
        = fst (OnSample ops rd st rtt' infl' d (wd_delegate l)))"
  by (auto simp: windowed_OnSample_def Let_def case_prod_beta)

text \<open>A sample, when its end does not overflow: what it does to the wrapper, written out.\<close>

definition window_after :: "rand \<Rightarrow> int \<Rightarrow> int \<Rightarrow> bool \<Rightarrow> sample_window \<Rightarrow> sample_window" where
  "window_after rd rtt infl d w = (if d then window_AddDroppedSample (timeNow rd) (- 1) infl w
     else window_AddSample (timeNow rd) (- 1) rtt infl w)"

lemma windowed_sample:
  assumes "i64 (st + rtt) = st + rtt"
  shows "fst (windowed_OnSample ops rd st rtt infl d l) =
    (let w = window_after rd rtt infl d (wd_sample l) in
     if rtt < wd_minRTTThreshold l then l
     else if st + rtt > wd_nextUpdateTime l \<and> rtt < 2 ^ 63 - 1 \<and> i32 infl > wd_windowSize l
     then l\<lparr>wd_delegate := fst (OnSample ops rd st (AverageRTTNanoseconds w) (MaxInFlight w) d (wd_delegate l)),
       wd_sample := NewDefaultImmutableSampleWindow (timeNow rd),
       wd_nextUpdateTime := i64 (st + rtt
         + min (max (i64 (CandidateRTTNanoseconds w * 2)) (wd_minWindowTime l)) (wd_maxWindowTime l))\<rparr>
     else l\<lparr>wd_sample := w\<rparr>)"
proof -
  have m: "minInt64 a b = min a b" "maxInt64 a b = max a b" for a b by (auto simp: minInt64_def maxInt64_def)
  show ?thesis unfolding windowed_OnSample_def Let_def assms window_after_def [symmetric] m
    by (auto simp: isWindowReady_def case_prod_beta)
qed

text \<open>C30: When the delegate is updated and with what: a sample reaches the window when its
  round-trip time is at least the threshold, and is otherwise without effect. It closes the window exactly when it ends after the time of the
  next update, its round-trip time is below the largest 64-bit integer, and the requests in flight, converted to 32 bits, exceed the
  window size. The delegate then gets the start time and the drop flag of this last sample with the
  window's average round-trip time and its largest number in flight, a new window begins, and the next update is twice the
  window's least round-trip time later, but at least the minimal window time and at most the maximal one, which prevails. A sample that does
  not close the window only extends it. (Window times not negative, sample ends that leave room for the maximal one in 64 bits; the exact time of the
  next update for a least round-trip time from 0 to below \<open>2 ^ 62\<close>, its range in any case.)\<close>

theorem windowed_forwards:
  assumes "windowed_OnSample ops rd st rtt infl d l = (l', e)"
    and "st + rtt + wd_maxWindowTime l < 2 ^ 63" and "- (2 ^ 63) \<le> st + rtt" and "0 \<le> wd_minWindowTime l" and "0 \<le> wd_maxWindowTime l"
  shows "(rtt < wd_minRTTThreshold l \<longrightarrow> l' = l)
    \<and> (wd_minRTTThreshold l \<le> rtt \<longrightarrow>
        (let w = (if d then window_AddDroppedSample (timeNow rd) (- 1) infl (wd_sample l)
                  else window_AddSample (timeNow rd) (- 1) rtt infl (wd_sample l))
         in if st + rtt > wd_nextUpdateTime l \<and> rtt < 2 ^ 63 - 1 \<and> i32 infl > wd_windowSize l
            then \<exists>t. l' = l\<lparr>wd_delegate := fst (OnSample ops rd st (AverageRTTNanoseconds w) (MaxInFlight w) d (wd_delegate l)),
                           wd_sample := NewDefaultImmutableSampleWindow (timeNow rd), wd_nextUpdateTime := t\<rparr>
              \<and> st + rtt + min (wd_minWindowTime l) (wd_maxWindowTime l) \<le> t \<and> t \<le> st + rtt + wd_maxWindowTime l
              \<and> (0 \<le> CandidateRTTNanoseconds w \<and> CandidateRTTNanoseconds w < 2 ^ 62 \<longrightarrow>
                   t = st + rtt + min (max (2 * CandidateRTTNanoseconds w) (wd_minWindowTime l)) (wd_maxWindowTime l))
            else l' = l\<lparr>wd_sample := w\<rparr>))"
proof -
  have i: "i64 (st + rtt) = st + rtt" using assms(2-5) by (intro i64_id) (simp add: in_i64_def)
  define w where "w = window_after rd rtt infl d (wd_sample l)"
  define m where "m = min (max (i64 (CandidateRTTNanoseconds w * 2)) (wd_minWindowTime l)) (wd_maxWindowTime l)"
  have m: "0 \<le> m" "m \<le> wd_maxWindowTime l" "min (wd_minWindowTime l) (wd_maxWindowTime l) \<le> m"
    using assms(4,5) by (auto simp: m_def)
  then have "in_i64 (st + rtt + m)" using assms(2,3) unfolding in_i64_def by linarith
  then have time: "i64 (st + rtt + m) = st + rtt + m" by (rule i64_id)
  have exact: "m = min (max (2 * CandidateRTTNanoseconds w) (wd_minWindowTime l)) (wd_maxWindowTime l)"
    if "0 \<le> CandidateRTTNanoseconds w \<and> CandidateRTTNanoseconds w < 2 ^ 62"
  proof -
    have "i64 (CandidateRTTNanoseconds w * 2) = CandidateRTTNanoseconds w * 2"
      using that by (intro i64_id) (simp add: in_i64_def)
    then show ?thesis by (simp add: m_def mult.commute)
  qed
  let ?closes = "st + rtt > wd_nextUpdateTime l \<and> rtt < 2 ^ 63 - 1 \<and> i32 infl > wd_windowSize l"
  have run: "l' = (if rtt < wd_minRTTThreshold l then l else if ?closes
      then l\<lparr>wd_delegate := fst (OnSample ops rd st (AverageRTTNanoseconds w) (MaxInFlight w) d (wd_delegate l)),
        wd_sample := NewDefaultImmutableSampleWindow (timeNow rd), wd_nextUpdateTime := st + rtt + m\<rparr>
      else l\<lparr>wd_sample := w\<rparr>)"
    using windowed_sample [OF i, of ops rd infl d l] assms(1) time unfolding Let_def w_def [symmetric] m_def [symmetric] by simp
  show ?thesis unfolding Let_def window_after_def [symmetric] w_def [symmetric]
  proof (intro conjI impI)
    assume "wd_minRTTThreshold l \<le> rtt"
    then show "if ?closes
      then \<exists>t. l' = l\<lparr>wd_delegate := fst (OnSample ops rd st (AverageRTTNanoseconds w) (MaxInFlight w) d (wd_delegate l)),
              wd_sample := NewDefaultImmutableSampleWindow (timeNow rd), wd_nextUpdateTime := t\<rparr>
        \<and> st + rtt + min (wd_minWindowTime l) (wd_maxWindowTime l) \<le> t \<and> t \<le> st + rtt + wd_maxWindowTime l
        \<and> (0 \<le> CandidateRTTNanoseconds w \<and> CandidateRTTNanoseconds w < 2 ^ 62 \<longrightarrow>
             t = st + rtt + min (max (2 * CandidateRTTNanoseconds w) (wd_minWindowTime l)) (wd_maxWindowTime l))
      else l' = l\<lparr>wd_sample := w\<rparr>"
      using run m exact by (cases ?closes) (auto intro!: exI [of _ "st + rtt + m"])
  qed (use run in simp)
qed

text \<open>A default window around an AIMD limit of ten.\<close>

definition windowed_aimd :: "aimd windowed" where
  "windowed_aimd = \<lparr>wd_minWindowTime = 1000000000, wd_maxWindowTime = 1000000000, wd_nextUpdateTime = 0,
     wd_windowSize = 10, wd_minRTTThreshold = 100000000,
     wd_delegate = fst (NewAIMDLimit ''a'' 10 (Fin (1 / 2)) 1 NilRegistry []),
     wd_sample = NewDefaultImmutableSampleWindow 0, wd_registry = EmptyMetricRegistry, wd_commonSampler = None\<rparr>"

definition still :: rand where
  "still = \<lparr>randFloat64 = Fin 0, randIntn = (\<lambda>n. 0), timeNow = 0\<rparr>"

theorem windowed_forwards_witness:
  "wd_sample (fst (windowed_OnSample aimd_ops still 1 200000000 11 False windowed_aimd))
     = NewDefaultImmutableSampleWindow 0
   \<and> wd_nextUpdateTime (fst (windowed_OnSample aimd_ops still 1 200000000 11 False windowed_aimd)) = 1200000001
   \<and> wd_nextUpdateTime (fst (windowed_OnSample aimd_ops still 1 200000000 10 False windowed_aimd)) = 0"
proof -
  have i: "i32 11 = 11" "i32 10 = 10" "i64 200000000 = 200000000" "i64 1 = 1"
    by (auto intro!: i32_id i64_id simp: in_i32_def in_i64_def)
  show ?thesis
    using windowed_forwards [of aimd_ops still 1 200000000 11 False windowed_aimd, OF prod.collapse [symmetric]]
      windowed_forwards [of aimd_ops still 1 200000000 10 False windowed_aimd, OF prod.collapse [symmetric]] i
    by (auto simp: windowed_aimd_def still_def Let_def CandidateRTTNanoseconds_def window_AddSample_def
        NewDefaultImmutableSampleWindow_def NewImmutableSampleWindow_def)
qed

section \<open>The samples of the delegate\<close>

text \<open>
  What the wrapper does to a sequence of samples, without its state and its fixed-width integers: the samples since the last
  window are \<open>seen\<close>, and \<open>due\<close> is the time after which a sample may close the window. The result is the sequence of samples
  the delegate gets: the mean round-trip time of the completed requests of each window (zero when all were dropped), and the
  largest number in flight of all its requests.
\<close>

definition mean_rtt :: "win_sample list \<Rightarrow> int" where
  "mean_rtt xs = (if rtts xs = [] then 0 else sum_list (rtts xs) div int (length (rtts xs)))"

definition peak_inFlight :: "win_sample list \<Rightarrow> int" where
  "peak_inFlight xs = foldr max (inflights xs) 0"

definition window_length :: "int \<Rightarrow> int \<Rightarrow> win_sample list \<Rightarrow> int" where
  "window_length minTime maxTime xs =
     min (if rtts xs = [] then minTime else max (2 * Min (set (rtts xs))) minTime) maxTime"

fun windows :: "int \<Rightarrow> int \<Rightarrow> int \<Rightarrow> int \<Rightarrow> int \<Rightarrow> win_sample list \<Rightarrow> limit_sample list \<Rightarrow> limit_sample list" where
  "windows threshold need minTime maxTime due seen [] = []"
| "windows threshold need minTime maxTime due seen ((rd, st, rtt, infl, d) # xs) =
     (if rtt < threshold then windows threshold need minTime maxTime due seen xs
      else let seen = seen @ [if d then Dropped infl else Completed rtt infl]
           in if due < st + rtt \<and> need < infl
              then (rd, st, mean_rtt seen, peak_inFlight seen, d)
                # windows threshold need minTime maxTime (st + rtt + window_length minTime maxTime seen) [] xs
              else windows threshold need minTime maxTime due seen xs)"

text \<open>Samples whose sums and ends fit into 64 bits.\<close>

definition moderate :: "limit_sample \<Rightarrow> bool" where
  "moderate = (\<lambda>(rd, st, rtt, infl, d). 0 \<le> st \<and> st \<le> 2 ^ 61 \<and> 0 < rtt \<and> rtt \<le> 2 ^ 40 \<and> - (2 ^ 31) \<le> infl \<and> infl < 2 ^ 31)"

lemma foldr_min_Min: "xs \<noteq> [] \<Longrightarrow> foldr min xs z = min (Min (set xs)) z" for z :: int
proof (induction xs)
  case (Cons a xs)
  then show ?case by (cases "xs = []") (simp_all add: min.assoc)
qed simp

lemma window_reads:
  assumes "window_of xs w" and "good_samples xs"
  shows "AverageRTTNanoseconds w = mean_rtt xs" and "MaxInFlight w = peak_inFlight xs"
    and "0 \<le> minT \<Longrightarrow> min (max (i64 (CandidateRTTNanoseconds w * 2)) minT) maxT = window_length minT maxT xs"
proof -
  note b = window_of_sum [OF assms(2)]
  have "sum_list (rtts xs) < 2 ^ 63" using b(2) by simp
  then show "AverageRTTNanoseconds w = mean_rtt xs"
    using assms(1) b(1) by (auto simp: window_of_def AverageRTTNanoseconds_def mean_rtt_def quot64_nonneg)
  show "MaxInFlight w = peak_inFlight xs" using assms(1) by (simp add: window_of_def MaxInFlight_def peak_inFlight_def)
  assume minT: "0 \<le> minT"
  show "min (max (i64 (CandidateRTTNanoseconds w * 2)) minT) maxT = window_length minT maxT xs"
  proof (cases "rtts xs = []")
    case True
    then have "i64 (CandidateRTTNanoseconds w * 2) = - 2"
      using assms(1) by (simp add: window_of_def CandidateRTTNanoseconds_def i64_def)
    then show ?thesis using True minT by (simp add: window_length_def)
  next
    case False
    have "Min (set (rtts xs)) \<in> set (rtts xs)" using False by simp
    then have r: "0 < Min (set (rtts xs))" "Min (set (rtts xs)) \<le> 2 ^ 40" using assms(2) by (auto simp: good_samples_def)
    then have "CandidateRTTNanoseconds w = Min (set (rtts xs))"
      using assms(1) False by (simp add: window_of_def CandidateRTTNanoseconds_def foldr_min_Min)
    moreover have "i64 (Min (set (rtts xs)) * 2) = Min (set (rtts xs)) * 2"
      using r by (intro i64_id) (simp add: in_i64_def)
    ultimately show ?thesis using False by (simp add: window_length_def mult.commute)
  qed
qed

lemma window_of_new: "window_of [] (NewDefaultImmutableSampleWindow now)"
  by (simp add: window_of_def NewDefaultImmutableSampleWindow_def NewImmutableSampleWindow_def)

lemma window_after_step:
  "window_after rd rtt infl d w = win_step (timeNow rd) w (if d then Dropped infl else Completed rtt infl)"
  by (simp add: window_after_def)

lemma windowed_run:
  assumes "window_of seen (wd_sample l)" and "\<forall>r\<in>set (rtts seen). 0 < r \<and> r \<le> 2 ^ 40"
    and "length seen + length xs \<le> 2 ^ 20" and "\<forall>x\<in>set xs. moderate x"
    and "0 \<le> wd_minWindowTime l" and "0 \<le> wd_maxWindowTime l" and "wd_maxWindowTime l \<le> 2 ^ 60"
  shows "wd_delegate (limit_run (windowed_ops ops) l xs)
    = limit_run ops (wd_delegate l) (windows (wd_minRTTThreshold l) (wd_windowSize l) (wd_minWindowTime l) (wd_maxWindowTime l)
        (wd_nextUpdateTime l) seen xs)"
  using assms
proof (induction xs arbitrary: l seen)
  case Nil
  then show ?case by (simp add: limit_run_def)
next
  case (Cons x xs)
  obtain rd st rtt infl d where x: "x = (rd, st, rtt, infl, d)" by (metis prod.exhaust)
  have mod: "0 \<le> st" "st \<le> 2 ^ 61" "0 < rtt" "rtt \<le> 2 ^ 40" "- (2 ^ 31) \<le> infl" "infl < 2 ^ 31"
    using Cons.prems(4) by (simp_all add: x moderate_def)
  have i: "i64 (st + rtt) = st + rtt" "i32 infl = infl" "rtt < 2 ^ 63 - 1"
    using mod by (auto intro!: i64_id i32_id simp: in_i64_def in_i32_def)
  let ?y = "if d then Dropped infl else Completed rtt infl" and ?w = "window_after rd rtt infl d (wd_sample l)"
  let ?l = "fst (windowed_OnSample ops rd st rtt infl d l)"
  have good: "good_samples (seen @ [?y])" using Cons.prems(2,3) mod by (auto simp: good_samples_def)
  have w: "window_of (seen @ [?y]) ?w"
    unfolding window_after_step by (rule window_of_step [OF Cons.prems(1) good])
  note reads = window_reads [OF w good]
  have rest: "wd_delegate (limit_run (windowed_ops ops) l (x # xs)) = wd_delegate (limit_run (windowed_ops ops) ?l xs)"
    by (simp add: limit_run_def x windowed_ops_def)
  have r: "\<forall>r\<in>set (rtts (seen @ [?y])). 0 < r \<and> r \<le> 2 ^ 40" using good unfolding good_samples_def by (rule conjunct1)
  have len: "length seen + length xs \<le> 2 ^ 20" "length (seen @ [?y]) + length xs \<le> 2 ^ 20" "length [] + length xs \<le> 2 ^ 20"
    using Cons.prems(3) by simp_all
  have xs: "\<forall>x\<in>set xs. moderate x" using Cons.prems(4) by simp
  let ?due = "st + rtt + window_length (wd_minWindowTime l) (wd_maxWindowTime l) (seen @ [?y])"
  have "window_length (wd_minWindowTime l) (wd_maxWindowTime l) (seen @ [?y]) \<le> 2 ^ 60"
    "0 \<le> window_length (wd_minWindowTime l) (wd_maxWindowTime l) (seen @ [?y])"
    using Cons.prems(5-7) by (auto simp: window_length_def)
  then have due: "i64 ?due = ?due" using mod by (intro i64_id) (simp add: in_i64_def)
  note step = windowed_sample [OF i(1), of ops rd infl d l, unfolded Let_def reads(1,2) reads(3) [OF Cons.prems(5)] due i(2)]
  consider (short) "rtt < wd_minRTTThreshold l"
    | (closes) "\<not> rtt < wd_minRTTThreshold l" "wd_nextUpdateTime l < st + rtt \<and> wd_windowSize l < infl"
    | (stays) "\<not> rtt < wd_minRTTThreshold l" "\<not> (wd_nextUpdateTime l < st + rtt \<and> wd_windowSize l < infl)" by blast
  then show ?case
  proof cases
    case short
    then have "?l = l" using step by simp
    then show ?thesis using Cons.IH [OF Cons.prems(1,2) len(1) xs Cons.prems(5-7)] short rest by (simp add: x)
  next
    case closes
    let ?l' = "l\<lparr>wd_delegate := fst (OnSample ops rd st (mean_rtt (seen @ [?y])) (peak_inFlight (seen @ [?y])) d (wd_delegate l)),
        wd_sample := NewDefaultImmutableSampleWindow (timeNow rd), wd_nextUpdateTime := ?due\<rparr>"
    have "?l = ?l'" using step closes i(3) by simp
    moreover have "window_of [] (wd_sample ?l')" by (simp add: window_of_new)
    ultimately show ?thesis
      using Cons.IH [of "[]" ?l', OF _ _ len(3) xs] Cons.prems(5-7) closes rest by (simp add: x limit_run_def Let_def)
  next
    case stays
    have l: "?l = l\<lparr>wd_sample := ?w\<rparr>" using step stays by auto
    have "windows (wd_minRTTThreshold l) (wd_windowSize l) (wd_minWindowTime l) (wd_maxWindowTime l) (wd_nextUpdateTime l) seen (x # xs)
      = windows (wd_minRTTThreshold l) (wd_windowSize l) (wd_minWindowTime l) (wd_maxWindowTime l) (wd_nextUpdateTime l) (seen @ [?y]) xs"
      unfolding x windows.simps Let_def using stays by (simp only: if_False)
    then show ?thesis
      using Cons.IH [of "seen @ [?y]" "l\<lparr>wd_sample := ?w\<rparr>", OF _ r len(2) xs] w Cons.prems(5-7) rest unfolding l by simp
  qed
qed

section \<open>What the wrapper loses\<close>

lemma still_windows:
  "AverageRTTNanoseconds (window_AddDroppedSample n (- 1) k (NewDefaultImmutableSampleWindow m)) = 0"
  "sw_sampleCount (window_AddDroppedSample n (- 1) k (NewDefaultImmutableSampleWindow m)) = 0"
  by (simp_all add: AverageRTTNanoseconds_def window_AddDroppedSample_def NewDefaultImmutableSampleWindow_def
      NewImmutableSampleWindow_def Let_def)

text \<open>A drop inside a window is lost: a default window around an AIMD limit of ten that sees a
  dropped request and then a successful one that closes the window raises the limit to eleven, although
  the window knows of the drop.\<close>

theorem windowed_loses_drops:
  "case windowed_OnSample aimd_ops still 1 200000000 5 True windowed_aimd of (l1, _) \<Rightarrow>
     DidDrop (wd_sample l1)
   \<and> windowed_EstimatedLimit aimd_ops (fst (windowed_OnSample aimd_ops still 1 200000000 20 False l1)) = 11"
proof -
  have i: "i64 200000001 = 200000001" "i32 20 = 20" "i32 5 = 5" "i64 11 = 11"
    by (auto intro!: i64_id i32_id simp: in_i64_def in_i32_def)
  have l: "ai_limit (fst (NewAIMDLimit ''a'' 10 (Fin (1 / 2)) 1 NilRegistry [])) = 10"
    "ai_increaseBy (fst (NewAIMDLimit ''a'' 10 (Fin (1 / 2)) 1 NilRegistry [])) = 1"
    by (simp_all add: NewAIMDLimit_def Let_def case_prod_beta)
  show ?thesis
    by (simp add: windowed_OnSample_def windowed_aimd_def isWindowReady_def i l Let_def case_prod_beta DidDrop_def
        MaxInFlight_def window_AddDroppedSample_def window_AddSample_def NewDefaultImmutableSampleWindow_def
        NewImmutableSampleWindow_def windowed_EstimatedLimit_def aimd_ops_def aimd_OnSample_def aimd_EstimatedLimit_def)
qed

text \<open>Windows feed zero round-trip times to their delegate: a default window around a default
  Gradient2 limit whose first sample is a dropped request with more than ten in flight closes a window
  without completed requests, hands the delegate an average of zero and leaves it at NaN for ever, so the
  estimated limit is the smallest 64-bit integer whatever samples follow.\<close>

theorem windowed_gradient2_poisoned:
  "\<exists>g e w e'. NewDefaultGradient2Limit ''g'' None NilRegistry [] = Some (g, e)
     \<and> NewDefaultWindowedLimit still ''w'' (Some g) NilRegistry [] = Some (w, e')
     \<and> (\<forall>xs. windowed_EstimatedLimit gradient2_ops
           (limit_run (windowed_ops gradient2_ops) w ((still, 1, 200000000, 20, True) # xs)) = MinInt64)"
proof -
  obtain g e where g: "NewDefaultGradient2Limit ''g'' None NilRegistry [] = Some (g, e)"
    using default_gradient2 by blast
  obtain w e' where w: "NewDefaultWindowedLimit still ''w'' (Some g) NilRegistry [] = Some (w, e')"
    by (simp add: NewDefaultWindowedLimit_def NewWindowedLimit_def Let_def case_prod_beta)
  have fields: "wd_delegate w = g" "wd_sample w = NewDefaultImmutableSampleWindow 0" "wd_nextUpdateTime w = 0"
    "wd_windowSize w = 10" "wd_minRTTThreshold w = 100000000"
    using w by (auto simp: NewDefaultWindowedLimit_def NewWindowedLimit_def still_def Let_def case_prod_beta)
  have i: "i64 200000001 = 200000001" "i32 20 = 20" by (auto intro!: i64_id i32_id simp: in_i64_def in_i32_def)
  have mx: "MaxInFlight (window_AddDroppedSample 0 (- 1) 20 (NewDefaultImmutableSampleWindow 0)) = 20"
    by (simp add: MaxInFlight_def window_AddDroppedSample_def NewDefaultImmutableSampleWindow_def
        NewImmutableSampleWindow_def Let_def)
  have "wd_delegate (fst (OnSample (windowed_ops gradient2_ops) still 1 200000000 20 True w))
      = fst (OnSample gradient2_ops still 1 0 20 True g)"
    by (simp add: windowed_ops_def windowed_OnSample_def fields isWindowReady_def i Let_def case_prod_beta still_windows mx still_def)
  moreover have "gradient2_poisoned (fst (OnSample gradient2_ops still 1 0 20 True g))"
    by (rule gradient2_zero_rtt [OF g]) (simp_all add: in_i64_def)
  ultimately have first: "gradient2_poisoned (wd_delegate (fst (OnSample (windowed_ops gradient2_ops) still 1 200000000 20 True w)))"
    by simp
  have step: "gradient2_poisoned (wd_delegate (fst (OnSample (windowed_ops gradient2_ops) r st rtt infl d l)))"
    if "gradient2_poisoned (wd_delegate l)" for l :: "gradient2 windowed" and r st rtt infl d
    using windowed_delegate [of gradient2_ops r st rtt infl d l] gradient2_poisoned_step that
    by (metis limit_ops.select_convs(3) windowed_ops_def)
  have "gradient2_poisoned (wd_delegate (limit_run (windowed_ops gradient2_ops) w ((still, 1, 200000000, 20, True) # xs)))" for xs
    using limit_run_preserves [of "\<lambda>l. gradient2_poisoned (wd_delegate l)" "windowed_ops gradient2_ops", OF step first]
    by (simp add: limit_run_def)
  then show ?thesis using g w gradient2_poisoned_estimate
    by (auto simp: windowed_EstimatedLimit_def gradient2_ops_def)
qed

end
