(* ===== verification/Limiter_Delegate.thy ===== *)
theory Limiter_Delegate
  imports Limiter_Default
begin

text \<open>
  What the limiters that wrap another one (\<open>limiter/blocking.go\<close>, \<open>deadline.go\<close>,
  \<open>queue_blocking.go\<close>) see of their delegate, and the link from the goroutines of a wrapper to
  the callers in the model of the default limiter.
\<close>

section \<open>Limiters\<close>

text \<open>\<open>core.Limiter\<close> with its listeners: acquiring, and completing with an outcome.\<close>

record ('d, 'k) delegate_ops =
  lim_Acquire :: "int \<Rightarrow> ctx \<Rightarrow> 'd \<Rightarrow> 'k option \<times> 'd"
  lim_Complete :: "rand \<Rightarrow> outcome \<Rightarrow> 'k \<Rightarrow> 'd \<Rightarrow> 'd"

definition default_delegate :: "'l limit_ops \<Rightarrow> ('s, 'r) strategy_ops
    \<Rightarrow> (('l, 's) default_limiter, 'r default_listener) delegate_ops" where
  "default_delegate lops sops =
     \<lparr>lim_Acquire = (\<lambda>now c l. case limiter_Acquire sops now c l of (ls, l', e) \<Rightarrow> (ls, l')),
      lim_Complete = (\<lambda>rd oc ls l. case oc of
          Succeeded \<Rightarrow> fst (listener_OnSuccess lops sops rd ls l)
        | Ignored \<Rightarrow> listener_OnIgnore sops ls l
        | WasDropped \<Rightarrow> fst (listener_OnDropped lops sops rd ls l))\<rparr>"

section \<open>The callers of a wrapped default limiter\<close>

text \<open>
  The goroutines above a default limiter are callers of it: \<open>hold\<close> gives the listener a
  goroutine is responsible for, and there is one running request for every such goroutine.
\<close>

definition callers_match :: "('g \<Rightarrow> 'r default_listener option) \<Rightarrow> 'g list \<Rightarrow> 'r request list \<Rightarrow> bool" where
  "callers_match hold gs rs \<longleftrightarrow>
     (\<forall>ls. length (filter (\<lambda>g. hold g = Some ls) gs) = length (filter (\<lambda>r. r = Running ls) rs))
   \<and> length (filter (\<lambda>g. hold g \<noteq> None) gs) = length (filter is_running rs)
   \<and> (\<forall>r\<in>set rs. is_running r \<or> r = Finished)"

lemma callers_match_Nil: "callers_match hold [] []"
  by (simp add: callers_match_def)

lemma callers_match_arrive: "callers_match hold gs rs \<Longrightarrow> hold g = None \<Longrightarrow> callers_match hold (gs @ [g]) rs"
  by (simp add: callers_match_def)

lemma callers_match_same:
  assumes "callers_match hold gs rs" and "i < length gs" and "hold g = hold (gs ! i)"
  shows "callers_match hold (gs[i := g]) rs"
proof -
  have same: "length (filter (\<lambda>x. P (hold x)) (gs[i := g])) = length (filter (\<lambda>x. P (hold x)) gs)" for P
    using length_filter_update [OF assms(2), of "\<lambda>x. P (hold x)" g] assms(3) by simp
  show ?thesis using assms(1) same [of "\<lambda>h. h = Some _"] same [of "\<lambda>h. h \<noteq> None"] by (simp add: callers_match_def)
qed

lemma callers_match_acquired:
  assumes "callers_match hold gs rs" and "i < length gs" and "hold (gs ! i) = None" and "hold g = Some ls"
  shows "callers_match hold (gs[i := g]) (rs @ [Running ls])"
proof -
  have "length (filter (\<lambda>g. hold g = Some k) (gs[i := g])) = length (filter (\<lambda>r. r = Running k) (rs @ [Running ls]))" for k
    using length_filter_update [OF assms(2), of "\<lambda>g. hold g = Some k" g] assms(1,3,4)
    by (simp add: callers_match_def split: if_splits)
  moreover have "length (filter (\<lambda>g. hold g \<noteq> None) (gs[i := g])) = length (filter is_running (rs @ [Running ls]))"
    using length_filter_update [OF assms(2), of "\<lambda>g. hold g \<noteq> None" g] assms(1,3,4) by (simp add: callers_match_def)
  ultimately show ?thesis using assms(1) by (simp add: callers_match_def)
qed

lemma callers_match_complete:
  assumes "callers_match hold gs rs" and "i < length gs" and "hold (gs ! i) = Some ls"
    and "j < length rs" and "rs ! j = Running ls" and "hold g = None"
  shows "callers_match hold (gs[i := g]) (rs[j := Finished])"
proof -
  have "length (filter (\<lambda>g. hold g = Some k) (gs[i := g])) = length (filter (\<lambda>r. r = Running k) (rs[j := Finished]))" for k
    using length_filter_update [OF assms(2), of "\<lambda>g. hold g = Some k" g]
      length_filter_update [OF assms(4), of "\<lambda>r. r = Running k" Finished] assms(1,3,5,6)
    by (simp add: callers_match_def split: if_splits)
  moreover have "length (filter (\<lambda>g. hold g \<noteq> None) (gs[i := g])) = length (filter is_running (rs[j := Finished]))"
    using length_filter_update [OF assms(2), of "\<lambda>g. hold g \<noteq> None" g]
      length_filter_update [OF assms(4), of is_running Finished] assms(1,3,5,6)
    by (simp add: callers_match_def split: if_splits)
  moreover have "\<forall>r\<in>set (rs[j := Finished]). is_running r \<or> r = Finished"
    using assms(1) set_update_subset_insert [of rs j Finished] by (auto simp: callers_match_def)
  ultimately show ?thesis unfolding callers_match_def by blast
qed

lemma callers_match_running:
  assumes "callers_match hold gs rs" and "i < length gs" and "hold (gs ! i) = Some ls"
  obtains j where "j < length rs" and "rs ! j = Running ls"
proof -
  have "0 < length (filter (\<lambda>g. hold g = Some ls) gs)"
    using nth_mem [OF assms(2)] assms(3) by (auto simp: filter_empty_conv)
  then have "0 < length (filter (\<lambda>r. r = Running ls) rs)" using assms(1) unfolding callers_match_def by metis
  then have "Running ls \<in> set rs" by (auto simp: filter_empty_conv)
  then show ?thesis using that by (auto simp: in_set_conv_nth)
qed

lemma callers_match_total:
  assumes "callers_match hold gs rs"
  shows "length (filter holds_token rs) = length (filter (\<lambda>g. hold g \<noteq> None) gs)"
    and "length (filter is_running rs) = length (filter (\<lambda>g. hold g \<noteq> None) gs)"
proof -
  have "filter holds_token rs = filter is_running rs"
    using assms by (intro filter_cong refl) (auto simp: callers_match_def elim: is_running.elims)
  then show "length (filter holds_token rs) = length (filter (\<lambda>g. hold g \<noteq> None) gs)"
    and "length (filter is_running rs) = length (filter (\<lambda>g. hold g \<noteq> None) gs)"
    using assms by (simp_all add: callers_match_def)
qed

lemma callers_room:
  assumes "callers_match hold gs rs" and "i < length gs" and "hold (gs ! i) = None" and "length gs < 2 ^ 31"
  shows "length (filter holds_token rs) < 2 ^ 31 - 1"
proof -
  have "length (filter (\<lambda>g. hold g \<noteq> None) gs) < length gs"
    using assms(2,3) by (intro length_filter_less [of "gs ! i"]) simp_all
  then show ?thesis using callers_match_total [OF assms(1)] assms(4) by simp
qed

lemma default_delegate_Acquire:
  "lim_Acquire (default_delegate lops sops) now c l = (x, l') \<longleftrightarrow> (\<exists>e. limiter_Acquire sops now c l = (x, l', e))"
  by (auto simp: default_delegate_def split: prod.splits)

lemma limiter_reach_steps:
  "(limiter_step lops sops)\<^sup>*\<^sup>* st st' \<Longrightarrow> limiter_reach lops sops l0 st \<Longrightarrow> limiter_reach lops sops l0 st'"
  by (induction rule: rtranclp_induct) (auto intro: limiter_reach.step)

text \<open>The three moves of a wrapper's goroutine that involve the delegate.\<close>

definition callers_reach ::
    "'l limit_ops \<Rightarrow> ('s, 'r) strategy_ops \<Rightarrow> ('l, 's) default_limiter \<Rightarrow> ('g \<Rightarrow> 'r default_listener option)
     \<Rightarrow> ('l, 's) default_limiter \<Rightarrow> 'g list \<Rightarrow> bool" where
  "callers_reach lops sops l0 hold l gs \<longleftrightarrow> (\<exists>rs. limiter_reach lops sops l0 (l, rs) \<and> callers_match hold gs rs)"

lemma callers_reach_granted:
  assumes "callers_reach lops sops l0 hold l gs" and "i < length gs" and "hold (gs ! i) = None" and "length gs < 2 ^ 31"
    and "lim_Acquire (default_delegate lops sops) now c l = (Some ls, l')" and "hold g = Some ls"
  shows "callers_reach lops sops l0 hold l' (gs[i := g])"
proof -
  obtain rs where rs: "limiter_reach lops sops l0 (l, rs)" "callers_match hold gs rs"
    using assms(1) by (auto simp: callers_reach_def)
  obtain e where "limiter_Acquire sops now c l = (Some ls, l', e)" using assms(5) by (auto simp: default_delegate_Acquire)
  from limiter_step.granted [OF this callers_room [OF rs(2) assms(2-4)]]
  have "limiter_reach lops sops l0 (l', rs @ [Running ls])" using rs(1) by (blast intro: limiter_reach.step)
  then show ?thesis using callers_match_acquired [OF rs(2) assms(2,3,6)] by (auto simp: callers_reach_def)
qed

lemma callers_reach_refused:
  assumes "callers_reach lops sops l0 hold l gs" and "lim_Acquire (default_delegate lops sops) now c l = (None, l')"
  shows "callers_reach lops sops l0 hold l' gs"
proof -
  obtain e where "limiter_Acquire sops now c l = (None, l', e)" using assms(2) by (auto simp: default_delegate_Acquire)
  from limiter_step.refused [OF this] show ?thesis using assms(1)
    by (auto simp: callers_reach_def intro: limiter_reach.step)
qed

lemma callers_reach_complete:
  assumes "callers_reach lops sops l0 hold l gs" and "i < length gs" and "hold (gs ! i) = Some ls" and "hold g = None"
  shows "callers_reach lops sops l0 hold (lim_Complete (default_delegate lops sops) rd oc ls l) (gs[i := g])"
proof -
  obtain rs where rs: "limiter_reach lops sops l0 (l, rs)" "callers_match hold gs rs"
    using assms(1) by (auto simp: callers_reach_def)
  obtain j where j: "j < length rs" "rs ! j = Running ls" using rs(2) assms(2,3) by (rule callers_match_running)
  have "(limiter_step lops sops)\<^sup>*\<^sup>* (l, rs) (lim_Complete (default_delegate lops sops) rd oc ls l, rs[j := Finished])"
    using handlers_are_steps [OF j, of lops sops l rd] by (cases oc) (simp_all add: default_delegate_def)
  from limiter_reach_steps [OF this rs(1)] show ?thesis
    using callers_match_complete [OF rs(2) assms(2,3) j assms(4)] by (auto simp: callers_reach_def)
qed

lemma callers_reach_same:
  "callers_reach lops sops l0 hold l gs \<Longrightarrow> i < length gs \<Longrightarrow> hold g = hold (gs ! i)
    \<Longrightarrow> callers_reach lops sops l0 hold l (gs[i := g])"
  by (auto simp: callers_reach_def intro: callers_match_same)

text \<open>A goroutine passes its listener on to another.\<close>

lemma callers_reach_handover:
  assumes "callers_reach lops sops l0 hold l gs" and "i < length gs" and "j < length gs"
    and "hold (gs ! i) = Some ls" and "hold (gs ! j) = None" and "hold g = None" and "hold g' = Some ls"
  shows "callers_reach lops sops l0 hold l (gs[j := g', i := g])"
proof -
  obtain rs where rs: "limiter_reach lops sops l0 (l, rs)" "callers_match hold gs rs"
    using assms(1) by (auto simp: callers_reach_def)
  have "i \<noteq> j" using assms(4,5) by auto
  have same: "length (filter (\<lambda>x. P (hold x)) (gs[j := g', i := g])) = length (filter (\<lambda>x. P (hold x)) gs)" for P
    using length_filter_update [OF assms(3), of "\<lambda>x. P (hold x)" g']
      length_filter_update [of i "gs[j := g']" "\<lambda>x. P (hold x)" g] assms(2,4-7) \<open>i \<noteq> j\<close>
    by simp
  have "callers_match hold (gs[j := g', i := g]) rs"
    using rs(2) same [of "\<lambda>h. h = Some _"] same [of "\<lambda>h. h \<noteq> None"] by (simp add: callers_match_def)
  then show ?thesis using rs(1) by (auto simp: callers_reach_def)
qed

lemma callers_reach_arrive:
  "callers_reach lops sops l0 hold l gs \<Longrightarrow> hold g = None \<Longrightarrow> callers_reach lops sops l0 hold l (gs @ [g])"
  by (auto simp: callers_reach_def intro: callers_match_arrive)

lemma callers_reach_start: "callers_reach lops sops l0 hold l0 []"
  unfolding callers_reach_def using limiter_reach.start callers_match_Nil by blast

text \<open>Over the precise strategy, both counters are the number of goroutines with a listener.\<close>

lemma callers_reach_accounts:
  assumes "NewDefaultLimiter lops precise_ops now (Some lmt) minW maxW thr ws (Some (NewPreciseStrategy n)) lg reg = Inr l0"
    and "callers_reach lops precise_ops l0 hold l gs"
  shows "dl_inFlight l = int (length (filter (\<lambda>g. hold g \<noteq> None) gs))"
    and "precise_GetBusyCount (dl_strategy l) = int (length (filter (\<lambda>g. hold g \<noteq> None) gs))"
proof -
  obtain rs where rs: "limiter_reach lops precise_ops l0 (l, rs)" "callers_match hold gs rs"
    using assms(2) by (auto simp: callers_reach_def)
  note new = precise_stack.new_limiter [OF assms(1) precise_idle precise_idle(2)]
  show "dl_inFlight l = int (length (filter (\<lambda>g. hold g \<noteq> None) gs))"
    and "precise_GetBusyCount (dl_strategy l) = int (length (filter (\<lambda>g. hold g \<noteq> None) gs))"
    using precise_stack.accounted_reach [OF rs(1) new(1)] callers_match_total [OF rs(2)]
    by (simp_all add: precise_stack.accounted_def precise_GetBusyCount_def count_reqs_def)
qed

text \<open>A limiter with one token, for examples: taken, it refuses; ignored, it is as before.\<close>

definition one_limiter :: "(fixed, precise) default_limiter" where
  "one_limiter = fixed_limiter\<lparr>dl_strategy := NewPreciseStrategy 1\<rparr>"

lemma one_limiter_cycle:
  obtains k l1 where "lim_Acquire (default_delegate fixed_ops precise_ops) 0 [] one_limiter = (Some k, l1)"
    and "lim_Acquire (default_delegate fixed_ops precise_ops) 0 [] l1 = (None, l1)"
    and "\<forall>rd. lim_Complete (default_delegate fixed_ops precise_ops) rd Ignored k l1 = one_limiter"
proof -
  have i: "i32 1 = 1" "i32 0 = 0" "i64 1 = 1" "i64 0 = 0" by (simp_all add: i32_def i64_def)
  obtain k l1 where "limiter_Acquire precise_ops 0 [] one_limiter = (Some k, l1, [])"
    and "limiter_Acquire precise_ops 0 [] l1 = (None, l1, [])" and "listener_OnIgnore precise_ops k l1 = one_limiter"
    by (simp add: limiter_Acquire_def precise_ops_def precise_TryAcquire_def one_limiter_def fixed_limiter_def
        NewPreciseStrategy_simps listener_OnIgnore_def listener_free_def listener_count_def token_Release_def
        NewAcquiredStrategyToken_def precise_releaseHandler_def i Let_def)
  then show ?thesis by (intro that) (simp_all add: default_delegate_def)
qed

lemma one_limiter_grants:
  obtains ls l e where "limiter_Acquire precise_ops now c one_limiter = (Some ls, l, e)"
  by (simp add: limiter_Acquire_def precise_ops_def precise_TryAcquire_def one_limiter_def NewPreciseStrategy_simps i32_def Let_def)

end
