(* ===== verification/Limiter_Blocking.thy ===== *)
theory Limiter_Blocking
  imports Limiter_Delegate
begin

text \<open>
  \<open>limiter/blocking.go\<close>, \<open>limiter/deadline.go\<close> and \<open>limiter/delegate_listener.go\<close>: limiters that
  block the caller until their delegate grants a token. A release closes the current notification
  channel and installs a fresh one, so channels are numbered by generation. The loop of
  \<open>tryAcquire\<close> and the callback of the wrapped listeners are a transition system over any number
  of goroutines: each critical section, channel operation and call of the delegate is one step.
\<close>

section \<open>The limiters\<close>

text \<open>
  How long a caller waits: a blocking limiter has a timeout after which the caller tries again
  (zero: none), a deadline limiter a time after which it gives up.
\<close>

datatype patience = Timeout int | Deadline int

record 'd blocking =
  bk_delegate :: 'd
  bk_patience :: patience
  bk_notify :: nat
  bk_logger :: logger

definition NewBlockingLimiter :: "'d \<Rightarrow> int \<Rightarrow> logger option \<Rightarrow> 'd blocking" where
  "NewBlockingLimiter delegate timeout logger =
     (let timeout = (if timeout < 0 then 0 else timeout);
          logger = (case logger of None \<Rightarrow> NoopLimitLogger | Some g \<Rightarrow> g)
      in \<lparr>bk_delegate = delegate, bk_patience = Timeout timeout, bk_notify = 0, bk_logger = logger\<rparr>)"

definition NewDeadlineLimiter :: "'d \<Rightarrow> int \<Rightarrow> logger option \<Rightarrow> 'd blocking" where
  "NewDeadlineLimiter delegate deadline logger =
     (let logger = (case logger of None \<Rightarrow> NoopLimitLogger | Some g \<Rightarrow> g)
      in \<lparr>bk_delegate = delegate, bk_patience = Deadline deadline, bk_notify = 0, bk_logger = logger\<rparr>)"

definition currentNotify :: "'d blocking \<Rightarrow> nat" where
  "currentNotify b = bk_notify b"

text \<open>The critical section of \<open>broadcastRelease\<close>: the old channel, to be closed after it.\<close>

definition broadcastRelease :: "'d blocking \<Rightarrow> nat \<times> 'd blocking" where
  "broadcastRelease b = (bk_notify b, b\<lparr>bk_notify := Suc (bk_notify b)\<rparr>)"

section \<open>Goroutines\<close>

text \<open>
  A goroutine at the head of the loop; with the channel it captured; waiting on it since a time;
  holding a listener; past the delegate's completion, before \<open>broadcastRelease\<close>; about to close
  a channel; returned without a token; done. The number \<open>g\<close> in the second and third is ghost state: how
  many completions the delegate had seen at the capture.
\<close>

datatype 'k goroutine =
    Trying ctx
  | Captured ctx nat nat
  | Waiting ctx nat nat int
  | Holding 'k
  | Releasing
  | Closing nat
  | Refused
  | Done

record ('d, 'k) world =
  w_limiter :: "'d blocking"
  w_closed :: "nat set"
  w_now :: int
  w_completed :: nat
  w_cancelled :: "nat set"
  w_goroutines :: "'k goroutine list"

definition deadline_passed :: "int \<Rightarrow> patience \<Rightarrow> bool" where
  "deadline_passed now p = (case p of Timeout t \<Rightarrow> False | Deadline d \<Rightarrow> d - now \<le> 0)"

definition timer_fired :: "int \<Rightarrow> int \<Rightarrow> patience \<Rightarrow> bool" where
  "timer_fired now since p = (case p of Timeout t \<Rightarrow> t > 0 \<and> since + t \<le> now | Deadline d \<Rightarrow> d \<le> now)"

definition put :: "nat \<Rightarrow> 'k goroutine \<Rightarrow> ('d, 'k) world \<Rightarrow> ('d, 'k) world" where
  "put i g w = w\<lparr>w_goroutines := (w_goroutines w)[i := g]\<rparr>"

definition is_at :: "('d, 'k) world \<Rightarrow> nat \<Rightarrow> 'k goroutine \<Rightarrow> bool" where
  "is_at w i g \<longleftrightarrow> i < length (w_goroutines w) \<and> w_goroutines w ! i = g"

text \<open>
  The loop of \<open>BlockingLimiter.tryAcquire\<close>: a context that is done ends it, a timeout only starts the
  next round.
\<close>

inductive blocking_tryAcquire :: "('d, 'k) delegate_ops \<Rightarrow> nat \<Rightarrow> ('d, 'k) world \<Rightarrow> ('d, 'k) world \<Rightarrow> bool"
  for dops :: "('d, 'k) delegate_ops" and i :: nat where
  cancelled: "is_at w i (Trying c) \<Longrightarrow> i \<in> w_cancelled w \<Longrightarrow> blocking_tryAcquire dops i w (put i Refused w)"
| capture: "is_at w i (Trying c) \<Longrightarrow> i \<notin> w_cancelled w \<Longrightarrow>
    blocking_tryAcquire dops i w (put i (Captured c (currentNotify (w_limiter w)) (w_completed w)) w)"
| acquired: "is_at w i (Captured c n g) \<Longrightarrow> lim_Acquire dops (w_now w) c (bk_delegate (w_limiter w)) = (Some k, d) \<Longrightarrow>
    blocking_tryAcquire dops i w (put i (Holding k) (w\<lparr>w_limiter := (w_limiter w)\<lparr>bk_delegate := d\<rparr>\<rparr>))"
| refused: "is_at w i (Captured c n g) \<Longrightarrow> lim_Acquire dops (w_now w) c (bk_delegate (w_limiter w)) = (None, d) \<Longrightarrow>
    blocking_tryAcquire dops i w (put i (Waiting c n g (w_now w)) (w\<lparr>w_limiter := (w_limiter w)\<lparr>bk_delegate := d\<rparr>\<rparr>))"
| context_done: "is_at w i (Waiting c n g s) \<Longrightarrow> i \<in> w_cancelled w \<Longrightarrow> blocking_tryAcquire dops i w (put i Refused w)"
| woken: "is_at w i (Waiting c n g s) \<Longrightarrow> n \<in> w_closed w \<Longrightarrow> blocking_tryAcquire dops i w (put i (Trying c) w)"
| timer: "is_at w i (Waiting c n g s) \<Longrightarrow> bk_patience (w_limiter w) = Timeout t \<Longrightarrow> t > 0 \<Longrightarrow> s + t \<le> w_now w \<Longrightarrow>
    blocking_tryAcquire dops i w (put i (Trying c) w)"

text \<open>The loop of \<open>DeadlineLimiter.tryAcquire\<close>, which checks the deadline before each attempt and before each wait.\<close>

inductive deadline_tryAcquire :: "('d, 'k) delegate_ops \<Rightarrow> nat \<Rightarrow> ('d, 'k) world \<Rightarrow> ('d, 'k) world \<Rightarrow> bool"
  for dops :: "('d, 'k) delegate_ops" and i :: nat where
  cancelled: "is_at w i (Trying c) \<Longrightarrow> i \<in> w_cancelled w \<Longrightarrow> deadline_tryAcquire dops i w (put i Refused w)"
| too_late: "is_at w i (Trying c) \<Longrightarrow> i \<notin> w_cancelled w \<Longrightarrow> deadline_passed (w_now w) (bk_patience (w_limiter w)) \<Longrightarrow>
    deadline_tryAcquire dops i w (put i Refused w)"
| capture: "is_at w i (Trying c) \<Longrightarrow> i \<notin> w_cancelled w \<Longrightarrow> \<not> deadline_passed (w_now w) (bk_patience (w_limiter w)) \<Longrightarrow>
    deadline_tryAcquire dops i w (put i (Captured c (currentNotify (w_limiter w)) (w_completed w)) w)"
| acquired: "is_at w i (Captured c n g) \<Longrightarrow> lim_Acquire dops (w_now w) c (bk_delegate (w_limiter w)) = (Some k, d) \<Longrightarrow>
    deadline_tryAcquire dops i w (put i (Holding k) (w\<lparr>w_limiter := (w_limiter w)\<lparr>bk_delegate := d\<rparr>\<rparr>))"
| refused: "is_at w i (Captured c n g) \<Longrightarrow> lim_Acquire dops (w_now w) c (bk_delegate (w_limiter w)) = (None, d) \<Longrightarrow>
    deadline_tryAcquire dops i w
      (put i (if deadline_passed (w_now w) (bk_patience (w_limiter w)) then Refused else Waiting c n g (w_now w))
        (w\<lparr>w_limiter := (w_limiter w)\<lparr>bk_delegate := d\<rparr>\<rparr>))"
| context_done: "is_at w i (Waiting c n g s) \<Longrightarrow> i \<in> w_cancelled w \<Longrightarrow> deadline_tryAcquire dops i w (put i Refused w)"
| woken: "is_at w i (Waiting c n g s) \<Longrightarrow> n \<in> w_closed w \<Longrightarrow> deadline_tryAcquire dops i w (put i (Trying c) w)"
| timer: "is_at w i (Waiting c n g s) \<Longrightarrow> bk_patience (w_limiter w) = Deadline d \<Longrightarrow> d \<le> w_now w \<Longrightarrow>
    deadline_tryAcquire dops i w (put i Refused w)"

text \<open>
  The listener \<open>Acquire\<close> returns: it completes the delegate's listener, then calls \<open>onRelease\<close>. Here
  \<open>cmpl\<close> stands for the delegate listener's three methods. The limiters give \<open>broadcastRelease\<close> as the
  callback, a listener made by \<open>NewDelegateListener\<close> has none.
\<close>

record ('k, 's) delegate_listener =
  dg_delegateListener :: 'k
  dg_onRelease :: "('s \<Rightarrow> 's) option"

definition NewDelegateListener :: "'k \<Rightarrow> ('k, 's) delegate_listener" where
  "NewDelegateListener k = \<lparr>dg_delegateListener = k, dg_onRelease = None\<rparr>"

definition delegate_OnDropped :: "(outcome \<Rightarrow> 'k \<Rightarrow> 's \<Rightarrow> 's) \<Rightarrow> ('k, 's) delegate_listener \<Rightarrow> 's \<Rightarrow> 's" where
  "delegate_OnDropped cmpl l s =
     (let s = cmpl WasDropped (dg_delegateListener l) s
      in case dg_onRelease l of None \<Rightarrow> s | Some onRelease \<Rightarrow> onRelease s)"

definition delegate_OnIgnore :: "(outcome \<Rightarrow> 'k \<Rightarrow> 's \<Rightarrow> 's) \<Rightarrow> ('k, 's) delegate_listener \<Rightarrow> 's \<Rightarrow> 's" where
  "delegate_OnIgnore cmpl l s =
     (let s = cmpl Ignored (dg_delegateListener l) s
      in case dg_onRelease l of None \<Rightarrow> s | Some onRelease \<Rightarrow> onRelease s)"

definition delegate_OnSuccess :: "(outcome \<Rightarrow> 'k \<Rightarrow> 's \<Rightarrow> 's) \<Rightarrow> ('k, 's) delegate_listener \<Rightarrow> 's \<Rightarrow> 's" where
  "delegate_OnSuccess cmpl l s =
     (let s = cmpl Succeeded (dg_delegateListener l) s
      in case dg_onRelease l of None \<Rightarrow> s | Some onRelease \<Rightarrow> onRelease s)"

text \<open>
  \<open>broadcastRelease\<close> as a callback, with the close: on the limiter and the set of closed channels. \<open>Acquire\<close>
  wraps what \<open>tryAcquire\<close> returned.
\<close>

definition broadcast :: "'d blocking \<times> nat set \<Rightarrow> 'd blocking \<times> nat set" where
  "broadcast s = (case s of (b, chans) \<Rightarrow> let (old, b) = broadcastRelease b in (b, insert old chans))"

definition blocking_Acquire :: "'k option \<Rightarrow> ('k, 'd blocking \<times> nat set) delegate_listener option" where
  "blocking_Acquire found = (case found of
       None \<Rightarrow> None
     | Some delegateListener \<Rightarrow> Some \<lparr>dg_delegateListener = delegateListener, dg_onRelease = Some broadcast\<rparr>)"

definition deadline_Acquire :: "'k option \<Rightarrow> ('k, 'd blocking \<times> nat set) delegate_listener option" where
  "deadline_Acquire found = (case found of
       None \<Rightarrow> None
     | Some delegateListener \<Rightarrow> Some \<lparr>dg_delegateListener = delegateListener, dg_onRelease = Some broadcast\<rparr>)"

definition complete_delegate ::
    "('d, 'k) delegate_ops \<Rightarrow> rand \<Rightarrow> outcome \<Rightarrow> 'k \<Rightarrow> 'd blocking \<times> nat set \<Rightarrow> 'd blocking \<times> nat set" where
  "complete_delegate dops rd oc k s = (case s of (b, chans) \<Rightarrow>
     (b\<lparr>bk_delegate := lim_Complete dops rd oc k (bk_delegate b)\<rparr>, chans))"

text \<open>The same completion in concurrent steps: at the delegate, in the critical section of the broadcast, the close.\<close>

inductive release_step :: "('d, 'k) delegate_ops \<Rightarrow> nat \<Rightarrow> ('d, 'k) world \<Rightarrow> ('d, 'k) world \<Rightarrow> bool"
  for dops :: "('d, 'k) delegate_ops" and i :: nat where
  complete: "is_at w i (Holding k) \<Longrightarrow>
    release_step dops i w (put i Releasing
      (w\<lparr>w_limiter := (w_limiter w)\<lparr>bk_delegate := lim_Complete dops rd oc k (bk_delegate (w_limiter w))\<rparr>,
         w_completed := Suc (w_completed w)\<rparr>))"
| swap: "is_at w i Releasing \<Longrightarrow> broadcastRelease (w_limiter w) = (old, b) \<Longrightarrow>
    release_step dops i w (put i (Closing old) (w\<lparr>w_limiter := b\<rparr>))"
| close: "is_at w i (Closing n) \<Longrightarrow> release_step dops i w (put i Done (w\<lparr>w_closed := insert n (w_closed w)\<rparr>))"

inductive block_step :: "('d, 'k) delegate_ops \<Rightarrow> ('d, 'k) world \<Rightarrow> ('d, 'k) world \<Rightarrow> bool"
  for dops :: "('d, 'k) delegate_ops" where
  arrive: "block_step dops w (w\<lparr>w_goroutines := w_goroutines w @ [Trying c]\<rparr>)"
| tick: "w_now w \<le> t \<Longrightarrow> block_step dops w (w\<lparr>w_now := t\<rparr>)"
| cancel: "block_step dops w (w\<lparr>w_cancelled := insert i (w_cancelled w)\<rparr>)"
| blocking: "bk_patience (w_limiter w) = Timeout t \<Longrightarrow> blocking_tryAcquire dops i w w' \<Longrightarrow> block_step dops w w'"
| deadline: "bk_patience (w_limiter w) = Deadline d \<Longrightarrow> deadline_tryAcquire dops i w w' \<Longrightarrow> block_step dops w w'"
| release: "release_step dops i w w' \<Longrightarrow> block_step dops w w'"

inductive block_reach :: "('d, 'k) delegate_ops \<Rightarrow> 'd blocking \<Rightarrow> ('d, 'k) world \<Rightarrow> bool"
  for dops :: "('d, 'k) delegate_ops" and b0 :: "'d blocking" where
  start: "block_reach dops b0 \<lparr>w_limiter = b0, w_closed = {}, w_now = now, w_completed = 0, w_cancelled = {}, w_goroutines = []\<rparr>"
| step: "block_reach dops b0 w \<Longrightarrow> block_step dops w w' \<Longrightarrow> block_reach dops b0 w'"

text \<open>The steps of the two loops by the goroutine's state, for proofs about both limiters at once.\<close>

lemma block_step_induct [consumes 1, case_names arrive tick cancel cancelled too_late capture acquired refused woken
    timer context_done complete swap close]:
  assumes step: "block_step dops w w'"
    and "\<And>w c. P w (w\<lparr>w_goroutines := w_goroutines w @ [Trying c]\<rparr>)"
    and "\<And>w t. w_now w \<le> t \<Longrightarrow> P w (w\<lparr>w_now := t\<rparr>)"
    and "\<And>w i. P w (w\<lparr>w_cancelled := insert i (w_cancelled w)\<rparr>)"
    and cancelled: "\<And>w i c. is_at w i (Trying c) \<Longrightarrow> i \<in> w_cancelled w \<Longrightarrow> P w (put i Refused w)"
    and too_late: "\<And>w i c. is_at w i (Trying c) \<Longrightarrow> i \<notin> w_cancelled w \<Longrightarrow>
      deadline_passed (w_now w) (bk_patience (w_limiter w)) \<Longrightarrow> P w (put i Refused w)"
    and capture: "\<And>w i c. is_at w i (Trying c) \<Longrightarrow> i \<notin> w_cancelled w \<Longrightarrow>
      \<not> deadline_passed (w_now w) (bk_patience (w_limiter w)) \<Longrightarrow>
      P w (put i (Captured c (currentNotify (w_limiter w)) (w_completed w)) w)"
    and acquired: "\<And>w i c n g k d. is_at w i (Captured c n g) \<Longrightarrow>
      lim_Acquire dops (w_now w) c (bk_delegate (w_limiter w)) = (Some k, d) \<Longrightarrow>
      P w (put i (Holding k) (w\<lparr>w_limiter := (w_limiter w)\<lparr>bk_delegate := d\<rparr>\<rparr>))"
    and refused: "\<And>w i c n g d. is_at w i (Captured c n g) \<Longrightarrow>
      lim_Acquire dops (w_now w) c (bk_delegate (w_limiter w)) = (None, d) \<Longrightarrow>
      P w (put i (if deadline_passed (w_now w) (bk_patience (w_limiter w)) then Refused else Waiting c n g (w_now w))
        (w\<lparr>w_limiter := (w_limiter w)\<lparr>bk_delegate := d\<rparr>\<rparr>))"
    and woken: "\<And>w i c n g s. is_at w i (Waiting c n g s) \<Longrightarrow> n \<in> w_closed w \<Longrightarrow> P w (put i (Trying c) w)"
    and timer: "\<And>w i c n g s. is_at w i (Waiting c n g s) \<Longrightarrow>
      timer_fired (w_now w) s (bk_patience (w_limiter w)) \<Longrightarrow>
      P w (put i (case bk_patience (w_limiter w) of Timeout t \<Rightarrow> Trying c | Deadline d \<Rightarrow> Refused) w)"
    and context_done: "\<And>w i c n g s. is_at w i (Waiting c n g s) \<Longrightarrow> i \<in> w_cancelled w \<Longrightarrow> P w (put i Refused w)"
    and complete: "\<And>w i k rd oc. is_at w i (Holding k) \<Longrightarrow>
      P w (put i Releasing
        (w\<lparr>w_limiter := (w_limiter w)\<lparr>bk_delegate := lim_Complete dops rd oc k (bk_delegate (w_limiter w))\<rparr>,
           w_completed := Suc (w_completed w)\<rparr>))"
    and swap: "\<And>w i old b. is_at w i Releasing \<Longrightarrow> broadcastRelease (w_limiter w) = (old, b) \<Longrightarrow>
      P w (put i (Closing old) (w\<lparr>w_limiter := b\<rparr>))"
    and close: "\<And>w i n. is_at w i (Closing n) \<Longrightarrow> P w (put i Done (w\<lparr>w_closed := insert n (w_closed w)\<rparr>))"
  shows "P w w'"
  using step
proof cases
  case (blocking t i)
  then have waits: "\<not> deadline_passed (w_now w) (bk_patience (w_limiter w))" by (simp add: deadline_passed_def)
  from blocking(2) show ?thesis
  proof cases
    case (refused c n g d)
    then show ?thesis using assms(9) [of w i c n g d] waits by simp
  next
    case (timer c n g s t')
    then show ?thesis using assms(11) [of w i c n g s] blocking(1) by (simp add: timer_fired_def)
  qed (use waits in \<open>auto intro: cancelled capture acquired context_done woken\<close>)
next
  case (deadline d i)
  from deadline(2) show ?thesis
  proof cases
    case (timer c n g s d')
    then show ?thesis using assms(11) [of w i c n g s] deadline(1) by (simp add: timer_fired_def)
  next
    case (refused c n g d)
    then show ?thesis using assms(9) [of w i c n g d] by simp
  qed (auto intro: cancelled too_late capture acquired context_done woken)
next
  case (release i)
  from release show ?thesis by cases (auto intro: complete swap close)
qed (use assms(2-4) in auto)

text \<open>The converse: a goroutine of either limiter can do these steps.\<close>

lemma block_too_late:
  "is_at w i (Trying c) \<Longrightarrow> i \<notin> w_cancelled w \<Longrightarrow> deadline_passed (w_now w) (bk_patience (w_limiter w)) \<Longrightarrow>
   block_step dops w (put i Refused w)"
  by (cases "bk_patience (w_limiter w)")
    (simp add: deadline_passed_def, blast intro: block_step.deadline deadline_tryAcquire.too_late)

lemma block_cancelled: "is_at w i (Trying c) \<Longrightarrow> i \<in> w_cancelled w \<Longrightarrow> block_step dops w (put i Refused w)"
  by (cases "bk_patience (w_limiter w)")
    (blast intro: block_step.blocking blocking_tryAcquire.cancelled block_step.deadline deadline_tryAcquire.cancelled)+

lemma block_capture:
  "is_at w i (Trying c) \<Longrightarrow> i \<notin> w_cancelled w \<Longrightarrow> \<not> deadline_passed (w_now w) (bk_patience (w_limiter w)) \<Longrightarrow>
   block_step dops w (put i (Captured c (currentNotify (w_limiter w)) (w_completed w)) w)"
  by (cases "bk_patience (w_limiter w)")
    (blast intro: block_step.blocking blocking_tryAcquire.capture block_step.deadline deadline_tryAcquire.capture)+

lemma block_acquired:
  "is_at w i (Captured c n g) \<Longrightarrow> lim_Acquire dops (w_now w) c (bk_delegate (w_limiter w)) = (Some k, d) \<Longrightarrow>
   block_step dops w (put i (Holding k) (w\<lparr>w_limiter := (w_limiter w)\<lparr>bk_delegate := d\<rparr>\<rparr>))"
  by (cases "bk_patience (w_limiter w)")
    (blast intro: block_step.blocking blocking_tryAcquire.acquired block_step.deadline deadline_tryAcquire.acquired)+

lemma block_refused:
  assumes "is_at w i (Captured c n g)" and "lim_Acquire dops (w_now w) c (bk_delegate (w_limiter w)) = (None, d)"
  shows "block_step dops w
    (put i (if deadline_passed (w_now w) (bk_patience (w_limiter w)) then Refused else Waiting c n g (w_now w))
      (w\<lparr>w_limiter := (w_limiter w)\<lparr>bk_delegate := d\<rparr>\<rparr>))"
proof (cases "bk_patience (w_limiter w)")
  case (Timeout t)
  then show ?thesis using block_step.blocking [OF Timeout blocking_tryAcquire.refused [OF assms]] by (simp add: deadline_passed_def)
next
  case (Deadline dl)
  then show ?thesis using block_step.deadline [OF Deadline deadline_tryAcquire.refused [OF assms]] by simp
qed

lemma block_woken:
  "is_at w i (Waiting c n g s) \<Longrightarrow> n \<in> w_closed w \<Longrightarrow> block_step dops w (put i (Trying c) w)"
  by (cases "bk_patience (w_limiter w)")
    (blast intro: block_step.blocking blocking_tryAcquire.woken block_step.deadline deadline_tryAcquire.woken)+

lemmas block_releases = release_step.intros [THEN block_step.release]

text \<open>A completion of the wrapped listener that nothing interrupts is a run of the concurrent model.\<close>

lemma release_run:
  assumes "is_at w i (Holding k)"
    and "broadcast (complete_delegate dops rd oc k (w_limiter w, w_closed w)) = (b, cl)"
  shows "(block_step dops)\<^sup>*\<^sup>* w (put i Done (w\<lparr>w_limiter := b, w_closed := cl, w_completed := Suc (w_completed w)\<rparr>))"
proof -
  let ?b = "(w_limiter w)\<lparr>bk_delegate := lim_Complete dops rd oc k (bk_delegate (w_limiter w))\<rparr>"
  let ?w1 = "put i Releasing (w\<lparr>w_limiter := ?b, w_completed := Suc (w_completed w)\<rparr>)"
  let ?w2 = "put i (Closing (bk_notify ?b)) (?w1\<lparr>w_limiter := ?b\<lparr>bk_notify := Suc (bk_notify ?b)\<rparr>\<rparr>)"
  have b: "b = ?b\<lparr>bk_notify := Suc (bk_notify ?b)\<rparr>" and cl: "cl = insert (bk_notify ?b) (w_closed w)"
    using assms(2) by (auto simp: broadcast_def complete_delegate_def broadcastRelease_def)
  have "block_step dops w ?w1" by (rule block_releases(1) [OF assms(1)])
  moreover have "block_step dops ?w1 ?w2"
    using assms(1) by (intro block_releases(2)) (simp_all add: is_at_def put_def broadcastRelease_def)
  moreover have "block_step dops ?w2 (put i Done (?w2\<lparr>w_closed := insert (bk_notify ?b) (w_closed ?w2)\<rparr>))"
    using assms(1) by (intro block_releases(3)) (simp add: is_at_def put_def)
  moreover have "put i Done (?w2\<lparr>w_closed := insert (bk_notify ?b) (w_closed ?w2)\<rparr>)
      = put i Done (w\<lparr>w_limiter := b, w_closed := cl, w_completed := Suc (w_completed w)\<rparr>)"
    by (simp add: b cl put_def)
  ultimately show ?thesis by (metis (no_types, lifting) converse_rtranclp_into_rtranclp rtranclp.rtrancl_refl)
qed

text \<open>The completion methods of the listener either limiter returns are runs of the concurrent model: the
  delegate's listener is completed first, then the current channel is replaced and closed.\<close>

lemma delegate_listener_runs:
  assumes "is_at w i (Holding k)" and "Some ls \<in> {blocking_Acquire (Some k), deadline_Acquire (Some k)}"
    and "s \<in> {delegate_OnSuccess (complete_delegate dops rd) ls (w_limiter w, w_closed w),
       delegate_OnIgnore (complete_delegate dops rd) ls (w_limiter w, w_closed w),
       delegate_OnDropped (complete_delegate dops rd) ls (w_limiter w, w_closed w)}"
  shows "(block_step dops)\<^sup>*\<^sup>* w
    (put i Done (w\<lparr>w_limiter := fst s, w_closed := snd s, w_completed := Suc (w_completed w)\<rparr>))
    \<and> snd s = insert (currentNotify (w_limiter w)) (w_closed w)"
proof -
  obtain oc where s: "s = broadcast (complete_delegate dops rd oc k (w_limiter w, w_closed w))"
    using assms(2,3) by (auto simp: blocking_Acquire_def deadline_Acquire_def delegate_OnSuccess_def delegate_OnIgnore_def delegate_OnDropped_def)
  then have "snd s = insert (currentNotify (w_limiter w)) (w_closed w)"
    by (simp add: broadcast_def complete_delegate_def broadcastRelease_def currentNotify_def)
  moreover have "broadcast (complete_delegate dops rd oc k (w_limiter w, w_closed w)) = (fst s, snd s)" using s by simp
  ultimately show ?thesis using release_run [OF assms(1)] by blast
qed

section \<open>No wake-up is lost\<close>

definition releasing_count :: "('d, 'k) world \<Rightarrow> nat" where
  "releasing_count w = length (filter (\<lambda>g. g = Releasing) (w_goroutines w))"

text \<open>
  Old channels are closed or about to be; a goroutine that captured the current channel has seen
  every completion but those whose broadcast is still to come; a goroutine that waits has seen
  every completion or left the delegate full.
\<close>

definition old_closed :: "('d, 'k) world \<Rightarrow> bool" where
  "old_closed w \<longleftrightarrow> (\<forall>n<bk_notify (w_limiter w). n \<in> w_closed w \<or> Closing n \<in> set (w_goroutines w))"

definition seen :: "('d, 'k) world \<Rightarrow> nat \<Rightarrow> nat \<Rightarrow> bool" where
  "seen w n g \<longleftrightarrow> n \<le> bk_notify (w_limiter w) \<and> g \<le> w_completed w
     \<and> (n = bk_notify (w_limiter w) \<longrightarrow> w_completed w \<le> g + releasing_count w)"

definition wait_inv :: "(ctx \<Rightarrow> 'd \<Rightarrow> bool) \<Rightarrow> ('d, 'k) world \<Rightarrow> bool" where
  "wait_inv full w \<longleftrightarrow> old_closed w
   \<and> (\<forall>c n g. Captured c n g \<in> set (w_goroutines w) \<longrightarrow> seen w n g)
   \<and> (\<forall>c n g s. Waiting c n g s \<in> set (w_goroutines w)
        \<longrightarrow> seen w n g \<and> (g < w_completed w \<or> full c (bk_delegate (w_limiter w))))"

lemma in_put:
  "x \<in> set (w_goroutines (put i g w)) \<Longrightarrow> x = g \<or> x \<in> set (w_goroutines w)"
  using set_update_subset_insert [of "w_goroutines w" i g] by (auto simp: put_def)

lemma kept_put:
  "x \<in> set (w_goroutines w) \<Longrightarrow> is_at w i y \<Longrightarrow> x \<noteq> y \<Longrightarrow> x \<in> set (w_goroutines (put i g w))"
  by (auto simp: put_def is_at_def in_set_conv_nth) (metis nth_list_update_neq)

lemma put_in: "is_at w i y \<Longrightarrow> g \<in> set (w_goroutines (put i g w))"
  by (auto simp: put_def is_at_def intro: set_update_memI)

lemma is_at_in: "is_at w i g \<Longrightarrow> g \<in> set (w_goroutines w)"
  by (auto simp: is_at_def)

lemma releasing_put:
  "is_at w i y \<Longrightarrow> releasing_count (put i g w) + (if y = Releasing then 1 else 0)
     = releasing_count w + (if g = Releasing then 1 else 0)"
  using length_filter_update [of i "w_goroutines w" "\<lambda>g. g = Releasing" g]
  by (auto simp: releasing_count_def put_def is_at_def)

lemma put_simps [simp]:
  "w_limiter (put i g w) = w_limiter w" "w_closed (put i g w) = w_closed w" "w_now (put i g w) = w_now w"
  "w_completed (put i g w) = w_completed w" "w_cancelled (put i g w) = w_cancelled w"
  by (simp_all add: put_def)

text \<open>
  A goroutine moves from \<open>y\<close> to \<open>g\<close> while the shared state goes from \<open>w\<close> to \<open>v\<close>: the invariant
  is kept when no closing channel is forgotten, what was seen stays seen, and the new state of the
  goroutine satisfies its part.
\<close>

lemma wait_inv_put:
  assumes inv: "wait_inv full w" and at: "is_at w i y" and same: "w_goroutines v = w_goroutines w"
    and old: "\<And>n. n < bk_notify (w_limiter v) \<Longrightarrow>
      n \<in> w_closed v \<or> g = Closing n \<or> (n < bk_notify (w_limiter w) \<and> y \<noteq> Closing n \<and> w_closed w \<subseteq> w_closed v)"
    and seen: "\<And>n k. seen w n k \<Longrightarrow> seen (put i g v) n k"
    and keep: "\<And>c n k. seen w n k \<Longrightarrow> k < w_completed w \<or> full c (bk_delegate (w_limiter w))
      \<Longrightarrow> k < w_completed v \<or> full c (bk_delegate (w_limiter v))"
    and captured: "\<And>c n k. g = Captured c n k \<Longrightarrow> seen (put i g v) n k"
    and waiting: "\<And>c n k s. g = Waiting c n k s
      \<Longrightarrow> seen (put i g v) n k \<and> (k < w_completed v \<or> full c (bk_delegate (w_limiter v)))"
  shows "wait_inv full (put i g v)"
proof -
  have at': "is_at v i y" using at same by (simp add: is_at_def)
  have new: "x = g \<or> x \<in> set (w_goroutines w)" if "x \<in> set (w_goroutines (put i g v))" for x
    using in_put [OF that] same by simp
  have "old_closed (put i g v)" unfolding old_closed_def
  proof (intro allI impI)
    fix n assume "n < bk_notify (w_limiter (put i g v))"
    with old [of n] inv show "n \<in> w_closed (put i g v) \<or> Closing n \<in> set (w_goroutines (put i g v))"
      using put_in [OF at', of g] kept_put [of "Closing n" v i y g] at' same
      by (auto simp: wait_inv_def old_closed_def)
  qed
  moreover have "seen (put i g v) n k" if "Captured c n k \<in> set (w_goroutines (put i g v))" for c n k
    using new [OF that] captured [of c n k] seen [of n k] inv by (auto simp: wait_inv_def)
  moreover have "seen (put i g v) n k \<and> (k < w_completed v \<or> full c (bk_delegate (w_limiter v)))"
    if "Waiting c n k s \<in> set (w_goroutines (put i g v))" for c n k s
  proof (cases "Waiting c n k s = g")
    case True
    then show ?thesis using waiting [of c n k s] by simp
  next
    case False
    with new [OF that] have "Waiting c n k s \<in> set (w_goroutines w)" by blast
    with inv have "seen w n k \<and> (k < w_completed w \<or> full c (bk_delegate (w_limiter w)))"
      unfolding wait_inv_def by blast
    then show ?thesis using seen [of n k] keep [of n k c] by blast
  qed
  ultimately show ?thesis unfolding wait_inv_def by simp
qed

text \<open>How a step changes what has been seen, by the number of pending broadcasts before and after it.\<close>

lemma seen_put:
  assumes "is_at w i y" and "w_goroutines v = w_goroutines w" and "seen w n k"
    and "bk_notify (w_limiter w) \<le> bk_notify (w_limiter v)"
    and "w_completed w \<le> w_completed v"
    and "bk_notify (w_limiter v) = bk_notify (w_limiter w) \<Longrightarrow>
       w_completed v + (if y = Releasing then 1 else 0) \<le> w_completed w + (if g = Releasing then 1 else 0)"
  shows "seen (put i g v) n k"
proof -
  have "is_at v i y" and "releasing_count v = releasing_count w"
    using assms(1,2) by (simp_all add: is_at_def releasing_count_def)
  with releasing_put [of v i y g] assms(3-6) show ?thesis
    unfolding seen_def by (auto split: if_splits)
qed

lemma block_step_length: "block_step dops w w' \<Longrightarrow> length (w_goroutines w) \<le> length (w_goroutines w')"
  by (induction rule: block_step_induct) (simp_all add: put_def)

text \<open>
  What the wake-up argument needs of a delegate: a refusal leaves it full for requests with that
  context, and acquiring does not make room. \<open>good\<close> is what may be assumed of the delegate in every reachable
  state, as long as there are few enough goroutines for its counters.
\<close>

locale blocking_delegate =
  fixes dops :: "('d, 'k) delegate_ops" and good :: "'d \<Rightarrow> bool" and full :: "ctx \<Rightarrow> 'd \<Rightarrow> bool"
  assumes refused_full: "good d \<Longrightarrow> lim_Acquire dops now c d = (None, d') \<Longrightarrow> full c d'"
    and full_stays: "good d \<Longrightarrow> full c d \<Longrightarrow> lim_Acquire dops now c' d = (x, d') \<Longrightarrow> full c d'"
begin

lemma wait_inv_step:
  assumes "block_step dops w w'" and "wait_inv full w" and "good (bk_delegate (w_limiter w))"
  shows "wait_inv full w'"
  using assms
proof (induction rule: block_step_induct)
  case (arrive w c)
  then show ?case by (auto simp: wait_inv_def old_closed_def seen_def releasing_count_def)
next
  case (tick w t)
  then show ?case by (simp add: wait_inv_def old_closed_def seen_def releasing_count_def)
next
  case (cancel w i)
  then show ?case by (simp add: wait_inv_def old_closed_def seen_def releasing_count_def)
next
  case (cancelled w i c)
  show ?case
    by (rule wait_inv_put [OF cancelled.prems(1) cancelled.hyps(1) refl])
      (auto intro: seen_put [OF cancelled.hyps(1)])
next
  case (too_late w i c)
  show ?case
    by (rule wait_inv_put [OF too_late.prems(1) too_late.hyps(1) refl])
      (auto intro: seen_put [OF too_late.hyps(1)])
next
  case (capture w i c)
  have "seen w (currentNotify (w_limiter w)) (w_completed w)" by (simp add: seen_def currentNotify_def)
  then show ?case
    by (intro wait_inv_put [OF capture.prems(1) capture.hyps(1) refl])
      (auto intro: seen_put [OF capture.hyps(1)])
next
  case (acquired w i c n g k d)
  show ?case
    by (rule wait_inv_put [OF acquired.prems(1) acquired.hyps(1)])
      (use full_stays [OF acquired.prems(2) _ acquired.hyps(2)] in \<open>auto intro: seen_put [OF acquired.hyps(1)]\<close>)
next
  case (refused w i c n g d)
  have "seen w n g" using refused.prems(1) is_at_in [OF refused.hyps(1)] by (simp add: wait_inv_def)
  then show ?case
    by (intro wait_inv_put [OF refused.prems(1) refused.hyps(1)])
      (use refused_full [OF refused.prems(2) refused.hyps(2)] full_stays [OF refused.prems(2) _ refused.hyps(2)] in
        \<open>auto intro: seen_put [OF refused.hyps(1)] split: if_splits\<close>)
next
  case (woken w i c n g s)
  show ?case
    by (rule wait_inv_put [OF woken.prems(1) woken.hyps(1) refl])
      (auto intro: seen_put [OF woken.hyps(1)])
next
  case (timer w i c n g s)
  show ?case
    by (rule wait_inv_put [OF timer.prems(1) timer.hyps(1) refl])
      (auto intro: seen_put [OF timer.hyps(1)] split: patience.splits)
next
  case (context_done w i c n g s)
  show ?case
    by (rule wait_inv_put [OF context_done.prems(1) context_done.hyps(1) refl])
      (auto intro: seen_put [OF context_done.hyps(1)])
next
  case (complete w i k rd oc)
  have "k < Suc (w_completed w)" if "seen w n k" for n k using that by (simp add: seen_def)
  then show ?case
    by (intro wait_inv_put [OF complete.prems(1) complete.hyps(1)])
      (auto intro: seen_put [OF complete.hyps(1)])
next
  case (swap w i old b)
  then show ?case
    by (intro wait_inv_put [OF swap.prems(1) swap.hyps(1)])
      (auto intro: seen_put [OF swap.hyps(1)] simp: broadcastRelease_def less_Suc_eq)
next
  case (close w i n)
  show ?case
    by (rule wait_inv_put [OF close.prems(1) close.hyps(1)])
      (auto intro: seen_put [OF close.hyps(1)])
qed

lemma wait_inv_reach:
  assumes "block_reach dops b0 w" and "bk_notify b0 = 0"
    and "\<And>v. block_reach dops b0 v \<Longrightarrow> length (w_goroutines v) \<le> length (w_goroutines w) \<Longrightarrow> good (bk_delegate (w_limiter v))"
  shows "wait_inv full w"
  using assms(1,3)
proof induction
  case (start now)
  then show ?case using assms(2) by (simp add: wait_inv_def old_closed_def)
next
  case (step w w')
  have len: "length (w_goroutines w) \<le> length (w_goroutines w')" by (rule block_step_length [OF step.hyps(2)])
  then have "wait_inv full w" using step.IH step.prems by (meson order_trans)
  then show ?case using wait_inv_step [OF step.hyps(2)] step.prems [OF step.hyps(1) len] by blast
qed

lemma stuck_full:
  assumes "block_reach dops b0 w" and "bk_notify b0 = 0" and "Waiting c n g s \<in> set (w_goroutines w)"
    and "\<And>v. block_reach dops b0 v \<Longrightarrow> length (w_goroutines v) \<le> length (w_goroutines w) \<Longrightarrow> good (bk_delegate (w_limiter v))"
  shows "n \<in> w_closed w \<or> Closing n \<in> set (w_goroutines w) \<or> Releasing \<in> set (w_goroutines w)
    \<or> full c (bk_delegate (w_limiter w))"
proof -
  have inv: "wait_inv full w" using wait_inv_reach [OF assms(1,2,4)] .
  then have seen: "seen w n g" and full: "g < w_completed w \<or> full c (bk_delegate (w_limiter w))"
    using assms(3) unfolding wait_inv_def by blast+
  consider "n < bk_notify (w_limiter w)" | "n = bk_notify (w_limiter w)" using seen by (auto simp: seen_def le_less)
  then show ?thesis
  proof cases
    case 1
    then show ?thesis using inv by (auto simp: wait_inv_def old_closed_def)
  next
    case 2
    then have "w_completed w \<le> g + releasing_count w" using seen by (simp add: seen_def)
    moreover have "releasing_count w = 0" if "Releasing \<notin> set (w_goroutines w)"
      using that by (auto simp: releasing_count_def filter_empty_conv)
    ultimately show ?thesis using full by linarith
  qed
qed

end

section \<open>Fair runs\<close>

text \<open>
  An infinite run is weakly fair to an action that is taken again and again unless it gets disabled. A run of the
  limiter is fair when it is so to the loop of every caller and to every completion that is past the delegate. Whether a
  holder completes at all, whether callers arrive, and when a clock ticks is left open.
\<close>

definition weakly_fair :: "('w \<Rightarrow> 'w \<Rightarrow> bool) \<Rightarrow> (nat \<Rightarrow> 'w) \<Rightarrow> bool" where
  "weakly_fair act run \<longleftrightarrow>
     (\<forall>t. (\<forall>t'\<ge>t. \<exists>w'. act (run t') w') \<longrightarrow> (\<exists>t'\<ge>t. act (run t') (run (Suc t'))))"

definition caller_step :: "('d, 'k) delegate_ops \<Rightarrow> nat \<Rightarrow> ('d, 'k) world \<Rightarrow> ('d, 'k) world \<Rightarrow> bool" where
  "caller_step dops i w w' = (case bk_patience (w_limiter w) of
     Timeout t \<Rightarrow> blocking_tryAcquire dops i w w' | Deadline d \<Rightarrow> deadline_tryAcquire dops i w w')"

definition broadcast_step :: "('d, 'k) delegate_ops \<Rightarrow> nat \<Rightarrow> ('d, 'k) world \<Rightarrow> ('d, 'k) world \<Rightarrow> bool" where
  "broadcast_step dops i w w' \<longleftrightarrow> release_step dops i w w' \<and> (\<forall>k. \<not> is_at w i (Holding k))"

definition fair_run :: "('d, 'k) delegate_ops \<Rightarrow> (nat \<Rightarrow> ('d, 'k) world) \<Rightarrow> bool" where
  "fair_run dops run \<longleftrightarrow> (\<forall>t. block_step dops (run t) (run (Suc t)))
     \<and> (\<forall>i. weakly_fair (caller_step dops i) run \<and> weakly_fair (broadcast_step dops i) run)"

lemma put_is_at: "is_at w i y \<Longrightarrow> is_at (put i g w) i g"
  by (simp add: is_at_def put_def)

text \<open>What any step leaves of a goroutine that broadcasts or waits.\<close>

lemma block_step_grows:
  "block_step dops w w' \<Longrightarrow> w_closed w \<subseteq> w_closed w' \<and> bk_notify (w_limiter w) \<le> bk_notify (w_limiter w')"
  by (induction rule: block_step_induct) (auto simp: broadcastRelease_def)

lemma closing_step:
  "block_step dops w w' \<Longrightarrow> is_at w j (Closing n) \<Longrightarrow> is_at w' j (Closing n) \<or> n \<in> w_closed w'"
proof (induction rule: block_step_induct)
  case (refused w i c m g d)
  then show ?case by (cases "i = j") (auto simp: is_at_def put_def)
next
  case (timer w i c m g s)
  then show ?case by (cases "i = j") (auto simp: is_at_def put_def)
qed (auto simp: is_at_def put_def nth_append nth_list_update)

lemma releasing_step:
  "block_step dops w w' \<Longrightarrow> is_at w j Releasing \<Longrightarrow> is_at w' j Releasing \<or> bk_notify (w_limiter w) < bk_notify (w_limiter w')"
proof (induction rule: block_step_induct)
  case (refused w i c m g d)
  then show ?case by (cases "i = j") (auto simp: is_at_def put_def)
next
  case (timer w i c m g s)
  then show ?case by (cases "i = j") (auto simp: is_at_def put_def)
qed (auto simp: is_at_def put_def nth_append nth_list_update broadcastRelease_def)

lemma waiting_step:
  "block_step dops w w' \<Longrightarrow> is_at w j (Waiting c n g s) \<Longrightarrow>
   is_at w' j (Waiting c n g s) \<or> is_at w' j (Trying c) \<or> is_at w' j Refused"
proof (induction rule: block_step_induct)
  case (refused w i c' m h d)
  then show ?case by (cases "i = j") (auto simp: is_at_def put_def)
next
  case (timer w i c' m h s')
  then show ?case by (cases "i = j") (auto simp: is_at_def put_def split: patience.split)
qed (auto simp: is_at_def put_def nth_append nth_list_update)

text \<open>The steps of a broadcast are always possible, and so is the return of a caller whose channel is closed.\<close>

lemma broadcast_step_closing:
  assumes "is_at w j (Closing n)"
  shows "\<exists>w'. broadcast_step dops j w w'" and "broadcast_step dops j w w' \<Longrightarrow> n \<in> w_closed w'"
proof -
  have "release_step dops j w (put j Done (w\<lparr>w_closed := insert n (w_closed w)\<rparr>))" by (rule release_step.close [OF assms])
  then show "\<exists>w'. broadcast_step dops j w w'" using assms unfolding broadcast_step_def by (auto simp: is_at_def)
  show "n \<in> w_closed w'" if "broadcast_step dops j w w'"
    using that [unfolded broadcast_step_def, THEN conjunct1] assms by cases (auto simp: is_at_def)
qed

lemma broadcast_step_releasing:
  assumes "is_at w j Releasing"
  shows "\<exists>w'. broadcast_step dops j w w'"
    and "broadcast_step dops j w w' \<Longrightarrow> bk_notify (w_limiter w) < bk_notify (w_limiter w')"
proof -
  obtain old b where "broadcastRelease (w_limiter w) = (old, b)" by fastforce
  from release_step.swap [OF assms this] show "\<exists>w'. broadcast_step dops j w w'"
    using assms unfolding broadcast_step_def by (auto simp: is_at_def)
  show "bk_notify (w_limiter w) < bk_notify (w_limiter w')" if "broadcast_step dops j w w'"
    using that [unfolded broadcast_step_def, THEN conjunct1] assms by cases (auto simp: is_at_def broadcastRelease_def)
qed

lemma caller_step_woken:
  assumes "is_at w i (Waiting c n g s)"
  shows "n \<in> w_closed w \<Longrightarrow> \<exists>w'. caller_step dops i w w'"
    and "caller_step dops i w w' \<Longrightarrow> is_at w' i (Trying c) \<or> is_at w' i Refused"
proof -
  show "\<exists>w'. caller_step dops i w w'" if "n \<in> w_closed w"
    using blocking_tryAcquire.woken [OF assms that] deadline_tryAcquire.woken [OF assms that]
    by (cases "bk_patience (w_limiter w)") (auto simp: caller_step_def)
  assume step: "caller_step dops i w w'"
  show "is_at w' i (Trying c) \<or> is_at w' i Refused"
  proof (cases "bk_patience (w_limiter w)")
    case (Timeout t)
    then have "blocking_tryAcquire dops i w w'" using step by (simp add: caller_step_def)
    then show ?thesis using assms by cases (auto simp: is_at_def put_def)
  next
    case (Deadline d)
    then have "deadline_tryAcquire dops i w w'" using step by (simp add: caller_step_def)
    then show ?thesis using assms by cases (auto simp: is_at_def put_def)
  qed
qed

lemma run_grows:
  assumes "fair_run dops run" and "t \<le> t'"
  shows "w_closed (run t) \<subseteq> w_closed (run t') \<and> bk_notify (w_limiter (run t)) \<le> bk_notify (w_limiter (run t'))"
  using assms(2)
proof (induction rule: dec_induct)
  case (step t')
  have "block_step dops (run t') (run (Suc t'))" using assms(1) by (simp add: fair_run_def)
  then show ?case using block_step_grows step.IH by (meson order_trans)
qed simp

text \<open>In a fair run what is about to happen does: a channel is closed, a broadcast replaces the channel, a caller whose channel is closed goes on.\<close>

lemma closing_closes:
  assumes "fair_run dops run" and "is_at (run t) j (Closing n)"
  shows "\<exists>t'\<ge>t. n \<in> w_closed (run t')"
proof (rule ccontr)
  assume "\<not> (\<exists>t'\<ge>t. n \<in> w_closed (run t'))"
  then have open_: "\<And>t'. t \<le> t' \<Longrightarrow> n \<notin> w_closed (run t')" by blast
  have at: "is_at (run t') j (Closing n)" if "t \<le> t'" for t'
    using that
  proof (induction rule: dec_induct)
    case (step t')
    have "block_step dops (run t') (run (Suc t'))" using assms(1) by (simp add: fair_run_def)
    then show ?case using closing_step step open_ [of "Suc t'"] by (meson le_SucI)
  qed (rule assms(2))
  then obtain t' where "t \<le> t'" "broadcast_step dops j (run t') (run (Suc t'))"
    using assms(1) broadcast_step_closing(1) unfolding fair_run_def weakly_fair_def by metis
  then show False using broadcast_step_closing(2) at open_ by (meson le_SucI)
qed

lemma releasing_replaces:
  assumes "fair_run dops run" and "is_at (run t) j Releasing"
  shows "\<exists>t'\<ge>t. bk_notify (w_limiter (run t)) < bk_notify (w_limiter (run t'))"
proof (rule ccontr)
  assume none: "\<not> (\<exists>t'\<ge>t. bk_notify (w_limiter (run t)) < bk_notify (w_limiter (run t')))"
  have same: "bk_notify (w_limiter (run t')) = bk_notify (w_limiter (run t))" if "t \<le> t'" for t'
    using that none run_grows [OF assms(1) that] by (meson le_antisym not_less)
  have at: "is_at (run t') j Releasing" if "t \<le> t'" for t'
    using that
  proof (induction rule: dec_induct)
    case (step t')
    have "block_step dops (run t') (run (Suc t'))" using assms(1) by (simp add: fair_run_def)
    then show ?case using releasing_step step same [of t'] same [of "Suc t'"] by fastforce
  qed (rule assms(2))
  then obtain t' where "t \<le> t'" "broadcast_step dops j (run t') (run (Suc t'))"
    using assms(1) broadcast_step_releasing(1) unfolding fair_run_def weakly_fair_def by metis
  then show False using broadcast_step_releasing(2) [OF at] same [of t'] same [of "Suc t'"] by fastforce
qed

lemma closed_goes_on:
  assumes "fair_run dops run" and "is_at (run t) i (Waiting c n g s)" and "t \<le> t1" and "n \<in> w_closed (run t1)"
  shows "\<exists>t'\<ge>t. is_at (run t') i (Waiting c n g s) \<and> (is_at (run (Suc t')) i (Trying c) \<or> is_at (run (Suc t')) i Refused)"
proof (rule ccontr)
  assume none: "\<not> ?thesis"
  have at: "is_at (run t') i (Waiting c n g s)" if "t \<le> t'" for t'
    using that
  proof (induction rule: dec_induct)
    case (step t')
    have "block_step dops (run t') (run (Suc t'))" using assms(1) by (simp add: fair_run_def)
    then show ?case using waiting_step [of dops "run t'" "run (Suc t')" i] step none by blast
  qed (rule assms(2))
  have "n \<in> w_closed (run t')" if "t1 \<le> t'" for t' using run_grows [OF assms(1) that] assms(4) by blast
  then have "\<exists>w'. caller_step dops i (run t') w'" if "t1 \<le> t'" for t'
    using caller_step_woken(1) at [of t'] assms(3) that by (meson order_trans)
  then obtain t' where t': "t1 \<le> t'" "caller_step dops i (run t') (run (Suc t'))"
    using assms(1) unfolding fair_run_def weakly_fair_def by metis
  then have "t \<le> t'" using assms(3) by simp
  then show False using caller_step_woken(2) [OF at t'(2)] at none by blast
qed

text \<open>A caller gives up only when its context is done or, with a deadline, the deadline has passed.\<close>

definition refusals_justified :: "patience \<Rightarrow> ('d, 'k) world \<Rightarrow> bool" where
  "refusals_justified p w \<longleftrightarrow> bk_patience (w_limiter w) = p \<and>
     (\<forall>i. is_at w i Refused \<longrightarrow> i \<in> w_cancelled w \<or> (\<exists>d. p = Deadline d \<and> d \<le> w_now w))"

lemma refusals_put:
  assumes "refusals_justified p w" and "is_at w i y" and "w_goroutines v = w_goroutines w"
    and "bk_patience (w_limiter v) = p" and "w_cancelled v = w_cancelled w" and "w_now v = w_now w"
    and "g = Refused \<Longrightarrow> i \<in> w_cancelled w \<or> (\<exists>d. p = Deadline d \<and> d \<le> w_now w)"
  shows "refusals_justified p (put i g v)"
proof -
  have "is_at (put i g v) j Refused \<Longrightarrow> j = i \<and> g = Refused \<or> is_at w j Refused" for j
    using assms(3) by (cases "i = j") (auto simp: is_at_def put_def)
  then show ?thesis using assms unfolding refusals_justified_def by (simp add: put_def) blast
qed

lemma refusals_step:
  assumes "block_step dops w w'" and "refusals_justified p w"
  shows "refusals_justified p w'"
  using assms
proof (induction rule: block_step_induct)
  case (arrive w c)
  then show ?case by (auto simp: refusals_justified_def is_at_def nth_append less_Suc_eq split: if_splits)
next
  case (tick w t)
  then show ?case unfolding refusals_justified_def by (simp add: is_at_def) (meson order_trans)
next
  case (cancel w i)
  then show ?case unfolding refusals_justified_def by (simp add: is_at_def)
qed (rule refusals_put, assumption, assumption,
    (auto simp: refusals_justified_def deadline_passed_def timer_fired_def broadcastRelease_def
      split: patience.splits if_splits)[5])+

lemma refusals_reach:
  assumes "block_reach dops b0 w" shows "refusals_justified (bk_patience b0) w"
  using assms
proof induction
  case (start now)
  then show ?case by (simp add: refusals_justified_def is_at_def)
next
  case (step w w')
  then show ?case by (blast intro: refusals_step)
qed

lemma late_step:
  assumes "block_step dops w w'" and "is_at w i (Trying c)" and "deadline_passed (w_now w) (bk_patience (w_limiter w))"
  shows "is_at w' i (Trying c) \<or> is_at w' i Refused"
  using assms
proof (induction rule: block_step_induct)
  case (refused w j c' n g d)
  then show ?case by (cases "i = j") (auto simp: is_at_def put_def)
next
  case (timer w j c' n g s)
  then show ?case by (cases "i = j") (auto simp: is_at_def put_def)
qed (auto simp: is_at_def put_def nth_append nth_list_update)

section \<open>Over the default limiter\<close>

definition precise_full :: "ctx \<Rightarrow> ('l, precise) default_limiter \<Rightarrow> bool" where
  "precise_full c l \<longleftrightarrow> p_limit (dl_strategy l) \<le> p_inFlight (dl_strategy l)"

definition simple_full :: "ctx \<Rightarrow> ('l, simple) default_limiter \<Rightarrow> bool" where
  "simple_full c l \<longleftrightarrow> s_limit (dl_strategy l) \<le> s_inFlight (dl_strategy l)"

interpretation precise_waiters: blocking_delegate "default_delegate lops precise_ops" "\<lambda>_. True" precise_full for lops
  by unfold_locales
    (auto simp: default_delegate_def limiter_Acquire_def precise_ops_def precise_TryAcquire_def precise_full_def Let_def
      split: if_splits)

interpretation simple_waiters: blocking_delegate "default_delegate lops simple_ops" "\<lambda>_. True" simple_full for lops
  by unfold_locales
    (auto simp: default_delegate_def limiter_Acquire_def simple_ops_def simple_TryAcquire_def simple_full_def Let_def
      split: if_splits)

fun holds :: "'k goroutine \<Rightarrow> 'k option" where
  "holds (Holding k) = Some k"
| "holds _ = None"

definition holding_count :: "('d, 'k) world \<Rightarrow> int" where
  "holding_count w = int (length (filter (\<lambda>g. holds g \<noteq> None) (w_goroutines w)))"

lemma block_callers_step:
  assumes "block_step (default_delegate lops sops) w w'" and "length (w_goroutines w) < 2 ^ 31"
    and "callers_reach lops sops l0 holds (bk_delegate (w_limiter w)) (w_goroutines w)"
  shows "callers_reach lops sops l0 holds (bk_delegate (w_limiter w')) (w_goroutines w')"
  using assms
proof (induction rule: block_step_induct)
  case (arrive w c)
  then show ?case by (simp add: callers_reach_arrive)
next
  case (acquired w i c n g k d)
  then show ?case using callers_reach_granted [OF acquired.prems(2) _ _ acquired.prems(1) acquired.hyps(2), of i "Holding k"]
    by (simp add: is_at_def put_def)
next
  case (refused w i c n g d)
  then show ?case using callers_reach_refused [OF refused.prems(2) refused.hyps(2)]
    by (simp add: is_at_def put_def callers_reach_same)
next
  case (complete w i k rd oc)
  then show ?case using callers_reach_complete [OF complete.prems(2), of i k Releasing rd oc]
    by (simp add: is_at_def put_def)
next
  case (timer w i c n g s)
  then show ?case by (simp add: is_at_def put_def callers_reach_same split: patience.split)
qed (auto simp: is_at_def put_def callers_reach_same broadcastRelease_def)

lemma block_callers:
  assumes "block_reach (default_delegate lops sops) b0 w" and "length (w_goroutines w) < 2 ^ 31"
  shows "callers_reach lops sops (bk_delegate b0) holds (bk_delegate (w_limiter w)) (w_goroutines w)"
  using assms
proof induction
  case (start now)
  then show ?case by (simp add: callers_reach_start)
next
  case (step w w')
  then have "length (w_goroutines w) < 2 ^ 31" using block_step_length by fastforce
  then show ?case using step block_callers_step by blast
qed

section \<open>Properties\<close>

lemma new_notify: "bk_notify (NewBlockingLimiter d t lg) = 0" "bk_notify (NewDeadlineLimiter d dl lg) = 0"
  by (simp_all add: NewBlockingLimiter_def NewDeadlineLimiter_def Let_def)

text \<open>The first caller of a limiter whose delegate grants it a token, and a second one that is refused.\<close>

lemma one_holder:
  assumes "lim_Acquire dops 0 c (bk_delegate b) = (Some k, d)" and "\<not> deadline_passed 0 (bk_patience b)"
  shows "block_reach dops b \<lparr>w_limiter = b\<lparr>bk_delegate := d\<rparr>, w_closed = {}, w_now = 0, w_completed = 0, w_cancelled = {},
    w_goroutines = [Holding k]\<rparr>"
proof -
  let ?w = "\<lambda>b gs. \<lparr>w_limiter = b, w_closed = {}, w_now = 0, w_completed = 0, w_cancelled = {}, w_goroutines = gs\<rparr>"
  have w0: "block_reach dops b (?w b [])" by (rule block_reach.start)
  have w1: "block_reach dops b (?w b [Trying c])"
    using block_reach.step [OF w0 block_step.arrive [of _ _ c]] by simp
  have w2: "block_reach dops b (?w b [Captured c (bk_notify b) 0])"
    using block_reach.step [OF w1 block_capture [of _ 0 c]] assms(2) by (simp add: is_at_def put_def currentNotify_def)
  show ?thesis
    using block_reach.step [OF w2 block_acquired [of _ 0 c "bk_notify b" 0 dops k d]] assms(1)
    by (simp add: is_at_def put_def)
qed

lemma one_waiter:
  assumes "lim_Acquire dops 0 c (bk_delegate b) = (Some k, l1)" and "lim_Acquire dops 0 c l1 = (None, l1)"
    and "bk_notify b = 0" and "\<not> deadline_passed 0 (bk_patience b)"
  shows "block_reach dops b \<lparr>w_limiter = b\<lparr>bk_delegate := l1\<rparr>, w_closed = {}, w_now = 0, w_completed = 0, w_cancelled = {},
    w_goroutines = [Holding k, Waiting c 0 0 0]\<rparr>"
proof -
  let ?w = "\<lambda>b gs. \<lparr>w_limiter = b, w_closed = {}, w_now = 0, w_completed = 0, w_cancelled = {}, w_goroutines = gs\<rparr>"
  let ?b1 = "b\<lparr>bk_delegate := l1\<rparr>"
  have w3: "block_reach dops b (?w ?b1 [Holding k])" using one_holder [OF assms(1,4)] .
  have w4: "block_reach dops b (?w ?b1 [Holding k, Trying c])"
    using block_reach.step [OF w3 block_step.arrive [of _ _ c]] by simp
  have w5: "block_reach dops b (?w ?b1 [Holding k, Captured c 0 0])"
    using block_reach.step [OF w4 block_capture [of _ 1 c]] assms by (simp add: is_at_def put_def currentNotify_def)
  show ?thesis
    using block_reach.step [OF w5 block_refused [of _ 1 c 0 0 dops l1]] assms by (simp add: is_at_def put_def)
qed

text \<open>A limiter with one token, two callers: the first holds the token, the second waits.\<close>

lemma two_callers:
  assumes "bk_delegate b = one_limiter" and "bk_notify b = 0" and "\<not> deadline_passed 0 (bk_patience b)"
  obtains k w where "block_reach (default_delegate fixed_ops precise_ops) b w"
    and "w_goroutines w = [Holding k, Waiting [] 0 0 0]" and "w_closed w = {}" and "w_completed w = 0" and "w_now w = 0"
    and "bk_patience (w_limiter w) = bk_patience b"
proof -
  let ?D = "default_delegate fixed_ops precise_ops"
  obtain k l1 where acq: "lim_Acquire ?D 0 [] one_limiter = (Some k, l1)" and ref: "lim_Acquire ?D 0 [] l1 = (None, l1)"
    by (rule one_limiter_cycle)
  show ?thesis using one_waiter [of ?D "[]" b k l1] acq ref assms by (intro that) auto
qed

lemma two_blocked:
  obtains k w where "block_reach (default_delegate fixed_ops precise_ops) (NewBlockingLimiter one_limiter 0 None) w"
    and "w_goroutines w = [Holding k, Waiting [] 0 0 0]" and "w_closed w = {}" and "w_completed w = 0"
  by (rule two_callers [of "NewBlockingLimiter one_limiter 0 None"]) (simp_all add: NewBlockingLimiter_def deadline_passed_def)

text \<open>C7: No wake-up is lost: in every reachable state of a blocking or a deadline limiter over a
  default limiter with the precise strategy, a caller that waits on a channel which is neither closed
  nor about to be closed, while no release is between completing at the delegate and broadcasting,
  waits because the delegate is at its limit.\<close>

theorem blocking_no_lost_wakeup:
  assumes "b0 = NewBlockingLimiter l0 timeout lg \<or> b0 = NewDeadlineLimiter l0 dline lg"
    and "block_reach (default_delegate lops precise_ops) b0 w"
    and "Waiting c n g s \<in> set (w_goroutines w)" and "n \<notin> w_closed w" and "Closing n \<notin> set (w_goroutines w)"
    and "Releasing \<notin> set (w_goroutines w)"
  shows "precise_GetLimit (dl_strategy (bk_delegate (w_limiter w))) \<le> precise_GetBusyCount (dl_strategy (bk_delegate (w_limiter w)))"
proof -
  have "bk_notify b0 = 0" using assms(1) by (auto simp: new_notify)
  then show ?thesis using precise_waiters.stuck_full [OF assms(2) _ assms(3)] assms(4-6)
    by (simp add: precise_full_def precise_GetLimit_def precise_GetBusyCount_def)
qed

theorem blocking_no_lost_wakeup_witness:
  "\<exists>w. block_reach (default_delegate fixed_ops precise_ops) (NewBlockingLimiter one_limiter 0 None) w
     \<and> precise_GetLimit (dl_strategy (bk_delegate (w_limiter w))) \<le> precise_GetBusyCount (dl_strategy (bk_delegate (w_limiter w)))"
proof -
  obtain k w where "block_reach (default_delegate fixed_ops precise_ops) (NewBlockingLimiter one_limiter 0 None) w"
    and "w_goroutines w = [Holding k, Waiting [] 0 0 0]" and "w_closed w = {}"
    by (rule two_blocked)
  then show ?thesis using blocking_no_lost_wakeup [OF disjI1 [OF refl], of fixed_ops one_limiter 0 None w "[]" 0 0 0] by auto
qed

text \<open>C16: A waiter is woken by the releases alone: in every fair run of a blocking or a deadline limiter over a
  default limiter with the precise strategy, once a request has completed at the delegate after a waiting caller captured its
  channel, that very channel is closed at some time, which no timer, tick or cancellation does; and the caller leaves its wait, to try again, or to
  give up when its context is done or its deadline has passed. A run is fair when a
  caller that can always make its next step makes one, and a completion that is past the delegate gets on with its
  broadcast: nothing is assumed of other callers, of holders that have not completed, or of the clock.\<close>

theorem blocking_wakes:
  assumes "b0 = NewBlockingLimiter l0 timeout lg \<or> b0 = NewDeadlineLimiter l0 dline lg"
    and "block_reach (default_delegate lops precise_ops) b0 (run 0)" and "fair_run (default_delegate lops precise_ops) run"
    and "is_at (run t) i (Waiting c n g s)" and "g < w_completed (run t)"
  shows "(\<exists>t'\<ge>t. n \<in> w_closed (run t'))
    \<and> (\<exists>t'\<ge>t. is_at (run t') i (Waiting c n g s)
        \<and> (is_at (run (Suc t')) i (Trying c)
           \<or> is_at (run (Suc t')) i Refused
             \<and> (i \<in> w_cancelled (run (Suc t')) \<or> b0 = NewDeadlineLimiter l0 dline lg \<and> dline \<le> w_now (run (Suc t')))))"
proof -
  have reach: "block_reach (default_delegate lops precise_ops) b0 (run t)" for t
    using assms(2,3) by (induction t) (auto simp: fair_run_def intro: block_reach.step)
  have notify: "bk_notify b0 = 0" using assms(1) by (auto simp: new_notify)
  have inv: "wait_inv precise_full (run t)" for t using precise_waiters.wait_inv_reach [OF reach notify] by simp
  have old: "\<exists>t'\<ge>t. n \<in> w_closed (run t')" if n: "n < bk_notify (w_limiter (run t))" for t
  proof -
    consider "n \<in> w_closed (run t)" | j where "is_at (run t) j (Closing n)"
      using inv [of t] n by (auto simp: wait_inv_def old_closed_def is_at_def in_set_conv_nth)
    then show ?thesis using closing_closes [OF assms(3)] by cases blast+
  qed
  have closed: "\<exists>t'\<ge>t. n \<in> w_closed (run t')"
  proof (cases "n < bk_notify (w_limiter (run t))")
    case False
    have "seen (run t) n g" using inv [of t] is_at_in [OF assms(4)] unfolding wait_inv_def by blast
    then have n: "n = bk_notify (w_limiter (run t))" and "0 < releasing_count (run t)"
      using False assms(5) by (auto simp: seen_def)
    then obtain j where "is_at (run t) j Releasing"
      by (auto simp: releasing_count_def filter_empty_conv is_at_def in_set_conv_nth)
    then obtain t' where t': "t \<le> t'" "n < bk_notify (w_limiter (run t'))" using releasing_replaces [OF assms(3)] n by blast
    then show ?thesis using old [OF t'(2)] by (meson order_trans)
  qed (rule old)
  then obtain t' where t': "t \<le> t'" "is_at (run t') i (Waiting c n g s)" "is_at (run (Suc t')) i (Trying c) \<or> is_at (run (Suc t')) i Refused"
    using closed_goes_on [OF assms(3,4)] by blast
  moreover have "i \<in> w_cancelled (run (Suc t')) \<or> b0 = NewDeadlineLimiter l0 dline lg \<and> dline \<le> w_now (run (Suc t'))"
    if "is_at (run (Suc t')) i Refused"
    using refusals_reach [OF reach, of "Suc t'"] that assms(1)
    by (auto simp: refusals_justified_def NewBlockingLimiter_def NewDeadlineLimiter_def Let_def)
  ultimately show ?thesis using closed by blast
qed

text \<open>A release wakes the second caller, which then gets the token; after that nothing happens any more.\<close>

theorem blocking_wakes_witness:
  "\<exists>run t'. block_reach (default_delegate fixed_ops precise_ops) (NewBlockingLimiter one_limiter 0 None) (run 0)
     \<and> fair_run (default_delegate fixed_ops precise_ops) run
     \<and> is_at (run 0) 1 (Waiting [] 0 0 0) \<and> is_at (run t') 1 (Waiting [] 0 0 0) \<and> is_at (run (Suc t')) 1 (Trying [])"
proof -
  let ?D = "default_delegate fixed_ops precise_ops" and ?b = "NewBlockingLimiter one_limiter 0 None"
  obtain k l1 where acq: "lim_Acquire ?D 0 [] one_limiter = (Some k, l1)" and ref: "lim_Acquire ?D 0 [] l1 = (None, l1)"
    and cmpl: "\<forall>rd. lim_Complete ?D rd Ignored k l1 = one_limiter"
    by (rule one_limiter_cycle)
  let ?w = "\<lambda>b cl n gs. \<lparr>w_limiter = b, w_closed = cl, w_now = 0, w_completed = n, w_cancelled = {}, w_goroutines = gs\<rparr>
    :: ((fixed, precise) default_limiter, unit default_listener) world"
  let ?b' = "?b\<lparr>bk_notify := 1\<rparr>" and ?b1 = "?b\<lparr>bk_delegate := l1\<rparr>"
  define s0 where "s0 = ?w ?b {} 1 [Releasing, Waiting [] 0 0 0]"
  define s1 where "s1 = ?w ?b' {} 1 [Closing 0, Waiting [] 0 0 0]"
  define s2 where "s2 = ?w ?b' {0} 1 [Done, Waiting [] 0 0 0]"
  define s3 where "s3 = ?w ?b' {0} 1 [Done, Trying []]"
  define s4 where "s4 = ?w ?b' {0} 1 [Done, Captured [] 1 1]"
  define s5 where "s5 = ?w (?b'\<lparr>bk_delegate := l1\<rparr>) {0} 1 [Done, Holding k]"
  note s = s0_def s1_def s2_def s3_def s4_def s5_def
  have new: "bk_delegate ?b = one_limiter" "bk_notify ?b = 0" "bk_patience ?b = Timeout 0"
    by (simp_all add: NewBlockingLimiter_def)
  have w: "block_reach ?D ?b (?w ?b1 {} 0 [Holding k, Waiting [] 0 0 0])"
    by (rule one_waiter) (use acq ref new in \<open>simp_all add: deadline_passed_def\<close>)
  have b: "?b1\<lparr>bk_delegate := one_limiter\<rparr> = ?b" by (simp add: NewBlockingLimiter_def)
  have reach: "block_reach ?D ?b s0"
    using block_reach.step [OF w block_releases(1) [of _ 0 k ?D undefined Ignored]] cmpl b
    by (simp add: is_at_def put_def s)
  define run where "run = (\<lambda>t. [s0, s1, s2, s3, s4, s5] ! min t 5)"
  have run: "run 0 = s0" "run 1 = s1" "run 2 = s2" "run 3 = s3" "run 4 = s4" "\<And>t. 5 \<le> t \<Longrightarrow> run t = s5" by (simp_all add: run_def)
  have steps: "block_step ?D s0 s1" "block_step ?D s1 s2" "block_step ?D s2 s3" "block_step ?D s3 s4" "block_step ?D s4 s5" "block_step ?D s5 s5"
    using block_releases(2) [of s0 0 0 ?b' ?D] block_releases(3) [of s1 0 0 ?D] block_woken [of s2 1 "[]" 0 0 0 ?D]
      block_capture [of s3 1 "[]" ?D] block_acquired [of s4 1 "[]" 1 1 ?D k l1] block_step.tick [of s5 0 ?D] acq new
    by (simp_all add: s is_at_def put_def broadcastRelease_def currentNotify_def deadline_passed_def)
  have "block_step ?D (run t) (run (Suc t))" for t
  proof -
    consider "t = 0" | "t = 1" | "t = 2" | "t = 3" | "t = 4" | "5 \<le> t" by linarith
    then show ?thesis using steps run by cases (simp_all add: numeral_eq_Suc)
  qed
  moreover have quiet: "\<not> caller_step ?D i s5 v" "\<not> broadcast_step ?D i s5 v" for i v
  proof -
    have "is_at s5 i g \<Longrightarrow> g = Done \<or> g = Holding k" for g by (auto simp: s is_at_def nth_Cons split: nat.splits)
    then show "\<not> caller_step ?D i s5 v" "\<not> broadcast_step ?D i s5 v"
      by (auto simp: caller_step_def broadcast_step_def split: patience.splits
          elim!: blocking_tryAcquire.cases deadline_tryAcquire.cases release_step.cases)
  qed
  have "weakly_fair act run" if "\<And>v. \<not> act s5 v" for act
    unfolding weakly_fair_def using that run(6) by (metis nle_le)
  ultimately have fair: "fair_run ?D run" using quiet by (simp add: fair_run_def)
  have "is_at (run 0) 1 (Waiting [] 0 0 0)" "0 < w_completed (run 0)" "block_reach ?D ?b (run 0)"
    using reach by (simp_all add: run s is_at_def)
  then obtain t' where t': "is_at (run t') 1 (Waiting [] 0 0 0)"
      "is_at (run (Suc t')) 1 (Trying []) \<or> is_at (run (Suc t')) 1 Refused \<and> 1 \<in> w_cancelled (run (Suc t'))"
    using blocking_wakes [of ?b one_limiter 0 None 0 fixed_ops run 0 1 "[]" 0 0 0, OF disjI1 [OF refl] _ fair]
    by (auto simp: NewBlockingLimiter_def NewDeadlineLimiter_def)
  moreover have "w_cancelled (run t) = {}" for t
  proof -
    consider "t = 0" | "t = 1" | "t = 2" | "t = 3" | "t = 4" | "5 \<le> t" by linarith
    then show ?thesis using run by cases (simp_all add: s)
  qed
  ultimately show ?thesis using fair run reach \<open>is_at (run 0) 1 (Waiting [] 0 0 0)\<close> by auto
qed

text \<open>C17: When a caller is refused: a blocking limiter refuses only a caller whose context is done,
  whatever its timeout (which only makes the caller try again); a deadline limiter refuses only a caller
  whose context is done or when the deadline has passed, and once it has, a caller that has not captured a
  channel can only be refused.\<close>

theorem blocking_refusals:
  "(block_reach dops (NewBlockingLimiter d timeout lg) w \<and> is_at w i Refused \<longrightarrow> i \<in> w_cancelled w)
   \<and> (block_reach dops (NewDeadlineLimiter d dline lg) w \<and> is_at w i Refused \<longrightarrow> i \<in> w_cancelled w \<or> dline \<le> w_now w)
   \<and> (block_reach dops (NewDeadlineLimiter d dline lg) w \<and> dline \<le> w_now w \<and> is_at w i (Trying c) \<and> block_step dops w w'
       \<longrightarrow> is_at w' i (Trying c) \<or> is_at w' i Refused)"
proof (intro conjI impI)
  show "i \<in> w_cancelled w" if "block_reach dops (NewBlockingLimiter d timeout lg) w \<and> is_at w i Refused"
    using refusals_reach [OF that [THEN conjunct1]] that
    by (simp add: refusals_justified_def NewBlockingLimiter_def Let_def)
  show "i \<in> w_cancelled w \<or> dline \<le> w_now w" if "block_reach dops (NewDeadlineLimiter d dline lg) w \<and> is_at w i Refused"
    using refusals_reach [OF that [THEN conjunct1]] that
    by (simp add: refusals_justified_def NewDeadlineLimiter_def Let_def)
  assume late: "block_reach dops (NewDeadlineLimiter d dline lg) w \<and> dline \<le> w_now w \<and> is_at w i (Trying c)
    \<and> block_step dops w w'"
  then have "bk_patience (w_limiter w) = Deadline dline"
    using refusals_reach [of dops "NewDeadlineLimiter d dline lg" w]
    by (simp add: refusals_justified_def NewDeadlineLimiter_def Let_def)
  then show "is_at w' i (Trying c) \<or> is_at w' i Refused"
    using late by (intro late_step [of dops w]) (simp_all add: deadline_passed_def)
qed

theorem blocking_refusals_witness:
  "\<exists>w. block_reach (default_delegate fixed_ops precise_ops) (NewDeadlineLimiter one_limiter 5 None) w
     \<and> is_at w 0 Refused \<and> 0 \<notin> w_cancelled w \<and> 5 \<le> w_now w"
proof -
  let ?D = "default_delegate fixed_ops precise_ops" and ?b = "NewDeadlineLimiter one_limiter 5 None"
  let ?w = "\<lambda>gs. \<lparr>w_limiter = ?b, w_closed = {}, w_now = 7, w_completed = 0, w_cancelled = {}, w_goroutines = gs\<rparr>"
  have w0: "block_reach ?D ?b (?w [])" by (rule block_reach.start)
  have w1: "block_reach ?D ?b (?w [Trying []])"
    using block_reach.step [OF w0 block_step.arrive [of _ _ "[]"]] by simp
  have w2: "block_reach ?D ?b (?w [Refused])"
    using block_reach.step [OF w1 block_too_late [of _ 0 "[]"]]
    by (simp add: is_at_def put_def deadline_passed_def NewDeadlineLimiter_def)
  moreover have "is_at (?w [Refused]) 0 Refused" by (simp add: is_at_def)
  ultimately show ?thesis
    using blocking_refusals [of ?D one_limiter 0 None "?w [Refused]" 0 5] by (intro exI [of _ "?w [Refused]"]) simp
qed

text \<open>A blocking or deadline limiter keeps the accounts of the default limiter under it: over the
  precise strategy and any limit algorithm, however the callers interleave (fewer than \<open>2 ^ 31\<close> of them),
  the limiter's and the strategy's counters are the number of callers that hold a listener: every
  token granted is returned exactly once.\<close>

theorem blocking_accounting:
  assumes "NewDefaultLimiter lops precise_ops now (Some lmt) minW maxW thr ws (Some (NewPreciseStrategy n)) lg reg = Inr l0"
    and "b0 = NewBlockingLimiter l0 timeout lg' \<or> b0 = NewDeadlineLimiter l0 dline lg'"
    and "block_reach (default_delegate lops precise_ops) b0 w" and "length (w_goroutines w) < 2 ^ 31"
  shows "dl_inFlight (bk_delegate (w_limiter w)) = holding_count w
    \<and> precise_GetBusyCount (dl_strategy (bk_delegate (w_limiter w))) = holding_count w"
proof -
  have b0: "bk_delegate b0 = l0" using assms(2) by (auto simp: NewBlockingLimiter_def NewDeadlineLimiter_def Let_def)
  show ?thesis
    using callers_reach_accounts [OF assms(1), of holds] block_callers [OF assms(3,4)] b0 by (simp add: holding_count_def)
qed

theorem blocking_accounting_witness:
  "\<exists>w k. block_reach (default_delegate fixed_ops precise_ops) (NewBlockingLimiter fixed_limiter 0 None) w
     \<and> w_goroutines w = [Holding k] \<and> dl_inFlight (bk_delegate (w_limiter w)) = 1"
proof -
  let ?D = "default_delegate fixed_ops precise_ops" and ?b = "NewBlockingLimiter fixed_limiter 0 None"
  have i: "i32 5 = 5" by (rule i32_id) (simp add: in_i32_def)
  obtain k l e where "limiter_Acquire precise_ops 0 [] fixed_limiter = (Some k, l, e)"
    using precise_first_grant [OF fixed_limiter_new, of 0 "[]"] i by (auto simp: fixed_ops_def fixed_EstimatedLimit_def)
  then have acq: "lim_Acquire ?D 0 [] (bk_delegate ?b) = (Some k, l)"
    by (simp add: default_delegate_def NewBlockingLimiter_def)
  let ?w = "\<lparr>w_limiter = ?b\<lparr>bk_delegate := l\<rparr>, w_closed = {}, w_now = 0, w_completed = 0, w_cancelled = {},
    w_goroutines = [Holding k]\<rparr>"
  have reach: "block_reach ?D ?b ?w"
    by (rule one_holder [OF acq]) (simp add: NewBlockingLimiter_def deadline_passed_def)
  from blocking_accounting [OF fixed_limiter_new disjI1 [OF refl] reach] reach show ?thesis
    by (intro exI [of _ ?w] exI [of _ k]) (simp add: holding_count_def)
qed

section \<open>The deadline ends the loop\<close>

text \<open>How many steps the loop of a goroutine can still take once the deadline has passed.\<close>

fun steps_left :: "'k goroutine \<Rightarrow> nat" where
  "steps_left (Waiting c n g s) = 2"
| "steps_left (Trying c) = 1"
| "steps_left (Captured c n g) = 1"
| "steps_left _ = 0"

text \<open>A run of the limiter, with the number of steps goroutine \<open>i\<close> takes in its loop.\<close>

inductive loop_run :: "('d, 'k) delegate_ops \<Rightarrow> nat \<Rightarrow> ('d, 'k) world \<Rightarrow> nat \<Rightarrow> ('d, 'k) world \<Rightarrow> bool"
  for dops :: "('d, 'k) delegate_ops" and i :: nat and w :: "('d, 'k) world" where
  init: "loop_run dops i w 0 w"
| others: "loop_run dops i w n v \<Longrightarrow> block_step dops v v' \<Longrightarrow> is_at v i g \<Longrightarrow> is_at v' i g \<Longrightarrow> loop_run dops i w n v'"
| own: "loop_run dops i w n v \<Longrightarrow> deadline_tryAcquire dops i v v' \<Longrightarrow> loop_run dops i w (Suc n) v'"

definition late :: "int \<Rightarrow> ('d, 'k) world \<Rightarrow> bool" where
  "late d w \<longleftrightarrow> bk_patience (w_limiter w) = Deadline d \<and> d \<le> w_now w"

lemma late_block_step: "block_step dops w w' \<Longrightarrow> late d w \<Longrightarrow> late d w'"
  by (induction rule: block_step_induct) (auto simp: late_def broadcastRelease_def)

lemma late_own_step:
  assumes "deadline_tryAcquire dops i w w'" and "late d w"
  obtains g g' where "is_at w i g" "is_at w' i g'" "steps_left g' < steps_left g" "late d w'"
  using assms by cases (auto simp: late_def is_at_def put_def deadline_passed_def)

lemma late_run:
  assumes "loop_run dops i w n v" and "late d w" and "is_at w i g"
  shows "late d v \<and> (\<exists>g'. is_at v i g' \<and> n + steps_left g' \<le> steps_left g)"
  using assms(1)
proof induction
  case init
  then show ?case using assms(2,3) by auto
next
  case (others n v v' h)
  then show ?case using late_block_step [OF others.hyps(2)] by (auto simp: is_at_def)
next
  case (own n v v')
  then obtain g' where g': "late d v" "is_at v i g'" "n + steps_left g' \<le> steps_left g" by blast
  from late_own_step [OF own.hyps(2) g'(1)] obtain h h' where
    "is_at v i h" "is_at v' i h'" "steps_left h' < steps_left h" "late d v'" by metis
  moreover from this g'(2) have "h = g'" by (simp add: is_at_def)
  ultimately show ?case using g'(3) by fastforce
qed

lemma late_enabled:
  assumes "late d w" and "is_at w i g" and "0 < steps_left g"
  shows "\<exists>w'. deadline_tryAcquire dops i w w'"
proof (cases g)
  case (Trying c)
  then show ?thesis using assms deadline_tryAcquire.cancelled [of w i c dops] deadline_tryAcquire.too_late [of w i c dops]
    by (auto simp: late_def deadline_passed_def)
next
  case (Captured c n k)
  then have at: "is_at w i (Captured c n k)" using assms(2) by simp
  obtain found d' where "lim_Acquire dops (w_now w) c (bk_delegate (w_limiter w)) = (found, d')" by fastforce
  then show ?thesis using deadline_tryAcquire.acquired [OF at] deadline_tryAcquire.refused [OF at] by (cases found) blast+
next
  case (Waiting c n k s)
  then show ?thesis using assms deadline_tryAcquire.timer [of w i c n k s d dops] by (auto simp: late_def)
qed (use assms(3) in simp_all)

lemma deadline_patience: "block_reach dops (NewDeadlineLimiter d dline lg) w \<Longrightarrow> bk_patience (w_limiter w) = Deadline dline"
  using refusals_reach [of dops "NewDeadlineLimiter d dline lg" w]
  by (simp add: refusals_justified_def NewDeadlineLimiter_def Let_def)

text \<open>C39: The deadline limiter's loop terminates: over any delegate, once the deadline has passed a caller
  takes at most two more steps in its loop, however the other goroutines interleave, and until it has
  returned it can take its next step.\<close>

theorem deadline_loop_terminates:
  assumes "block_reach dops (NewDeadlineLimiter d dline lg) w" and "dline \<le> w_now w" and "is_at w i g"
    and "loop_run dops i w m v"
  shows "m \<le> 2 \<and> (\<exists>g'. is_at v i g' \<and> (steps_left g' = 0 \<or> (\<exists>v'. deadline_tryAcquire dops i v v')))"
proof -
  have late: "late dline w" using deadline_patience [OF assms(1)] assms(2) by (simp add: late_def)
  from late_run [OF assms(4) late assms(3)] obtain g' where
    "late dline v" and "is_at v i g'" and "m + steps_left g' \<le> steps_left g" by auto
  moreover have "steps_left g \<le> 2" by (cases g) simp_all
  ultimately show ?thesis using late_enabled [of dline v i g' dops] by auto
qed

theorem deadline_loop_terminates_witness:
  "\<exists>w v. block_reach (default_delegate fixed_ops precise_ops) (NewDeadlineLimiter one_limiter 5 None) w
     \<and> is_at w 1 (Waiting [] 0 0 0) \<and> loop_run (default_delegate fixed_ops precise_ops) 1 w 1 v
     \<and> (\<exists>g'. is_at v 1 g' \<and> (steps_left g' = 0 \<or> (\<exists>v'. deadline_tryAcquire (default_delegate fixed_ops precise_ops) 1 v v')))"
proof -
  let ?D = "default_delegate fixed_ops precise_ops" and ?b = "NewDeadlineLimiter one_limiter 5 None"
  obtain k w where w: "block_reach ?D ?b w" and gs: "w_goroutines w = [Holding k, Waiting [] 0 0 0]" and "w_now w = 0"
    by (rule two_callers [of ?b]) (simp_all add: NewDeadlineLimiter_def deadline_passed_def)
  let ?v = "w\<lparr>w_now := 7\<rparr>"
  have v: "block_reach ?D ?b ?v" using block_reach.step [OF w block_step.tick [of _ 7]] \<open>w_now w = 0\<close> by simp
  have at: "is_at ?v 1 (Waiting [] 0 0 0)" using gs by (simp add: is_at_def)
  have "deadline_tryAcquire ?D 1 ?v (put 1 Refused ?v)"
    by (rule deadline_tryAcquire.timer [OF at deadline_patience [OF v]]) simp
  then have run: "loop_run ?D 1 ?v 1 (put 1 Refused ?v)" using loop_run.own [OF loop_run.init] by fastforce
  show ?thesis using deadline_loop_terminates [OF v _ at run] v at run by (simp, blast)
qed

end
