(* ===== verification/Limiter_Queue.thy ===== *)
theory Limiter_Queue
  imports Limiter_Delegate "HOL-Library.Multiset"
begin

text \<open>
  \<open>limiter/queue_blocking.go\<close>, \<open>fifo_blocking.go\<close> and \<open>lifo_blocking.go\<close>: a limiter with a bounded
  backlog of waiting callers, served first-in first-out or last-in first-out. The first section has
  the queue and the constructors, the second the goroutines: the parts of \<open>tryAcquire\<close> and
  \<open>unblock\<close> between two lock or channel operations are one step each.
\<close>

section \<open>The backlog\<close>

definition OrderingFIFO :: string where "OrderingFIFO = ''fifo''"
definition OrderingLIFO :: string where "OrderingLIFO = ''lifo''"
definition metricTagOrdering :: string where "metricTagOrdering = ''ordering''"

text \<open>
  An element of the backlog. Its number stands for the list element and its release channel, both
  allocated by the push; \<open>q_fresh\<close> is the allocator. The front of the list comes first.
\<close>

record queue_element =
  qe_id :: nat
  qe_ctx :: ctx

record queue =
  q_list :: "queue_element list"
  q_ordering :: string
  q_fresh :: nat

definition queue_len :: "queue \<Rightarrow> int" where
  "queue_len q = int (length (q_list q))"

text \<open>Removing an element that is not in the list (any more) does nothing.\<close>

definition evictionFunc :: "nat \<Rightarrow> queue \<Rightarrow> queue" where
  "evictionFunc e q = q\<lparr>q_list := filter (\<lambda>x. qe_id x \<noteq> e) (q_list q)\<rparr>"

definition queue_push :: "ctx \<Rightarrow> queue \<Rightarrow> nat \<times> queue" where
  "queue_push c q =
     (q_fresh q, q\<lparr>q_list := \<lparr>qe_id = q_fresh q, qe_ctx = c\<rparr> # q_list q, q_fresh := Suc (q_fresh q)\<rparr>)"

datatype queue_error = ErrQueueIsFull

definition pushWithCapacity :: "ctx \<Rightarrow> int \<Rightarrow> queue \<Rightarrow> queue_error + nat \<times> queue" where
  "pushWithCapacity c maxCapacity q =
     (if queue_len q \<ge> maxCapacity then Inl ErrQueueIsFull
      else Inr (q_fresh q, q\<lparr>q_list := \<lparr>qe_id = q_fresh q, qe_ctx = c\<rparr> # q_list q, q_fresh := Suc (q_fresh q)\<rparr>))"

definition queue_peek :: "queue \<Rightarrow> queue_element option" where
  "queue_peek q =
     (if q_ordering q = OrderingFIFO then (if q_list q = [] then None else Some (last (q_list q)))
      else if q_ordering q = OrderingLIFO then (if q_list q = [] then None else Some (hd (q_list q)))
      else None)"

definition queue_pop :: "queue \<Rightarrow> queue_element option \<times> queue" where
  "queue_pop q = (case queue_peek q of None \<Rightarrow> (None, q) | Some e \<Rightarrow> (Some e, evictionFunc (qe_id e) q))"

section \<open>The limiter\<close>

record 'd queue_limiter =
  ql_delegate :: 'd
  ql_maxBacklogSize :: int
  ql_maxBacklogTimeout :: int
  ql_backlogEvictDoneCtx :: bool
  ql_backlog :: queue

record queue_config =
  qc_Ordering :: string
  qc_MaxBacklogSize :: int
  qc_MaxBacklogTimeout :: int
  qc_BacklogEvictDoneCtx :: bool
  qc_MetricRegistry :: registry
  qc_Tags :: "string list"

text \<open>The zero value of the struct.\<close>

definition empty_config :: queue_config where
  "empty_config = \<lparr>qc_Ordering = '''', qc_MaxBacklogSize = 0, qc_MaxBacklogTimeout = 0, qc_BacklogEvictDoneCtx = False,
     qc_MetricRegistry = NilRegistry, qc_Tags = []\<rparr>"

definition ApplyDefaults :: "queue_config \<Rightarrow> queue_config" where
  "ApplyDefaults c =
     (let c = (if qc_MaxBacklogSize c \<le> 0 then c\<lparr>qc_MaxBacklogSize := 100\<rparr> else c);
          c = (if qc_MaxBacklogTimeout c = 0 then c\<lparr>qc_MaxBacklogTimeout := 1000 * 1000000\<rparr> else c);
          c = (if qc_MetricRegistry c = NilRegistry then c\<lparr>qc_MetricRegistry := EmptyMetricRegistry\<rparr> else c);
          c = (if qc_Ordering c = '''' then c\<lparr>qc_Ordering := OrderingLIFO\<rparr> else c)
      in c\<lparr>qc_Tags := qc_Tags c @ [metricTagOrdering, qc_Ordering c]\<rparr>)"

definition NewQueueBlockingLimiterFromConfig :: "'d \<Rightarrow> queue_config \<Rightarrow> 'd queue_limiter \<times> effect list" where
  "NewQueueBlockingLimiterFromConfig delegate config =
     (let config = ApplyDefaults config;
          l = \<lparr>ql_delegate = delegate, ql_maxBacklogSize = u64 (qc_MaxBacklogSize config),
               ql_maxBacklogTimeout = qc_MaxBacklogTimeout config,
               ql_backlogEvictDoneCtx = qc_BacklogEvictDoneCtx config,
               ql_backlog = \<lparr>q_list = [], q_ordering = qc_Ordering config, q_fresh = 0\<rparr>\<rparr>
      in (l, RegisterGauge (qc_MetricRegistry config) MetricQueueLimit (qc_Tags config)
             @ RegisterGauge (qc_MetricRegistry config) MetricQueueSize (qc_Tags config)))"

definition NewQueueBlockingLimiterWithDefaults :: "'d \<Rightarrow> 'd queue_limiter \<times> effect list" where
  "NewQueueBlockingLimiterWithDefaults delegate = NewQueueBlockingLimiterFromConfig delegate empty_config"

definition NewFifoBlockingLimiter :: "'d \<Rightarrow> int \<Rightarrow> int \<Rightarrow> 'd queue_limiter \<times> effect list" where
  "NewFifoBlockingLimiter delegate maxBacklogSize maxBacklogTimeout =
     NewQueueBlockingLimiterFromConfig delegate
       (empty_config\<lparr>qc_Ordering := OrderingFIFO, qc_MaxBacklogSize := maxBacklogSize,
          qc_MaxBacklogTimeout := maxBacklogTimeout\<rparr>)"

definition NewFifoBlockingLimiterWithDefaults :: "'d \<Rightarrow> 'd queue_limiter \<times> effect list" where
  "NewFifoBlockingLimiterWithDefaults delegate = NewFifoBlockingLimiter delegate 100 (1000000 * 1000)"

definition NewLifoBlockingLimiter :: "'d \<Rightarrow> int \<Rightarrow> int \<Rightarrow> registry \<Rightarrow> string list \<Rightarrow> 'd queue_limiter \<times> effect list" where
  "NewLifoBlockingLimiter delegate maxBacklogSize maxBacklogTimeout registry tags =
     NewQueueBlockingLimiterFromConfig delegate
       (empty_config\<lparr>qc_MaxBacklogSize := maxBacklogSize, qc_MaxBacklogTimeout := maxBacklogTimeout,
          qc_MetricRegistry := registry, qc_Tags := tags\<rparr>)"

definition NewLifoBlockingLimiterWithDefaults :: "'d \<Rightarrow> 'd queue_limiter \<times> effect list" where
  "NewLifoBlockingLimiterWithDefaults delegate = NewLifoBlockingLimiter delegate 0 0 NilRegistry []"

section \<open>Goroutines\<close>

text \<open>
  Inside \<open>tryAcquire\<close>: before the call of the delegate; after a refusal, before the push; with an
  element in the backlog, before the select; in the select since a time; past the select by a timeout or
  a done context, before the eviction; with a listener. Inside a completion: past the delegate's
  completion, before \<open>unblock\<close>; holding the limiter's lock with the element it peeked at; with a
  listener acquired for it; with the element evicted, before the send.
\<close>

datatype 'k qgoroutine =
    QTrying ctx
  | QFailed ctx
  | QPushed ctx nat
  | QWaiting ctx nat int
  | QLeaving nat
  | QHolding 'k
  | QReleasing
  | QPeeked nat ctx
  | QGranted nat 'k
  | QOffering nat 'k
  | QRefused
  | QDone

record ('d, 'k) qworld =
  qw_limiter :: "'d queue_limiter"
  qw_locked :: bool
  qw_now :: int
  qw_cancelled :: "nat set"
  qw_gs :: "'k qgoroutine list"

definition qset :: "nat \<Rightarrow> 'k qgoroutine \<Rightarrow> ('d, 'k) qworld \<Rightarrow> ('d, 'k) qworld" where
  "qset i g w = w\<lparr>qw_gs := (qw_gs w)[i := g]\<rparr>"

definition qat :: "('d, 'k) qworld \<Rightarrow> nat \<Rightarrow> 'k qgoroutine \<Rightarrow> bool" where
  "qat w i g \<longleftrightarrow> i < length (qw_gs w) \<and> qw_gs w ! i = g"

definition set_delegate :: "'d \<Rightarrow> ('d, 'k) qworld \<Rightarrow> ('d, 'k) qworld" where
  "set_delegate d w = w\<lparr>qw_limiter := (qw_limiter w)\<lparr>ql_delegate := d\<rparr>\<rparr>"

definition set_backlog :: "queue \<Rightarrow> ('d, 'k) qworld \<Rightarrow> ('d, 'k) qworld" where
  "set_backlog q w = w\<lparr>qw_limiter := (qw_limiter w)\<lparr>ql_backlog := q\<rparr>\<rparr>"

abbreviation delegate_of :: "('d, 'k) qworld \<Rightarrow> 'd" where
  "delegate_of w \<equiv> ql_delegate (qw_limiter w)"

abbreviation backlog_of :: "('d, 'k) qworld \<Rightarrow> queue" where
  "backlog_of w \<equiv> ql_backlog (qw_limiter w)"

text \<open>The send of \<open>setListener\<close> does not block: it succeeds when the caller is in its select.\<close>

definition setListener :: "nat \<Rightarrow> nat \<Rightarrow> ('d, 'k) qworld \<Rightarrow> bool" where
  "setListener e j w \<longleftrightarrow> (\<exists>c s. qat w j (QWaiting c e s))"

inductive queue_tryAcquire :: "('d, 'k) delegate_ops \<Rightarrow> nat \<Rightarrow> ('d, 'k) qworld \<Rightarrow> ('d, 'k) qworld \<Rightarrow> bool"
  for dops :: "('d, 'k) delegate_ops" and i :: nat where
  acquired: "qat w i (QTrying c) \<Longrightarrow> lim_Acquire dops (qw_now w) c (delegate_of w) = (Some k, d) \<Longrightarrow>
    queue_tryAcquire dops i w (qset i (QHolding k) (set_delegate d w))"
| refused: "qat w i (QTrying c) \<Longrightarrow> lim_Acquire dops (qw_now w) c (delegate_of w) = (None, d) \<Longrightarrow>
    queue_tryAcquire dops i w (qset i (QFailed c) (set_delegate d w))"
| full: "qat w i (QFailed c) \<Longrightarrow> pushWithCapacity c (ql_maxBacklogSize (qw_limiter w)) (backlog_of w) = Inl e \<Longrightarrow>
    queue_tryAcquire dops i w (qset i QRefused w)"
| push: "qat w i (QFailed c) \<Longrightarrow> pushWithCapacity c (ql_maxBacklogSize (qw_limiter w)) (backlog_of w) = Inr (n, q) \<Longrightarrow>
    queue_tryAcquire dops i w (qset i (QPushed c n) (set_backlog q w))"
| select: "qat w i (QPushed c n) \<Longrightarrow> queue_tryAcquire dops i w (qset i (QWaiting c n (qw_now w)) w)"
| backlogTimeout: "qat w i (QWaiting c n s) \<Longrightarrow> ql_maxBacklogTimeout (qw_limiter w) > 0 \<Longrightarrow>
    s + ql_maxBacklogTimeout (qw_limiter w) \<le> qw_now w \<Longrightarrow> queue_tryAcquire dops i w (qset i (QLeaving n) w)"
| ctxDone: "qat w i (QWaiting c n s) \<Longrightarrow> ql_backlogEvictDoneCtx (qw_limiter w) \<Longrightarrow> i \<in> qw_cancelled w \<Longrightarrow>
    queue_tryAcquire dops i w (qset i (QLeaving n) w)"
| evict: "qat w i (QLeaving n) \<Longrightarrow>
    queue_tryAcquire dops i w (qset i QRefused (set_backlog (evictionFunc n (backlog_of w)) w))"

inductive queue_unblock :: "('d, 'k) delegate_ops \<Rightarrow> nat \<Rightarrow> ('d, 'k) qworld \<Rightarrow> ('d, 'k) qworld \<Rightarrow> bool"
  for dops :: "('d, 'k) delegate_ops" and i :: nat where
  empty: "qat w i QReleasing \<Longrightarrow> \<not> qw_locked w \<Longrightarrow> queue_peek (backlog_of w) = None \<Longrightarrow>
    queue_unblock dops i w (qset i QDone w)"
| peek: "qat w i QReleasing \<Longrightarrow> \<not> qw_locked w \<Longrightarrow> queue_peek (backlog_of w) = Some e \<Longrightarrow>
    queue_unblock dops i w (qset i (QPeeked (qe_id e) (qe_ctx e)) (w\<lparr>qw_locked := True\<rparr>))"
| grant: "qat w i (QPeeked n c) \<Longrightarrow> lim_Acquire dops (qw_now w) c (delegate_of w) = (Some k, d) \<Longrightarrow>
    queue_unblock dops i w (qset i (QGranted n k) (set_delegate d w))"
| no_grant: "qat w i (QPeeked n c) \<Longrightarrow> lim_Acquire dops (qw_now w) c (delegate_of w) = (None, d) \<Longrightarrow>
    queue_unblock dops i w (qset i QDone ((set_delegate d w)\<lparr>qw_locked := False\<rparr>))"
| evict: "qat w i (QGranted n k) \<Longrightarrow>
    queue_unblock dops i w (qset i (QOffering n k) (set_backlog (evictionFunc n (backlog_of w)) w))"
| accepted: "qat w i (QOffering n k) \<Longrightarrow> setListener n j w \<Longrightarrow>
    queue_unblock dops i w (qset i QDone (qset j (QHolding k) (w\<lparr>qw_locked := False\<rparr>)))"
| not_accepted: "qat w i (QOffering n k) \<Longrightarrow> \<forall>j. \<not> setListener n j w \<Longrightarrow>
    queue_unblock dops i w
      (qset i QDone ((set_delegate (lim_Complete dops rd Ignored k (delegate_of w)) w)\<lparr>qw_locked := False\<rparr>))"

inductive queue_step :: "('d, 'k) delegate_ops \<Rightarrow> ('d, 'k) qworld \<Rightarrow> ('d, 'k) qworld \<Rightarrow> bool"
  for dops :: "('d, 'k) delegate_ops" where
  arrive: "queue_step dops w (w\<lparr>qw_gs := qw_gs w @ [QTrying c]\<rparr>)"
| tick: "qw_now w \<le> t \<Longrightarrow> queue_step dops w (w\<lparr>qw_now := t\<rparr>)"
| cancel: "queue_step dops w (w\<lparr>qw_cancelled := insert i (qw_cancelled w)\<rparr>)"
| tryAcquire: "queue_tryAcquire dops i w w' \<Longrightarrow> queue_step dops w w'"
| complete: "qat w i (QHolding k) \<Longrightarrow>
    queue_step dops w (qset i QReleasing (set_delegate (lim_Complete dops rd oc k (delegate_of w)) w))"
| unblock: "queue_unblock dops i w w' \<Longrightarrow> queue_step dops w w'"

inductive queue_reach :: "('d, 'k) delegate_ops \<Rightarrow> 'd queue_limiter \<Rightarrow> ('d, 'k) qworld \<Rightarrow> bool"
  for dops :: "('d, 'k) delegate_ops" and l0 :: "'d queue_limiter" where
  start: "queue_reach dops l0 \<lparr>qw_limiter = l0, qw_locked = False, qw_now = now, qw_cancelled = {}, qw_gs = []\<rparr>"
| step: "queue_reach dops l0 w \<Longrightarrow> queue_step dops w w' \<Longrightarrow> queue_reach dops l0 w'"

text \<open>
  The listener that \<open>Acquire\<close> returns, with the limiter implicit. Each of its methods completes the
  delegate's listener and then runs \<open>unblock\<close>: the relations say how the goroutine's own steps change the
  world when no other goroutine runs in between.
\<close>

record 'k queue_listener =
  qk_delegateListener :: 'k

definition queue_Acquire :: "'k option \<Rightarrow> 'k queue_listener option" where
  "queue_Acquire delegateListener =
     (case delegateListener of None \<Rightarrow> None | Some k \<Rightarrow> Some \<lparr>qk_delegateListener = k\<rparr>)"

definition unblocked :: "('d, 'k) delegate_ops \<Rightarrow> nat \<Rightarrow> ('d, 'k) qworld \<Rightarrow> ('d, 'k) qworld \<Rightarrow> bool" where
  "unblocked dops i w w' \<longleftrightarrow> (queue_unblock dops i)\<^sup>*\<^sup>* (qset i QReleasing w) w' \<and> qat w' i QDone"

definition queue_OnDropped :: "('d, 'k) delegate_ops \<Rightarrow> rand \<Rightarrow> nat \<Rightarrow> 'k queue_listener \<Rightarrow> ('d, 'k) qworld \<Rightarrow> ('d, 'k) qworld \<Rightarrow> bool" where
  "queue_OnDropped dops rd i ls w =
     unblocked dops i (set_delegate (lim_Complete dops rd WasDropped (qk_delegateListener ls) (delegate_of w)) w)"

definition queue_OnIgnore :: "('d, 'k) delegate_ops \<Rightarrow> rand \<Rightarrow> nat \<Rightarrow> 'k queue_listener \<Rightarrow> ('d, 'k) qworld \<Rightarrow> ('d, 'k) qworld \<Rightarrow> bool" where
  "queue_OnIgnore dops rd i ls w =
     unblocked dops i (set_delegate (lim_Complete dops rd Ignored (qk_delegateListener ls) (delegate_of w)) w)"

definition queue_OnSuccess :: "('d, 'k) delegate_ops \<Rightarrow> rand \<Rightarrow> nat \<Rightarrow> 'k queue_listener \<Rightarrow> ('d, 'k) qworld \<Rightarrow> ('d, 'k) qworld \<Rightarrow> bool" where
  "queue_OnSuccess dops rd i ls w =
     unblocked dops i (set_delegate (lim_Complete dops rd Succeeded (qk_delegateListener ls) (delegate_of w)) w)"

lemmas queue_listener_methods = queue_OnDropped_def queue_OnIgnore_def queue_OnSuccess_def

text \<open>With the lock free, \<open>unblock\<close> runs to its end and frees the lock again: the send to a caller does not block.\<close>

lemma unblocked_total:
  assumes "i < length (qw_gs w)" and "\<not> qw_locked w"
  obtains w' where "unblocked dops i w w'" and "\<not> qw_locked w'" and "length (qw_gs w') = length (qw_gs w)"
proof -
  let ?U = "queue_unblock dops i" and ?w = "qset i QReleasing w"
  note one = converse_rtranclp_into_rtranclp [where r = ?U]
  have rel: "qat ?w i QReleasing" "\<not> qw_locked ?w" using assms by (simp_all add: qset_def qat_def)
  show thesis
  proof (cases "queue_peek (backlog_of ?w)")
    case None
    then have "?U ?w (qset i QDone ?w)" by (rule queue_unblock.empty [OF rel])
    then show thesis using assms by (intro that [of "qset i QDone ?w"])
      (auto simp: unblocked_def qset_def qat_def intro: one)
  next
    case (Some e)
    let ?p = "qset i (QPeeked (qe_id e) (qe_ctx e)) (?w\<lparr>qw_locked := True\<rparr>)"
    have p: "?U ?w ?p" by (rule queue_unblock.peek [OF rel Some])
    have at_p: "qat ?p i (QPeeked (qe_id e) (qe_ctx e))" using assms by (simp add: qset_def qat_def)
    obtain found d where acq: "lim_Acquire dops (qw_now ?p) (qe_ctx e) (delegate_of ?p) = (found, d)" by fastforce
    show thesis
    proof (cases found)
      case None
      let ?n = "qset i QDone ((set_delegate d ?p)\<lparr>qw_locked := False\<rparr>)"
      have "?U ?p ?n" using acq None by (intro queue_unblock.no_grant [OF at_p]) simp
      then show thesis using assms p by (intro that [of ?n])
        (auto simp: unblocked_def qset_def qat_def set_delegate_def intro: one)
    next
      case (Some k)
      let ?g = "qset i (QGranted (qe_id e) k) (set_delegate d ?p)"
      let ?o = "qset i (QOffering (qe_id e) k) (set_backlog (evictionFunc (qe_id e) (backlog_of ?g)) ?g)"
      have g: "?U ?p ?g" using acq Some by (intro queue_unblock.grant [OF at_p]) simp
      have o: "?U ?g ?o" using assms by (intro queue_unblock.evict) (simp add: qset_def qat_def set_delegate_def)
      have at_o: "qat ?o i (QOffering (qe_id e) k)"
        using assms by (simp add: qset_def qat_def set_delegate_def set_backlog_def)
      have "\<exists>w'. ?U ?o w' \<and> qat w' i QDone \<and> \<not> qw_locked w' \<and> length (qw_gs w') = length (qw_gs ?o)"
      proof (cases "\<exists>j. setListener (qe_id e) j ?o")
        case True
        then obtain j where "setListener (qe_id e) j ?o" ..
        from queue_unblock.accepted [OF at_o this] at_o show ?thesis
          by (intro exI conjI) (assumption, simp_all add: qset_def qat_def)
      next
        case False
        then show ?thesis using queue_unblock.not_accepted [OF at_o] at_o
          by (intro exI conjI) (blast, simp_all add: qset_def qat_def set_delegate_def)
      qed
      then obtain w' where w': "?U ?o w'" "qat w' i QDone" "\<not> qw_locked w'" "length (qw_gs w') = length (qw_gs ?o)" by blast
      then have "unblocked dops i w w'" using p g o unfolding unblocked_def by (blast intro: one)
      then show thesis using w' by (intro that [of w']) (simp_all add: qset_def set_delegate_def set_backlog_def)
    qed
  qed
qed

text \<open>The methods of the returned listener are runs of the concurrent model, and each of them ends.\<close>

lemma queue_listener_runs:
  assumes "qat w i (QHolding k)" and "\<not> qw_locked w" and "queue_Acquire (Some k) = Some ls"
    and "m \<in> {queue_OnDropped dops rd i ls w, queue_OnIgnore dops rd i ls w, queue_OnSuccess dops rd i ls w}"
  shows "(\<exists>w'. m w' \<and> \<not> qw_locked w') \<and> (\<forall>w'. m w' \<longrightarrow> (queue_step dops)\<^sup>*\<^sup>* w w')"
proof -
  obtain oc where m: "m = unblocked dops i (set_delegate (lim_Complete dops rd oc k (delegate_of w)) w)"
    using assms(3,4) by (auto simp: queue_Acquire_def queue_listener_methods)
  have len: "i < length (qw_gs (set_delegate (lim_Complete dops rd oc k (delegate_of w)) w))"
    "\<not> qw_locked (set_delegate (lim_Complete dops rd oc k (delegate_of w)) w)"
    using assms(1,2) by (simp_all add: qat_def set_delegate_def)
  have first: "queue_step dops w (qset i QReleasing (set_delegate (lim_Complete dops rd oc k (delegate_of w)) w))"
    by (rule queue_step.complete [OF assms(1)])
  have "(queue_step dops)\<^sup>*\<^sup>* w w'" if "m w'" for w'
  proof -
    have "(queue_step dops)\<^sup>*\<^sup>* (qset i QReleasing (set_delegate (lim_Complete dops rd oc k (delegate_of w)) w)) w'"
      using that unfolding m unblocked_def by (auto elim: rtranclp_mono [THEN predicate2D, rotated] intro: queue_step.unblock)
    with first show ?thesis by (rule converse_rtranclp_into_rtranclp)
  qed
  then show ?thesis using unblocked_total [OF len] unfolding m by metis
qed

section \<open>The order of the backlog\<close>

text \<open>The list is in the order of the pushes, the newest element first.\<close>

definition queue_inv :: "queue \<Rightarrow> bool" where
  "queue_inv q \<longleftrightarrow> sorted_wrt (\<lambda>x y. qe_id y < qe_id x) (q_list q) \<and> (\<forall>e\<in>set (q_list q). qe_id e < q_fresh q)"

lemma queue_inv_distinct: "queue_inv q \<Longrightarrow> distinct (map qe_id (q_list q))"
proof -
  have "sorted_wrt (\<lambda>x y. qe_id y < qe_id x) es \<Longrightarrow> distinct (map qe_id es)" for es by (induction es) auto
  then show "queue_inv q \<Longrightarrow> distinct (map qe_id (q_list q))" unfolding queue_inv_def by blast
qed

definition queue_ctxs :: "queue \<Rightarrow> ctx list" where
  "queue_ctxs q = map qe_ctx (q_list q)"

fun push_all :: "ctx list \<Rightarrow> queue \<Rightarrow> queue" where
  "push_all [] q = q"
| "push_all (c # cs) q = push_all cs (snd (queue_push c q))"

fun pop_all :: "nat \<Rightarrow> queue \<Rightarrow> ctx list" where
  "pop_all 0 q = []"
| "pop_all (Suc n) q = (case queue_pop q of (None, q') \<Rightarrow> [] | (Some e, q') \<Rightarrow> qe_ctx e # pop_all n q')"

lemma queue_inv_push:
  "queue_inv q \<Longrightarrow> queue_inv (snd (queue_push c q))"
  by (auto simp: queue_inv_def queue_push_def)

lemma push_all_ctxs:
  assumes "queue_inv q"
  shows "queue_inv (push_all cs q) \<and> queue_ctxs (push_all cs q) = rev cs @ queue_ctxs q
    \<and> q_ordering (push_all cs q) = q_ordering q"
  using assms
proof (induction cs arbitrary: q)
  case (Cons c cs)
  then show ?case using queue_inv_push [OF Cons.prems, of c] by (simp add: queue_ctxs_def queue_push_def)
qed simp

lemma queue_inv_evict: "queue_inv q \<Longrightarrow> queue_inv (evictionFunc e q)"
  by (auto simp: queue_inv_def evictionFunc_def sorted_wrt_filter)

text \<open>
  A discipline: the ordering tag, and the order in which the elements of the list are served. The
  element at the head of that order is the one the queue shows, and an eviction keeps the order of the others.
\<close>

locale discipline =
  fixes ordering :: string and served :: "queue_element list \<Rightarrow> queue_element list"
  assumes shown: "q_ordering q = ordering \<Longrightarrow>
      queue_peek q = (case served (q_list q) of [] \<Rightarrow> None | e # es \<Rightarrow> Some e)"
    and kept: "served (filter P es) = filter P (served es)"
    and same_elements: "mset (served es) = mset es"
begin

lemma served_distinct: "distinct (map qe_id es) \<Longrightarrow> distinct (map qe_id (served es))"
  by (metis mset_map same_elements mset_eq_imp_distinct_iff)

lemma pop_served:
  assumes "queue_inv q" and "q_ordering q = ordering" and "served (q_list q) = e # es"
  shows "queue_pop q = (Some e, evictionFunc (qe_id e) q)" and "served (q_list (evictionFunc (qe_id e) q)) = es"
proof -
  show "queue_pop q = (Some e, evictionFunc (qe_id e) q)" using shown [OF assms(2)] assms(3) by (simp add: queue_pop_def)
  have "distinct (map qe_id (e # es))" using served_distinct [OF queue_inv_distinct [OF assms(1)]] assms(3) by simp
  then have "filter (\<lambda>x. qe_id x \<noteq> qe_id e) (e # es) = es" by (auto simp: filter_id_conv) (metis image_eqI)
  then show "served (q_list (evictionFunc (qe_id e) q)) = es" using assms(3) by (simp add: evictionFunc_def kept)
qed

lemma pop_all_served:
  assumes "queue_inv q" and "q_ordering q = ordering" and "n = length (q_list q)"
  shows "pop_all n q = map qe_ctx (served (q_list q))"
  using assms
proof (induction n arbitrary: q)
  case 0
  then show ?case using same_elements [of "[]"] by simp
next
  case (Suc n)
  have "length (served (q_list q)) = Suc n" using Suc.prems(3) same_elements [of "q_list q"] by (metis size_mset)
  then obtain e es where es: "served (q_list q) = e # es" by (cases "served (q_list q)") auto
  note pop = pop_served [OF Suc.prems(1,2) es]
  have "n = length (q_list (evictionFunc (qe_id e) q))"
    using pop(2) es Suc.prems(3) same_elements [of "q_list q"] same_elements [of "q_list (evictionFunc (qe_id e) q)"]
    by (metis Suc_inject length_Cons size_mset)
  then have "pop_all n (evictionFunc (qe_id e) q) = map qe_ctx es"
    using Suc.IH [of "evictionFunc (qe_id e) q"] Suc.prems(1,2) queue_inv_evict pop(2) by (simp add: evictionFunc_def)
  then show ?case using pop(1) es by simp
qed

end

interpretation fifo: discipline OrderingFIFO rev
  by unfold_locales (auto simp: queue_peek_def rev_filter hd_rev [symmetric] split: list.splits)

interpretation lifo: discipline OrderingLIFO "\<lambda>es. es"
  by unfold_locales (auto simp: queue_peek_def OrderingFIFO_def OrderingLIFO_def split: list.splits)

text \<open>C18: The order of the backlog: callers pushed one after the other are popped in the order of their
  arrival when the ordering is FIFO, in the opposite order when it is LIFO, and never when the ordering
  is any other string.\<close>

theorem queue_pop_order:
  assumes "q = \<lparr>q_list = [], q_ordering = ord, q_fresh = n\<rparr>"
  shows "pop_all (length cs) (push_all cs q)
    = (if ord = OrderingFIFO then cs else if ord = OrderingLIFO then rev cs else [])"
proof -
  have inv: "queue_inv q" using assms by (simp add: queue_inv_def)
  note all = push_all_ctxs [OF inv, of cs]
  have len: "length cs = length (q_list (push_all cs q))"
    using all assms by (metis queue_ctxs_def append_Nil2 length_map length_rev list.simps(8) queue.select_convs(1))
  consider "ord = OrderingFIFO" | "ord = OrderingLIFO" | "ord \<noteq> OrderingFIFO" "ord \<noteq> OrderingLIFO" by blast
  then show ?thesis
  proof cases
    case 1
    then show ?thesis using fifo.pop_all_served [of "push_all cs q"] all len assms by (simp add: queue_ctxs_def rev_map [symmetric])
  next
    case 2
    then have "ord \<noteq> OrderingFIFO" by (simp add: OrderingFIFO_def OrderingLIFO_def)
    then show ?thesis using 2 lifo.pop_all_served [of "push_all cs q"] all len assms by (simp add: queue_ctxs_def)
  next
    case 3
    then show ?thesis using all assms by (cases "length cs") (simp_all add: queue_pop_def queue_peek_def)
  qed
qed

theorem queue_pop_order_witness:
  "pop_all (length [[], [(OtherKey 0, OtherValue 1)]])
     (push_all [[], [(OtherKey 0, OtherValue 1)]] \<lparr>q_list = [], q_ordering = ''fifo'', q_fresh = 0\<rparr>)
     = [[], [(OtherKey 0, OtherValue 1)]]"
  using queue_pop_order [OF refl, of "[[], [(OtherKey 0, OtherValue 1)]]" "''fifo''" 0] unfolding OrderingFIFO_def
  by (simp only: refl if_True)

section \<open>Accounting\<close>

lemma qworld_simps [simp]:
  "qw_limiter (qset i g w) = qw_limiter w" "qw_now (qset i g w) = qw_now w" "qw_locked (qset i g w) = qw_locked w"
  "qw_cancelled (qset i g w) = qw_cancelled w" "qw_gs (qset i g w) = (qw_gs w)[i := g]"
  "qw_limiter (set_delegate d w) = (qw_limiter w)\<lparr>ql_delegate := d\<rparr>" "qw_gs (set_delegate d w) = qw_gs w"
  "qw_limiter (set_backlog q w) = (qw_limiter w)\<lparr>ql_backlog := q\<rparr>" "qw_gs (set_backlog q w) = qw_gs w"
  by (simp_all add: qset_def set_delegate_def set_backlog_def)

lemma qatD: "qat w i g \<Longrightarrow> i < length (qw_gs w)" "qat w i g \<Longrightarrow> qw_gs w ! i = g"
  by (simp_all add: qat_def)

fun qholds :: "'k qgoroutine \<Rightarrow> 'k option" where
  "qholds (QHolding k) = Some k"
| "qholds (QGranted n k) = Some k"
| "qholds (QOffering n k) = Some k"
| "qholds _ = None"

definition listener_count_of :: "('d, 'k) qworld \<Rightarrow> int" where
  "listener_count_of w = int (length (filter (\<lambda>g. qholds g \<noteq> None) (qw_gs w)))"

lemma queue_callers_tryAcquire:
  assumes "queue_tryAcquire (default_delegate lops sops) i w w'" and "length (qw_gs w) < 2 ^ 31"
    and "callers_reach lops sops l0 qholds (delegate_of w) (qw_gs w)"
  shows "callers_reach lops sops l0 qholds (delegate_of w') (qw_gs w')"
  using assms
proof (induction rule: queue_tryAcquire.induct)
  case (acquired w c k d)
  then show ?case using callers_reach_granted [OF acquired.prems(2) _ _ acquired.prems(1) acquired.hyps(2), of i "QHolding k"]
    by (simp add: qatD)
next
  case (refused w c d)
  then show ?case using callers_reach_refused [OF refused.prems(2) refused.hyps(2)]
    by (simp add: qatD callers_reach_same)
qed (auto simp: qatD callers_reach_same)

lemma queue_callers_unblock:
  assumes "queue_unblock (default_delegate lops sops) i w w'" and "length (qw_gs w) < 2 ^ 31"
    and "callers_reach lops sops l0 qholds (delegate_of w) (qw_gs w)"
  shows "callers_reach lops sops l0 qholds (delegate_of w') (qw_gs w')"
  using assms
proof (induction rule: queue_unblock.induct)
  case (grant w n c k d)
  then show ?case using callers_reach_granted [OF grant.prems(2) _ _ grant.prems(1) grant.hyps(2), of i "QGranted n k"]
    by (simp add: qatD)
next
  case (no_grant w n c d)
  then show ?case using callers_reach_refused [OF no_grant.prems(2) no_grant.hyps(2)]
    by (simp add: qatD callers_reach_same)
next
  case (accepted w n k j)
  then obtain c s where j: "qat w j (QWaiting c n s)" by (auto simp: setListener_def)
  then show ?case
    using callers_reach_handover [OF accepted.prems(2), of i j k QDone "QHolding k"] accepted.hyps(1) by (simp add: qatD)
next
  case (not_accepted w n k rd)
  then show ?case using callers_reach_complete [OF not_accepted.prems(2), of i k QDone rd Ignored] by (simp add: qatD)
qed (auto simp: qatD callers_reach_same)

lemma queue_step_length: "queue_step dops w w' \<Longrightarrow> length (qw_gs w) \<le> length (qw_gs w')"
  by (auto elim!: queue_step.cases queue_tryAcquire.cases queue_unblock.cases)

lemma queue_callers:
  assumes "queue_reach (default_delegate lops sops) l0 w" and "length (qw_gs w) < 2 ^ 31"
  shows "callers_reach lops sops (ql_delegate l0) qholds (delegate_of w) (qw_gs w)"
  using assms
proof induction
  case (start now)
  then show ?case by (simp add: callers_reach_start)
next
  case (step w w')
  then have len: "length (qw_gs w) < 2 ^ 31" using queue_step_length by fastforce
  with step have IH: "callers_reach lops sops (ql_delegate l0) qholds (delegate_of w) (qw_gs w)" by blast
  from step.hyps(2) show ?case
  proof cases
    case (arrive c)
    then show ?thesis using IH by (simp add: callers_reach_arrive)
  next
    case (complete i k rd oc)
    then show ?thesis using callers_reach_complete [OF IH, of i k QReleasing rd oc] by (simp add: qatD)
  qed (use IH len queue_callers_tryAcquire queue_callers_unblock in auto)
qed

text \<open>C14: A queue limiter keeps the accounts of the default limiter under it: over the precise strategy
  and any limit algorithm, however callers, timeouts and releases interleave (fewer than \<open>2 ^ 31\<close>
  callers), the limiter's and the strategy's counters are the number of goroutines that are responsible
  for a listener: callers that have one, and releasers that acquired one for a caller in the
  backlog and have not passed it on yet. A listener the caller does not take any more is returned.\<close>

theorem queue_accounting:
  assumes "NewDefaultLimiter lops precise_ops now (Some lmt) minW maxW thr ws (Some (NewPreciseStrategy n)) lg reg = Inr l0"
    and "queue_reach (default_delegate lops precise_ops) (fst (NewQueueBlockingLimiterFromConfig l0 cfg)) w"
    and "length (qw_gs w) < 2 ^ 31"
  shows "dl_inFlight (delegate_of w) = listener_count_of w
    \<and> precise_GetBusyCount (dl_strategy (delegate_of w)) = listener_count_of w"
proof -
  have "ql_delegate (fst (NewQueueBlockingLimiterFromConfig l0 cfg)) = l0"
    by (simp add: NewQueueBlockingLimiterFromConfig_def Let_def)
  then show ?thesis using callers_reach_accounts [OF assms(1), of qholds] queue_callers [OF assms(2,3)]
    by (simp add: listener_count_of_def)
qed

theorem queue_accounting_witness:
  "\<exists>w. queue_reach (default_delegate fixed_ops precise_ops) (fst (NewQueueBlockingLimiterFromConfig fixed_limiter empty_config)) w
     \<and> qw_gs w = [QTrying []] \<and> dl_inFlight (delegate_of w) = 0"
proof -
  let ?D = "default_delegate fixed_ops precise_ops" and ?l = "fst (NewQueueBlockingLimiterFromConfig fixed_limiter empty_config)"
  let ?w = "\<lparr>qw_limiter = ?l, qw_locked = False, qw_now = 0, qw_cancelled = {}, qw_gs = [QTrying []]\<rparr>"
  have w: "queue_reach ?D ?l ?w"
    using queue_reach.step [OF queue_reach.start queue_step.arrive [of _ _ "[]"], of ?D ?l 0] by simp
  from queue_accounting [OF fixed_limiter_new w] w show ?thesis
    by (intro exI [of _ ?w]) (simp add: listener_count_of_def)
qed

section \<open>The backlog and the callers\<close>

text \<open>The element a caller has pushed, and the element a releaser works for.\<close>

fun waits_for :: "'k qgoroutine \<Rightarrow> nat option" where
  "waits_for (QPushed c n) = Some n"
| "waits_for (QWaiting c n s) = Some n"
| "waits_for (QLeaving n) = Some n"
| "waits_for _ = None"

fun works_for :: "'k qgoroutine \<Rightarrow> nat option" where
  "works_for (QPeeked n c) = Some n"
| "works_for (QGranted n k) = Some n"
| "works_for (QOffering n k) = Some n"
| "works_for _ = None"

definition owners :: "nat \<Rightarrow> 'k qgoroutine list \<Rightarrow> nat" where
  "owners n gs = length (filter (\<lambda>g. waits_for g = Some n) gs)"

definition element_ids :: "queue \<Rightarrow> nat set" where
  "element_ids q = qe_id ` set (q_list q)"

text \<open>
  The backlog is within its capacity, each of its elements has exactly one caller, no two callers
  share an element, elements are never reused, and an element being offered is out of the backlog.
\<close>

definition backlog_ok :: "queue \<Rightarrow> int \<Rightarrow> 'k qgoroutine list \<Rightarrow> bool" where
  "backlog_ok q mx gs \<longleftrightarrow> queue_inv q \<and> queue_len q \<le> mx
   \<and> (\<forall>n\<in>element_ids q. owners n gs = 1)
   \<and> (\<forall>n. owners n gs \<le> 1 \<and> (0 < owners n gs \<longrightarrow> n < q_fresh q))
   \<and> (\<forall>g\<in>set gs. \<forall>n. works_for g = Some n \<longrightarrow> n < q_fresh q)
   \<and> (\<forall>g\<in>set gs. \<forall>n k. g = QOffering n k \<longrightarrow> n \<notin> element_ids q)"

lemma owners_update:
  "i < length gs \<Longrightarrow> owners n (gs[i := g]) + of_bool (waits_for (gs ! i) = Some n) = owners n gs + of_bool (waits_for g = Some n)"
  using length_filter_update [of i gs "\<lambda>g. waits_for g = Some n" g] by (simp add: owners_def of_bool_def)

lemma owners_pos: "i < length gs \<Longrightarrow> waits_for (gs ! i) = Some n \<Longrightarrow> 0 < owners n gs"
  unfolding owners_def using nth_mem [of i gs] by (fastforce simp: filter_empty_conv)

lemma in_list_update: "x \<in> set (gs[i := g]) \<Longrightarrow> x = g \<or> x \<in> set gs"
  using set_update_subset_insert [of gs i g] by blast

lemma backlog_ok_move:
  assumes "backlog_ok q mx gs" and "i < length gs" and "waits_for g = waits_for (gs ! i)"
    and "\<And>n. works_for g = Some n \<Longrightarrow> n < q_fresh q" and "\<And>n k. g = QOffering n k \<Longrightarrow> n \<notin> element_ids q"
  shows "backlog_ok q mx (gs[i := g])"
proof -
  have "owners n (gs[i := g]) = owners n gs" for n using owners_update [OF assms(2), of n g] assms(3) by simp
  then show ?thesis using assms(1,4,5) in_list_update [of _ gs i g] unfolding backlog_ok_def by metis
qed

lemma backlog_ok_leave:
  assumes "backlog_ok q mx gs" and "i < length gs" and "waits_for g = None" and "works_for g = None"
    and "\<And>n. waits_for (gs ! i) = Some n \<Longrightarrow> n \<notin> element_ids q"
  shows "backlog_ok q mx (gs[i := g])"
proof -
  have eq: "owners n (gs[i := g]) = owners n gs" if "waits_for (gs ! i) \<noteq> Some n" for n
    using owners_update [OF assms(2), of n g] assms(3) that by simp
  have le: "owners n (gs[i := g]) \<le> owners n gs" for n
    using owners_update [OF assms(2), of n g] assms(3) by (simp add: of_bool_def split: if_splits)
  have "g \<noteq> QOffering n k" for n k using assms(4) by auto
  then have works: "(\<forall>x\<in>set (gs[i := g]). \<forall>n. works_for x = Some n \<longrightarrow> n < q_fresh q)
      \<and> (\<forall>x\<in>set (gs[i := g]). \<forall>n k. x = QOffering n k \<longrightarrow> n \<notin> element_ids q)"
    using assms(1,4) in_list_update [of _ gs i g] unfolding backlog_ok_def by (metis option.distinct(1))
  have "\<forall>n\<in>element_ids q. owners n (gs[i := g]) = 1"
    using assms(1,5) eq unfolding backlog_ok_def by metis
  moreover have "owners n (gs[i := g]) \<le> 1 \<and> (0 < owners n (gs[i := g]) \<longrightarrow> n < q_fresh q)" for n
    using assms(1) le [of n] unfolding backlog_ok_def by (meson le_trans less_le_trans)
  ultimately show ?thesis using assms(1) works unfolding backlog_ok_def by blast
qed

lemma evict_elements: "element_ids (evictionFunc n q) = element_ids q - {n}" "q_fresh (evictionFunc n q) = q_fresh q"
  by (auto simp: element_ids_def evictionFunc_def)

lemma backlog_ok_evict: "backlog_ok q mx gs \<Longrightarrow> backlog_ok (evictionFunc n q) mx gs"
proof -
  assume ok: "backlog_ok q mx gs"
  have "queue_len (evictionFunc n q) \<le> queue_len q" by (simp add: queue_len_def evictionFunc_def)
  then show ?thesis using ok queue_inv_evict [of q n] by (auto simp: backlog_ok_def evict_elements)
qed

lemma backlog_ok_push:
  assumes "backlog_ok q mx gs" and "i < length gs" and "waits_for (gs ! i) = None" and "pushWithCapacity c mx q = Inr (n, q')"
  shows "backlog_ok q' mx (gs[i := QPushed c n])"
proof -
  have n: "n = q_fresh q" and q': "q' = snd (queue_push c q)" and len: "queue_len q' \<le> mx"
    using assms(4) by (auto simp: pushWithCapacity_def queue_push_def queue_len_def split: if_splits)
  have ids: "element_ids q' = insert n (element_ids q)" and fresh: "q_fresh q' = Suc n"
    by (auto simp: q' n queue_push_def element_ids_def)
  have old: "owners n gs = 0" using assms(1) n unfolding backlog_ok_def by (metis less_irrefl neq0_conv)
  have own: "owners m (gs[i := QPushed c n]) = (if m = n then 1 else owners m gs)" for m
    using owners_update [OF assms(2), of m "QPushed c n"] assms(3) old by (auto simp: of_bool_def split: if_splits)
  have "\<forall>m\<in>element_ids q'. owners m (gs[i := QPushed c n]) = 1"
    using assms(1) by (auto simp: ids own backlog_ok_def)
  moreover have "owners m (gs[i := QPushed c n]) \<le> 1 \<and> (0 < owners m (gs[i := QPushed c n]) \<longrightarrow> m < q_fresh q')" for m
    using assms(1) n unfolding backlog_ok_def own fresh by (auto intro: less_SucI)
  moreover have "\<forall>g\<in>set (gs[i := QPushed c n]). \<forall>m. works_for g = Some m \<longrightarrow> m < q_fresh q \<and> m < q_fresh q'"
    using assms(1) in_list_update [of _ gs i "QPushed c n"] unfolding backlog_ok_def fresh n
    by (metis less_SucI option.distinct(1) works_for.simps(6))
  moreover have "\<forall>g\<in>set (gs[i := QPushed c n]). \<forall>m k. g = QOffering m k \<longrightarrow> m \<notin> element_ids q"
    using assms(1) in_list_update [of _ gs i "QPushed c n"] unfolding backlog_ok_def by blast
  ultimately show ?thesis using queue_inv_push [of q c] assms(1) len unfolding backlog_ok_def q' [symmetric] ids n
    by (metis insert_iff less_irrefl works_for.simps(3))
qed

lemma backlog_ok_tryAcquire:
  assumes "queue_tryAcquire dops i w w'" and "backlog_ok (backlog_of w) (ql_maxBacklogSize (qw_limiter w)) (qw_gs w)"
  shows "backlog_ok (backlog_of w') (ql_maxBacklogSize (qw_limiter w')) (qw_gs w')"
  using assms
proof (induction rule: queue_tryAcquire.induct)
  case (push w c n q)
  then show ?case using backlog_ok_push [OF push.prems] by (simp add: qatD)
next
  case (evict w n)
  then show ?case using backlog_ok_leave [OF backlog_ok_evict [OF evict.prems, of n], of i QRefused]
    by (simp add: qatD evict_elements)
qed (auto simp: qatD intro: backlog_ok_move)

lemma backlog_ok_works:
  "backlog_ok q mx gs \<Longrightarrow> i < length gs \<Longrightarrow> works_for (gs ! i) = Some n \<Longrightarrow> n < q_fresh q"
  unfolding backlog_ok_def by (meson nth_mem)

lemma peek_element: "queue_peek q = Some e \<Longrightarrow> e \<in> set (q_list q)"
  by (auto simp: queue_peek_def split: if_splits)

lemma backlog_ok_unblock:
  assumes "queue_unblock dops i w w'" and "backlog_ok (backlog_of w) (ql_maxBacklogSize (qw_limiter w)) (qw_gs w)"
  shows "backlog_ok (backlog_of w') (ql_maxBacklogSize (qw_limiter w')) (qw_gs w')"
  using assms
proof (induction rule: queue_unblock.induct)
  case (peek w e)
  have "qe_id e < q_fresh (backlog_of w)"
    using peek_element [OF peek.hyps(3)] peek.prems by (simp add: backlog_ok_def queue_inv_def)
  then show ?case using backlog_ok_move [OF peek.prems, of i "QPeeked (qe_id e) (qe_ctx e)"] peek.hyps(1) by (simp add: qatD)
next
  case (grant w n c k d)
  then show ?case using backlog_ok_move [OF grant.prems, of i "QGranted n k"] backlog_ok_works [OF grant.prems, of i n]
    by (simp add: qatD)
next
  case (evict w n k)
  then show ?case using backlog_ok_move [OF backlog_ok_evict [OF evict.prems, of n], of i "QOffering n k"]
      backlog_ok_works [OF evict.prems, of i n] by (simp add: qatD evict_elements)
next
  case (accepted w n k j)
  then obtain c s where j: "qat w j (QWaiting c n s)" by (auto simp: setListener_def)
  have "n \<notin> element_ids (backlog_of w)"
    using accepted.prems accepted.hyps(1) nth_mem [of i "qw_gs w"] by (auto simp: backlog_ok_def qat_def)
  then have "backlog_ok (backlog_of w) (ql_maxBacklogSize (qw_limiter w)) ((qw_gs w)[j := QHolding k])"
    using backlog_ok_leave [OF accepted.prems, of j "QHolding k"] j by (simp add: qatD)
  moreover have "i \<noteq> j" using j accepted.hyps(1) by (auto simp: qat_def)
  ultimately show ?case using backlog_ok_move [of _ _ "(qw_gs w)[j := QHolding k]" i QDone] accepted.hyps(1)
    by (simp add: qatD)
qed (auto simp: qatD intro: backlog_ok_move)

lemma backlog_ok_step:
  assumes "queue_step dops w w'" and "backlog_ok (backlog_of w) (ql_maxBacklogSize (qw_limiter w)) (qw_gs w)"
  shows "backlog_ok (backlog_of w') (ql_maxBacklogSize (qw_limiter w')) (qw_gs w')"
  using assms(1)
proof cases
  case (arrive c)
  then show ?thesis using assms(2) by (auto simp: backlog_ok_def owners_def)
next
  case (complete i k rd oc)
  then show ?thesis using backlog_ok_move [OF assms(2), of i QReleasing] by (simp add: qatD)
qed (use assms(2) backlog_ok_tryAcquire backlog_ok_unblock in auto)

lemma backlog_ok_reach:
  assumes "queue_reach dops l0 w" and "backlog_ok (ql_backlog l0) (ql_maxBacklogSize l0) ([] :: 'k qgoroutine list)"
  shows "backlog_ok (backlog_of (w :: ('d, 'k) qworld)) (ql_maxBacklogSize (qw_limiter w)) (qw_gs w)"
  using assms(1)
proof induction
  case (start now)
  then show ?case using assms(2) by simp
next
  case (step w w')
  then show ?case by (blast intro: backlog_ok_step)
qed

lemma queue_config_step:
  "queue_step dops w w' \<Longrightarrow> ql_maxBacklogSize (qw_limiter w') = ql_maxBacklogSize (qw_limiter w)
    \<and> ql_maxBacklogTimeout (qw_limiter w') = ql_maxBacklogTimeout (qw_limiter w)
    \<and> ql_backlogEvictDoneCtx (qw_limiter w') = ql_backlogEvictDoneCtx (qw_limiter w)"
  by (auto elim!: queue_step.cases queue_tryAcquire.cases queue_unblock.cases)

lemma queue_max: "queue_reach dops l0 w \<Longrightarrow> ql_maxBacklogSize (qw_limiter w) = ql_maxBacklogSize l0"
  by (induction rule: queue_reach.induct) (simp_all add: queue_config_step)

lemma owners_unique:
  assumes "owners n gs = 1" shows "\<exists>!i. i < length gs \<and> waits_for (gs ! i) = Some n"
proof -
  have "card {i. i < length gs \<and> waits_for (gs ! i) = Some n} = 1"
    using assms by (simp add: owners_def length_filter_conv_card)
  then obtain i where "{i. i < length gs \<and> waits_for (gs ! i) = Some n} = {i}" by (rule card_1_singletonE)
  then have "i' < length gs \<and> waits_for (gs ! i') = Some n \<longleftrightarrow> i' = i" for i' by (simp add: set_eq_iff)
  then show ?thesis by simp
qed

lemma new_backlog_ok:
  assumes "qc_MaxBacklogSize cfg < 2 ^ 63"
  shows "backlog_ok (ql_backlog (fst (NewQueueBlockingLimiterFromConfig d cfg)))
      (ql_maxBacklogSize (fst (NewQueueBlockingLimiterFromConfig d cfg))) []"
    and "ql_maxBacklogSize (fst (NewQueueBlockingLimiterFromConfig d cfg))
      = (if qc_MaxBacklogSize cfg \<le> 0 then 100 else qc_MaxBacklogSize cfg)"
proof -
  let ?l = "fst (NewQueueBlockingLimiterFromConfig d cfg)"
  have u: "u64 x = x" if "0 \<le> x" "x < 2 ^ 63" for x using that unfolding u64_def by (intro mod_pos_pos_trivial) simp_all
  have size: "qc_MaxBacklogSize (ApplyDefaults cfg) = (if qc_MaxBacklogSize cfg \<le> 0 then 100 else qc_MaxBacklogSize cfg)"
    by (simp add: ApplyDefaults_def Let_def)
  show mx: "ql_maxBacklogSize ?l = (if qc_MaxBacklogSize cfg \<le> 0 then 100 else qc_MaxBacklogSize cfg)"
    using assms by (simp add: NewQueueBlockingLimiterFromConfig_def Let_def size u)
  have "q_list (ql_backlog ?l) = []" by (simp add: NewQueueBlockingLimiterFromConfig_def Let_def)
  then show "backlog_ok (ql_backlog ?l) (ql_maxBacklogSize ?l) []"
    unfolding backlog_ok_def mx by (simp add: queue_inv_def queue_len_def element_ids_def owners_def)
qed

text \<open>C15: The backlog is bounded and never stale: in every reachable state of a queue limiter, whatever
  its delegate, the backlog has at most the configured number of elements (100 when that is not
  positive), and each element belongs to exactly one caller that is still inside \<open>tryAcquire\<close>.\<close>

theorem queue_backlog_bounded:
  assumes "queue_reach dops (fst (NewQueueBlockingLimiterFromConfig d cfg)) w" and "qc_MaxBacklogSize cfg < 2 ^ 63"
  shows "queue_len (backlog_of w) \<le> (if qc_MaxBacklogSize cfg \<le> 0 then 100 else qc_MaxBacklogSize cfg)
    \<and> (\<forall>e\<in>set (q_list (backlog_of w)). \<exists>!i. i < length (qw_gs w) \<and> waits_for (qw_gs w ! i) = Some (qe_id e))"
proof -
  have ok: "backlog_ok (backlog_of w) (ql_maxBacklogSize (qw_limiter w)) (qw_gs w)"
    using backlog_ok_reach [OF assms(1) new_backlog_ok(1) [OF assms(2)]] .
  have "\<exists>!i. i < length (qw_gs w) \<and> waits_for (qw_gs w ! i) = Some (qe_id e)" if "e \<in> set (q_list (backlog_of w))" for e
    using ok that by (intro owners_unique) (simp add: backlog_ok_def element_ids_def)
  moreover
  have "ql_maxBacklogSize (qw_limiter w) = ql_maxBacklogSize (fst (NewQueueBlockingLimiterFromConfig d cfg))"
    using assms(1) by (rule queue_max)
  then have "queue_len (backlog_of w) \<le> (if qc_MaxBacklogSize cfg \<le> 0 then 100 else qc_MaxBacklogSize cfg)"
    using ok new_backlog_ok(2) [OF assms(2), of d] by (simp only: backlog_ok_def)
  ultimately show ?thesis by blast
qed

text \<open>A queue limiter over the limiter with one token: one caller takes it, another one queues.\<close>

lemma queue_reach_steps:
  "(queue_step dops)\<^sup>*\<^sup>* w w' \<Longrightarrow> queue_reach dops l0 w \<Longrightarrow> queue_reach dops l0 w'"
  by (induction rule: rtranclp_induct) (auto intro: queue_reach.step)

lemma one_failed:
  assumes "l0 = \<lparr>ql_delegate = one_limiter, ql_maxBacklogSize = 10, ql_maxBacklogTimeout = t, ql_backlogEvictDoneCtx = False,
      ql_backlog = \<lparr>q_list = [], q_ordering = OrderingFIFO, q_fresh = 0\<rparr>\<rparr>"
    and "lim_Acquire (default_delegate fixed_ops precise_ops) 0 [] one_limiter = (Some k, l1)"
    and "lim_Acquire (default_delegate fixed_ops precise_ops) 0 [] l1 = (None, l1)"
  shows "queue_reach (default_delegate fixed_ops precise_ops) l0
    \<lparr>qw_limiter = l0\<lparr>ql_delegate := l1\<rparr>, qw_locked = False, qw_now = 0, qw_cancelled = {}, qw_gs = [QHolding k, QFailed []]\<rparr>"
proof -
  let ?D = "default_delegate fixed_ops precise_ops"
  let ?w = "\<lambda>l gs. \<lparr>qw_limiter = l, qw_locked = False, qw_now = 0, qw_cancelled = {}, qw_gs = gs\<rparr>"
  let ?l1 = "l0\<lparr>ql_delegate := l1\<rparr>"
  have w0: "queue_reach ?D l0 (?w l0 [QTrying []])"
    using queue_reach.step [OF queue_reach.start queue_step.arrive [of _ _ "[]"], of ?D l0 0] by simp
  have w1: "queue_reach ?D l0 (?w ?l1 [QHolding k])"
    using queue_reach.step [OF w0 queue_step.tryAcquire [OF queue_tryAcquire.acquired [of _ 0 "[]" ?D k l1]]] assms(1,2)
    by (simp add: qat_def qset_def set_delegate_def)
  have w2: "queue_reach ?D l0 (?w ?l1 [QHolding k, QTrying []])"
    using queue_reach.step [OF w1 queue_step.arrive [of _ _ "[]"]] by simp
  show ?thesis
    using queue_reach.step [OF w2 queue_step.tryAcquire [OF queue_tryAcquire.refused [of _ 1 "[]" ?D l1]]] assms(1,3)
    by (simp add: qat_def qset_def set_delegate_def)
qed

lemma one_queued:
  assumes "l0 = \<lparr>ql_delegate = one_limiter, ql_maxBacklogSize = 10, ql_maxBacklogTimeout = t, ql_backlogEvictDoneCtx = False,
      ql_backlog = \<lparr>q_list = [], q_ordering = OrderingFIFO, q_fresh = 0\<rparr>\<rparr>"
    and "lim_Acquire (default_delegate fixed_ops precise_ops) 0 [] one_limiter = (Some k, l1)"
    and "lim_Acquire (default_delegate fixed_ops precise_ops) 0 [] l1 = (None, l1)"
    and "\<forall>rd. lim_Complete (default_delegate fixed_ops precise_ops) rd Ignored k l1 = one_limiter"
  shows "queue_reach (default_delegate fixed_ops precise_ops) l0
    \<lparr>qw_limiter = l0\<lparr>ql_backlog := \<lparr>q_list = [\<lparr>qe_id = 0, qe_ctx = []\<rparr>], q_ordering = OrderingFIFO, q_fresh = 1\<rparr>\<rparr>,
     qw_locked = False, qw_now = 0, qw_cancelled = {}, qw_gs = [QReleasing, QPushed [] 0]\<rparr>"
proof -
  let ?D = "default_delegate fixed_ops precise_ops"
  let ?w = "\<lambda>l gs. \<lparr>qw_limiter = l, qw_locked = False, qw_now = 0, qw_cancelled = {}, qw_gs = gs\<rparr>"
  let ?l1 = "l0\<lparr>ql_delegate := l1\<rparr>"
  let ?l2 = "?l1\<lparr>ql_backlog := \<lparr>q_list = [\<lparr>qe_id = 0, qe_ctx = []\<rparr>], q_ordering = OrderingFIFO, q_fresh = 1\<rparr>\<rparr>"
  note w3 = one_failed [OF assms(1-3)]
  have w4: "queue_reach ?D l0 (?w ?l2 [QHolding k, QPushed [] 0])"
    using queue_reach.step [OF w3 queue_step.tryAcquire [OF queue_tryAcquire.push [of _ 1 "[]" 0 "ql_backlog ?l2" ?D]]] assms(1)
    by (simp add: qat_def qset_def set_backlog_def pushWithCapacity_def queue_len_def)
  show ?thesis
    using queue_reach.step [OF w4 queue_step.complete [of _ 0 k ?D undefined Ignored]] assms(1,4)
    by (simp add: qat_def qset_def set_delegate_def)
qed

text \<open>A FIFO limiter with the timeout disabled.\<close>

lemma new_fifo:
  "fst (NewFifoBlockingLimiter d 10 (- 1)) = \<lparr>ql_delegate = d, ql_maxBacklogSize = 10, ql_maxBacklogTimeout = - 1,
     ql_backlogEvictDoneCtx = False, ql_backlog = \<lparr>q_list = [], q_ordering = OrderingFIFO, q_fresh = 0\<rparr>\<rparr>"
  by (simp add: NewFifoBlockingLimiter_def NewQueueBlockingLimiterFromConfig_def ApplyDefaults_def empty_config_def
      u64_def OrderingFIFO_def)

theorem queue_backlog_bounded_witness:
  "\<exists>w. queue_reach (default_delegate fixed_ops precise_ops) (fst (NewFifoBlockingLimiter one_limiter 10 (- 1))) w
     \<and> queue_len (backlog_of w) = 1 \<and> queue_len (backlog_of w) \<le> 10"
proof -
  let ?cfg = "empty_config\<lparr>qc_Ordering := OrderingFIFO, qc_MaxBacklogSize := 10, qc_MaxBacklogTimeout := - 1\<rparr>"
  let ?l = "fst (NewQueueBlockingLimiterFromConfig one_limiter ?cfg)"
  have l: "?l = \<lparr>ql_delegate = one_limiter, ql_maxBacklogSize = 10, ql_maxBacklogTimeout = - 1, ql_backlogEvictDoneCtx = False,
      ql_backlog = \<lparr>q_list = [], q_ordering = OrderingFIFO, q_fresh = 0\<rparr>\<rparr>"
    by (simp add: NewQueueBlockingLimiterFromConfig_def ApplyDefaults_def empty_config_def u64_def OrderingFIFO_def)
  obtain k l1 where "lim_Acquire (default_delegate fixed_ops precise_ops) 0 [] one_limiter = (Some k, l1)"
    "lim_Acquire (default_delegate fixed_ops precise_ops) 0 [] l1 = (None, l1)"
    "\<forall>rd. lim_Complete (default_delegate fixed_ops precise_ops) rd Ignored k l1 = one_limiter"
    by (rule one_limiter_cycle)
  from one_queued [OF l this] obtain w where w: "queue_reach (default_delegate fixed_ops precise_ops) ?l w"
      and len: "queue_len (backlog_of w) = 1" by (auto simp: queue_len_def)
  then show ?thesis using queue_backlog_bounded [OF w] by (auto simp: NewFifoBlockingLimiter_def)
qed

section \<open>Handing a listener over\<close>

lemma unblock_hands_over:
  assumes "qat w i QReleasing" and "\<not> qw_locked w" and "queue_peek (backlog_of w) = Some e"
    and "lim_Acquire dops (qw_now w) (qe_ctx e) (delegate_of w) = (Some k, d)" and "qat w j (QWaiting c (qe_id e) s)"
  shows "(queue_unblock dops i)\<^sup>*\<^sup>* w (w\<lparr>qw_limiter := (qw_limiter w)\<lparr>ql_delegate := d,
    ql_backlog := evictionFunc (qe_id e) (backlog_of w)\<rparr>, qw_gs := (qw_gs w)[i := QDone, j := QHolding k]\<rparr>)"
proof -
  let ?S = "queue_unblock dops i" and ?n = "qe_id e"
  have ij: "i \<noteq> j" using assms(1,5) by (auto simp: qat_def)
  let ?w1 = "qset i (QPeeked ?n (qe_ctx e)) (w\<lparr>qw_locked := True\<rparr>)"
  let ?w2 = "qset i (QGranted ?n k) (set_delegate d ?w1)"
  let ?w3 = "qset i (QOffering ?n k) (set_backlog (evictionFunc ?n (backlog_of ?w2)) ?w2)"
  let ?w4 = "qset i QDone (qset j (QHolding k) (?w3\<lparr>qw_locked := False\<rparr>))"
  have s1: "?S w ?w1" using assms(1-3) by (rule queue_unblock.peek)
  have s2: "?S ?w1 ?w2" using assms(1,4) by (intro queue_unblock.grant [of _ _ _ "qe_ctx e"]) (simp_all add: qat_def)
  have s3: "?S ?w2 ?w3" using assms(1) by (intro queue_unblock.evict) (simp add: qat_def)
  have s4: "?S ?w3 ?w4"
    using assms(1,5) ij by (intro queue_unblock.accepted [of _ _ ?n]) (auto simp: qat_def setListener_def)
  have "?w4 = w\<lparr>qw_limiter := (qw_limiter w)\<lparr>ql_delegate := d, ql_backlog := evictionFunc ?n (backlog_of w)\<rparr>,
      qw_gs := (qw_gs w)[i := QDone, j := QHolding k]\<rparr>"
    using assms(2) ij by (simp add: qset_def set_delegate_def set_backlog_def list_update_swap)
  then show ?thesis
    using s1 s2 s3 s4 by (metis (no_types, lifting) converse_rtranclp_into_rtranclp rtranclp.rtrancl_refl)
qed

text \<open>The steps of \<open>unblock\<close>, by rule inversion: what goroutine \<open>i\<close> does next.\<close>

lemma unblock_ends: "(queue_unblock dops i)\<^sup>*\<^sup>* w w' \<Longrightarrow> qat w i QDone \<Longrightarrow> w' = w"
  by (erule converse_rtranclpE) (auto simp: qat_def elim: queue_unblock.cases)

lemma unblock_next:
  assumes "(queue_unblock dops i)\<^sup>*\<^sup>* w w'" and "qat w' i QDone" and "qat w i y" and "y \<noteq> QDone"
  obtains v where "queue_unblock dops i w v" and "(queue_unblock dops i)\<^sup>*\<^sup>* v w'"
  using assms by (auto simp: qat_def elim: converse_rtranclpE)

lemma unblock_peeks:
  "queue_unblock dops i w v \<Longrightarrow> qat w i QReleasing \<Longrightarrow> queue_peek (backlog_of w) = Some e \<Longrightarrow>
   v = qset i (QPeeked (qe_id e) (qe_ctx e)) (w\<lparr>qw_locked := True\<rparr>)"
  by (erule queue_unblock.cases) (auto simp: qat_def)

lemma unblock_acquires:
  "queue_unblock dops i w v \<Longrightarrow> qat w i (QPeeked n c) \<Longrightarrow> lim_Acquire dops (qw_now w) c (delegate_of w) = (found, d) \<Longrightarrow>
   v = (case found of None \<Rightarrow> qset i QDone ((set_delegate d w)\<lparr>qw_locked := False\<rparr>)
        | Some k \<Rightarrow> qset i (QGranted n k) (set_delegate d w))"
  by (erule queue_unblock.cases) (auto simp: qat_def)

lemma unblock_evicts:
  "queue_unblock dops i w v \<Longrightarrow> qat w i (QGranted n k) \<Longrightarrow>
   v = qset i (QOffering n k) (set_backlog (evictionFunc n (backlog_of w)) w)"
  by (erule queue_unblock.cases) (auto simp: qat_def)

lemma unblock_offers:
  assumes "queue_unblock dops i w v" and "qat w i (QOffering n k)"
  obtains (accepted) j c s where "j \<noteq> i" and "qat w j (QWaiting c n s)" and "v = qset i QDone (qset j (QHolding k) (w\<lparr>qw_locked := False\<rparr>))"
  | (not_accepted) rd where "\<And>j c s. \<not> qat w j (QWaiting c n s)"
      and "v = qset i QDone ((set_delegate (lim_Complete dops rd Ignored k (delegate_of w)) w)\<lparr>qw_locked := False\<rparr>)"
  using assms(1)
proof cases
  case (accepted n' k' j)
  then have "n' = n" "k' = k" using assms(2) by (simp_all add: qat_def)
  moreover obtain c s where w: "qat w j (QWaiting c n' s)" using accepted(3) by (auto simp: setListener_def)
  moreover have "j \<noteq> i" using w assms(2) by (auto simp: qat_def)
  ultimately show ?thesis using that(1) [of j c s] accepted(1) by simp
next
  case (not_accepted n' k' rd)
  then have "n' = n" "k' = k" using assms(2) by (simp_all add: qat_def)
  then show ?thesis using not_accepted that(2) by (simp add: setListener_def)
qed (use assms(2) in \<open>auto simp: qat_def\<close>)

text \<open>The whole of \<open>unblock\<close>, when no other goroutine runs in between.\<close>

lemma unblocked_result:
  assumes "unblocked dops i w w'" and "i < length (qw_gs w)" and "\<not> qw_locked w"
    and "queue_peek (backlog_of w) = Some e" and "lim_Acquire dops (qw_now w) (qe_ctx e) (delegate_of w) = (found, d)"
  shows "case found of
      None \<Rightarrow> w' = qset i QDone (set_delegate d w)
    | Some k \<Rightarrow> (\<exists>j c s. j \<noteq> i \<and> qat w j (QWaiting c (qe_id e) s)
          \<and> w' = qset i QDone (qset j (QHolding k) (set_backlog (evictionFunc (qe_id e) (backlog_of w)) (set_delegate d w))))
      \<or> (\<forall>j c s. j \<noteq> i \<longrightarrow> \<not> qat w j (QWaiting c (qe_id e) s))
        \<and> (\<exists>rd. w' = qset i QDone (set_backlog (evictionFunc (qe_id e) (backlog_of w))
            (set_delegate (lim_Complete dops rd Ignored k d) w)))"
proof -
  let ?w = "qset i QReleasing w" and ?p = "qset i (QPeeked (qe_id e) (qe_ctx e)) (w\<lparr>qw_locked := True\<rparr>)"
  have ends: "qat w' i QDone" and run: "(queue_unblock dops i)\<^sup>*\<^sup>* ?w w'" using assms(1) by (simp_all add: unblocked_def)
  have again: "qset i g (qset i h v) = qset i g v" for g h and v :: "('a, 'b) qworld" by (simp add: qset_def)
  have at: "qat (qset i g v) i g" if "length (qw_gs v) = length (qw_gs w)" for g and v :: "('a, 'b) qworld"
    using assms(2) that by (simp add: qat_def)
  have rel: "qat ?w i QReleasing" by (rule at) simp
  obtain v where v: "queue_unblock dops i ?w v" "(queue_unblock dops i)\<^sup>*\<^sup>* v w'"
    using unblock_next [OF run ends rel] by auto
  have "v = ?p" using unblock_peeks [OF v(1) rel, of e] assms(4) by (simp add: qset_def)
  then have run: "(queue_unblock dops i)\<^sup>*\<^sup>* ?p w'" using v(2) by simp
  have p: "qat ?p i (QPeeked (qe_id e) (qe_ctx e))" by (rule at) simp
  obtain v where v: "queue_unblock dops i ?p v" "(queue_unblock dops i)\<^sup>*\<^sup>* v w'"
    using unblock_next [OF run ends p] by auto
  note v2 = unblock_acquires [OF v(1) p, of found d]
  show ?thesis
  proof (cases found)
    case None
    then have "v = qset i QDone (set_delegate d w)"
      using v2 assms(3,5) by (cases w) (simp add: qset_def set_delegate_def)
    moreover from this have "qat v i QDone" by (simp add: at)
    ultimately show ?thesis using unblock_ends [OF v(2)] None by simp
  next
    case (Some k)
    let ?g = "qset i (QGranted (qe_id e) k) (set_delegate d (w\<lparr>qw_locked := True\<rparr>))"
    have "v = ?g" using v2 Some assms(5) by (simp add: qset_def set_delegate_def)
    then have run: "(queue_unblock dops i)\<^sup>*\<^sup>* ?g w'" using v(2) by simp
    have g: "qat ?g i (QGranted (qe_id e) k)" by (rule at) simp
    obtain v where v: "queue_unblock dops i ?g v" "(queue_unblock dops i)\<^sup>*\<^sup>* v w'"
      using unblock_next [OF run ends g] by auto
    let ?b = "evictionFunc (qe_id e) (backlog_of w)"
    let ?o = "qset i (QOffering (qe_id e) k) (set_backlog ?b (set_delegate d (w\<lparr>qw_locked := True\<rparr>)))"
    have "v = ?o" using unblock_evicts [OF v(1) g] by (simp add: qset_def set_backlog_def set_delegate_def)
    then have run: "(queue_unblock dops i)\<^sup>*\<^sup>* ?o w'" using v(2) by simp
    have o: "qat ?o i (QOffering (qe_id e) k)" by (rule at) simp
    have others: "qat ?o j (QWaiting c n s) \<longleftrightarrow> j \<noteq> i \<and> qat w j (QWaiting c n s)" for j c n s
      using assms(2) by (cases "j = i") (simp_all add: qat_def)
    obtain v where v: "queue_unblock dops i ?o v" "(queue_unblock dops i)\<^sup>*\<^sup>* v w'"
      using unblock_next [OF run ends o] by auto
    from v(1) o show ?thesis
    proof (cases rule: unblock_offers)
      case (accepted j c s)
      then have "v = qset i QDone (qset j (QHolding k) (set_backlog ?b (set_delegate d w)))"
        using assms(3) by (cases w) (simp add: qset_def set_backlog_def set_delegate_def list_update_swap)
      moreover from this have "qat v i QDone" by (simp add: at)
      ultimately have w': "w' = qset i QDone (qset j (QHolding k) (set_backlog ?b (set_delegate d w)))"
        using unblock_ends [OF v(2)] by simp
      have "qat w j (QWaiting c (qe_id e) s)" using accepted(2) unfolding others by blast
      then show ?thesis using accepted(1) w' unfolding Some option.case by blast
    next
      case (not_accepted rd)
      then have "v = qset i QDone (set_backlog ?b (set_delegate (lim_Complete dops rd Ignored k d) w))"
        using assms(3) by (cases w) (simp add: qset_def set_backlog_def set_delegate_def)
      moreover from this have "qat v i QDone" by (simp add: at)
      ultimately have w': "w' = qset i QDone (set_backlog ?b (set_delegate (lim_Complete dops rd Ignored k d) w))"
        using unblock_ends [OF v(2)] by simp
      have "\<forall>j c s. j \<noteq> i \<longrightarrow> \<not> qat w j (QWaiting c (qe_id e) s)" using not_accepted(1) unfolding others by blast
      then show ?thesis using w' unfolding Some option.case by blast
    qed
  qed
qed

text \<open>
  The element that is served next, by the numbers of the pushes: the oldest one for FIFO, the newest one for LIFO,
  which is also what an empty configuration means.
\<close>

definition served_next :: "string \<Rightarrow> queue_element list \<Rightarrow> queue_element \<Rightarrow> bool" where
  "served_next tag es e \<longleftrightarrow> e \<in> set es
     \<and> (tag = OrderingFIFO \<and> (\<forall>e'\<in>set es. qe_id e \<le> qe_id e')
        \<or> tag \<in> {OrderingLIFO, ''''} \<and> (\<forall>e'\<in>set es. qe_id e' \<le> qe_id e))"

lemma peek_served_next:
  assumes "queue_inv q" and "served_next tag (q_list q) e" and "q_ordering q = (if tag = '''' then OrderingLIFO else tag)"
  shows "queue_peek q = Some e"
proof -
  have e: "e \<in> set (q_list q)" using assms(2) by (simp add: served_next_def)
  have sorted: "sorted_wrt (\<lambda>x y. qe_id y < qe_id x) (q_list q)" using assms(1) by (simp add: queue_inv_def)
  have tags: "OrderingFIFO \<noteq> OrderingLIFO" "OrderingFIFO \<noteq> ''''" by (simp_all add: OrderingFIFO_def OrderingLIFO_def)
  consider "tag = OrderingFIFO" "\<forall>e'\<in>set (q_list q). qe_id e \<le> qe_id e'"
    | "tag \<in> {OrderingLIFO, ''''}" "\<forall>e'\<in>set (q_list q). qe_id e' \<le> qe_id e"
    using assms(2) by (auto simp: served_next_def)
  then show ?thesis
  proof cases
    case 1
    obtain ys z where z: "q_list q = ys @ [z]" using e by (cases "q_list q" rule: rev_cases) auto
    then have "e = z" using sorted e 1(2) by (fastforce simp: sorted_wrt_append)
    then show ?thesis using 1(1) assms(3) z tags by (simp add: queue_peek_def)
  next
    case 2
    obtain z ys where z: "q_list q = z # ys" using e by (cases "q_list q") auto
    then have "e = z" using sorted e 2(2) by fastforce
    then show ?thesis using 2(1) assms(3) z tags by (auto simp: queue_peek_def)
  qed
qed

lemma queue_ordering_step: "queue_step dops w w' \<Longrightarrow> q_ordering (backlog_of w') = q_ordering (backlog_of w)"
  by (auto elim!: queue_step.cases queue_tryAcquire.cases queue_unblock.cases
      simp: pushWithCapacity_def evictionFunc_def split: if_splits)

lemma queue_ordering: "queue_reach dops l0 w \<Longrightarrow> q_ordering (backlog_of w) = q_ordering (ql_backlog l0)"
  by (induction rule: queue_reach.induct) (simp_all add: queue_ordering_step)

lemma new_ordering: "q_ordering (ql_backlog (fst (NewQueueBlockingLimiterFromConfig d cfg)))
    = (if qc_Ordering cfg = '''' then OrderingLIFO else qc_Ordering cfg)"
  by (simp add: NewQueueBlockingLimiterFromConfig_def ApplyDefaults_def Let_def)

text \<open>C19: What a release does for the callers in the backlog, for every delegate: in every reachable state of a queue limiter in
  which its lock is free, a holder that completes its listener, by any of the three methods and with no other goroutine running in between,
  finishes, and completes the delegate's listener first. Then it asks the delegate for the
  element that was pushed first, when the ordering is FIFO, or last, when it is LIFO or the default. If the delegate refuses,
  nobody is served and the backlog stays. If it grants, that element and no other leaves the backlog, its caller gets the listener
  when it waits in its select, and otherwise the listener is given back unused. No other caller is touched.\<close>

theorem queue_handover:
  assumes "queue_reach dops (fst (NewQueueBlockingLimiterFromConfig l0 cfg)) w" and "qc_MaxBacklogSize cfg < 2 ^ 63"
    and "qat w i (QHolding k)" and "\<not> qw_locked w" and "queue_Acquire (Some k) = Some ls"
    and "(meth, oc) \<in> {(queue_OnSuccess, Succeeded), (queue_OnIgnore, Ignored), (queue_OnDropped, WasDropped)}"
    and "served_next (qc_Ordering cfg) (q_list (backlog_of w)) e"
    and "lim_Acquire dops (qw_now w) (qe_ctx e) (lim_Complete dops rd oc k (delegate_of w)) = (found, d)"
  shows "(\<exists>w'. meth dops rd i ls w w') \<and> (\<forall>w'. meth dops rd i ls w w' \<longrightarrow>
    (case found of
       None \<Rightarrow> w' = qset i QDone (set_delegate d w)
     | Some k' \<Rightarrow>
         (let evicted = set_backlog (evictionFunc (qe_id e) (backlog_of w))
          in if \<exists>j c s. qat w j (QWaiting c (qe_id e) s)
             then \<exists>j c s. qat w j (QWaiting c (qe_id e) s) \<and> w' = qset i QDone (qset j (QHolding k') (evicted (set_delegate d w)))
             else \<exists>rd. w' = qset i QDone (evicted (set_delegate (lim_Complete dops rd Ignored k' d) w)))))"
proof -
  let ?w = "set_delegate (lim_Complete dops rd oc k (delegate_of w)) w"
  have m: "meth dops rd i ls w = unblocked dops i ?w"
    using assms(5,6) by (auto simp: queue_Acquire_def queue_listener_methods)
  have i: "i < length (qw_gs ?w)" "\<not> qw_locked ?w" using assms(3,4) by (simp_all add: qat_def set_delegate_def)
  obtain w' where "unblocked dops i ?w w'" by (rule unblocked_total [OF i])
  then have total: "\<exists>w'. meth dops rd i ls w w'" unfolding m by blast
  have "queue_inv (backlog_of w)"
    using backlog_ok_reach [OF assms(1) new_backlog_ok(1) [OF assms(2)]] by (simp add: backlog_ok_def)
  then have peek: "queue_peek (backlog_of ?w) = Some e"
    using peek_served_next [OF _ assms(7)] queue_ordering [OF assms(1)] by (simp add: new_ordering)
  have acq: "lim_Acquire dops (qw_now ?w) (qe_ctx e) (delegate_of ?w) = (found, d)"
    using assms(8) by (simp add: set_delegate_def)
  have again: "set_delegate d' ?w = set_delegate d' w" "qat ?w j g = qat w j g" "backlog_of ?w = backlog_of w" for d' j g
    by (simp_all add: set_delegate_def qat_def)
  have ij: "qat w j (QWaiting c n s) \<Longrightarrow> j \<noteq> i" for j c n s using assms(3) by (auto simp: qat_def)
  have "case found of
       None \<Rightarrow> w' = qset i QDone (set_delegate d w)
     | Some k' \<Rightarrow>
         (let evicted = set_backlog (evictionFunc (qe_id e) (backlog_of w))
          in if \<exists>j c s. qat w j (QWaiting c (qe_id e) s)
             then \<exists>j c s. qat w j (QWaiting c (qe_id e) s) \<and> w' = qset i QDone (qset j (QHolding k') (evicted (set_delegate d w)))
             else \<exists>rd. w' = qset i QDone (evicted (set_delegate (lim_Complete dops rd Ignored k' d) w)))"
    if "meth dops rd i ls w w'" for w'
    using unblocked_result [OF that [unfolded m] i peek acq] ij unfolding again Let_def
    by (cases found) (simp, simp, blast)
  then show ?thesis using total by blast
qed

text \<open>One caller has the only token, another one waits; the completion of the first hands it over.\<close>

theorem queue_handover_witness:
  "\<exists>w ls w' k'. queue_reach (default_delegate fixed_ops precise_ops) (fst (NewFifoBlockingLimiter one_limiter 10 (- 1))) w
     \<and> qat w 1 (QWaiting [] 0 0) \<and> queue_OnIgnore (default_delegate fixed_ops precise_ops) undefined 0 ls w w'
     \<and> qat w' 1 (QHolding k') \<and> qat w' 0 QDone"
proof -
  let ?D = "default_delegate fixed_ops precise_ops"
  let ?cfg = "empty_config\<lparr>qc_Ordering := OrderingFIFO, qc_MaxBacklogSize := 10, qc_MaxBacklogTimeout := - 1\<rparr>"
  let ?l = "fst (NewQueueBlockingLimiterFromConfig one_limiter ?cfg)"
  have l: "?l = \<lparr>ql_delegate = one_limiter, ql_maxBacklogSize = 10, ql_maxBacklogTimeout = - 1, ql_backlogEvictDoneCtx = False,
      ql_backlog = \<lparr>q_list = [], q_ordering = OrderingFIFO, q_fresh = 0\<rparr>\<rparr>"
    by (simp add: NewQueueBlockingLimiterFromConfig_def ApplyDefaults_def empty_config_def u64_def OrderingFIFO_def)
  obtain k l1 where acq: "lim_Acquire ?D 0 [] one_limiter = (Some k, l1)" "lim_Acquire ?D 0 [] l1 = (None, l1)"
    and cmpl: "\<forall>rd. lim_Complete ?D rd Ignored k l1 = one_limiter"
    by (rule one_limiter_cycle)
  let ?q = "\<lparr>q_list = [\<lparr>qe_id = 0, qe_ctx = []\<rparr>], q_ordering = OrderingFIFO, q_fresh = 1\<rparr>"
  let ?w = "\<lambda>g. \<lparr>qw_limiter = ?l\<lparr>ql_delegate := l1, ql_backlog := ?q\<rparr>, qw_locked = False, qw_now = 0, qw_cancelled = {},
      qw_gs = [QHolding k, g]\<rparr>"
  have "queue_reach ?D ?l (?w (QPushed [] 0))"
    using queue_reach.step [OF one_failed [OF l acq] queue_step.tryAcquire [OF queue_tryAcquire.push [of _ 1 "[]" 0 ?q ?D]]] l
    by (simp add: qat_def qset_def set_backlog_def pushWithCapacity_def queue_len_def)
  from queue_reach.step [OF this queue_step.tryAcquire [OF queue_tryAcquire.select [of _ 1 "[]" 0 ?D]]]
  have w: "queue_reach ?D ?l (?w (QWaiting [] 0 0))" by (simp add: qat_def qset_def)
  have at: "qat (?w (QWaiting [] 0 0)) 0 (QHolding k)" "qat (?w (QWaiting [] 0 0)) 1 (QWaiting [] 0 0)" by (simp_all add: qat_def)
  have nxt: "served_next (qc_Ordering ?cfg) (q_list (backlog_of (?w (QWaiting [] 0 0)))) \<lparr>qe_id = 0, qe_ctx = []\<rparr>"
    by (simp add: served_next_def)
  have acq': "lim_Acquire ?D (qw_now (?w (QWaiting [] 0 0))) (qe_ctx \<lparr>qe_id = 0, qe_ctx = []\<rparr>)
      (lim_Complete ?D undefined Ignored k (delegate_of (?w (QWaiting [] 0 0)))) = (Some k, l1)"
    using acq(1) cmpl by simp
  let ?ls = "\<lparr>qk_delegateListener = k\<rparr>"
  have "queue_Acquire (Some k) = Some ?ls" by (simp add: queue_Acquire_def)
  note served = queue_handover [OF w _ at(1) _ this _ nxt acq', of queue_OnIgnore]
  then obtain w' where w': "queue_OnIgnore ?D undefined 0 ?ls (?w (QWaiting [] 0 0)) w'" by auto
  have "\<exists>j c s. qat (?w (QWaiting [] 0 0)) j (QWaiting c 0 s)" using at(2) by blast
  then obtain j c s v where "qat (?w (QWaiting [] 0 0)) j (QWaiting c 0 s)" and v: "w' = qset 0 QDone (qset j (QHolding k) v)"
      "length (qw_gs v) = 2"
    using served w' by (auto simp: Let_def)
  then have "j = 1" by (auto simp: qat_def nth_Cons split: nat.splits)
  then have "qat w' 1 (QHolding k)" "qat w' 0 QDone" using v by (simp_all add: qat_def)
  then show ?thesis using w w' at(2) unfolding NewFifoBlockingLimiter_def by blast
qed

section \<open>A caller can be forgotten\<close>

text \<open>
  A caller waits for an element that is not in the backlog any more and that no releaser works
  for, with no timeout configured and no eviction of done contexts: nothing wakes it.
\<close>

definition forgotten :: "nat \<Rightarrow> ctx \<Rightarrow> nat \<Rightarrow> int \<Rightarrow> ('d, 'k) qworld \<Rightarrow> bool" where
  "forgotten i c n s w \<longleftrightarrow> qat w i (QWaiting c n s) \<and> n \<notin> element_ids (backlog_of w) \<and> n < q_fresh (backlog_of w)
     \<and> (\<forall>g\<in>set (qw_gs w). works_for g \<noteq> Some n)
     \<and> ql_maxBacklogTimeout (qw_limiter w) \<le> 0 \<and> \<not> ql_backlogEvictDoneCtx (qw_limiter w)"

lemma forgotten_set:
  assumes "forgotten i c n s w" and "j \<noteq> i" and "qw_gs v = qw_gs w" and "works_for g \<noteq> Some n"
    and "n \<notin> element_ids (backlog_of v)" and "n < q_fresh (backlog_of v)"
    and "ql_maxBacklogTimeout (qw_limiter v) = ql_maxBacklogTimeout (qw_limiter w)"
    and "ql_backlogEvictDoneCtx (qw_limiter v) = ql_backlogEvictDoneCtx (qw_limiter w)"
  shows "forgotten i c n s (qset j g v)"
  using assms in_list_update [of _ "qw_gs w" j g] unfolding forgotten_def by (auto simp: qat_def)

lemma forgotten_other:
  "forgotten i c n s w \<Longrightarrow> qat w j g \<Longrightarrow> (\<And>s'. g \<noteq> QWaiting c n s') \<Longrightarrow> j \<noteq> i"
  by (auto simp: forgotten_def qat_def)

lemma forgotten_works: "forgotten i c n s w \<Longrightarrow> qat w j g \<Longrightarrow> works_for g \<noteq> Some n"
  unfolding forgotten_def qat_def by (metis nth_mem)

lemma forgotten_quiet:
  assumes "forgotten i c n s w" and "qat w j y" and "\<And>s'. y \<noteq> QWaiting c n s'" and "works_for g \<noteq> Some n"
    and "qw_gs v = qw_gs w" and "backlog_of v = backlog_of w"
    and "ql_maxBacklogTimeout (qw_limiter v) = ql_maxBacklogTimeout (qw_limiter w)"
    and "ql_backlogEvictDoneCtx (qw_limiter v) = ql_backlogEvictDoneCtx (qw_limiter w)"
  shows "forgotten i c n s (qset j g v)"
  using forgotten_set [OF assms(1) forgotten_other [OF assms(1-3)] assms(5,4)] assms(1,6-8) by (simp add: forgotten_def)

lemma forgotten_tryAcquire:
  assumes "queue_tryAcquire dops j w w'" and "forgotten i c n s w"
  shows "forgotten i c n s w'"
  using assms
proof (induction rule: queue_tryAcquire.induct)
  case (push w c' m q)
  have m: "m = q_fresh (backlog_of w)" and "q_fresh q = Suc m" "element_ids q = insert m (element_ids (backlog_of w))"
    using push.hyps(2) by (auto simp: pushWithCapacity_def element_ids_def split: if_splits)
  then show ?case using push forgotten_other [OF push.prems push.hyps(1)]
    by (intro forgotten_set [OF push.prems]) (auto simp: forgotten_def)
next
  case (evict w m)
  then show ?case using forgotten_other [OF evict.prems evict.hyps(1)]
    by (intro forgotten_set [OF evict.prems]) (auto simp: forgotten_def evict_elements)
next
  case (backlogTimeout w c' m s')
  then show ?case by (intro forgotten_set) (auto simp: forgotten_def)
next
  case (ctxDone w c' m s')
  then show ?case by (intro forgotten_set) (auto simp: forgotten_def)
qed (rule forgotten_quiet, assumption, assumption, simp_all)+

lemma forgotten_unblock:
  assumes "queue_unblock dops j w w'" and "forgotten i c n s w"
  shows "forgotten i c n s w'"
  using assms
proof (induction rule: queue_unblock.induct)
  case (peek w e)
  have "qe_id e \<noteq> n" using peek_element [OF peek.hyps(3)] peek.prems by (auto simp: forgotten_def element_ids_def)
  then show ?case using forgotten_other [OF peek.prems peek.hyps(1)]
    by (intro forgotten_set [OF peek.prems]) (auto simp: forgotten_def peek.prems [unfolded forgotten_def])
next
  case (accepted w m k l)
  then obtain c' s' where l: "qat w l (QWaiting c' m s')" by (auto simp: setListener_def)
  have "m \<noteq> n" using forgotten_works [OF accepted.prems accepted.hyps(1)] by simp
  then have "l \<noteq> i" using l accepted.prems by (auto simp: forgotten_def qat_def)
  then have "forgotten i c n s (qset l (QHolding k) (w\<lparr>qw_locked := False\<rparr>))"
    using accepted.prems by (intro forgotten_set [OF accepted.prems]) (auto simp: forgotten_def)
  then show ?case using forgotten_other [OF accepted.prems accepted.hyps(1)]
    by (rule forgotten_set [where w = "qset l (QHolding k) (w\<lparr>qw_locked := False\<rparr>)"])
      (use accepted.prems in \<open>auto simp: forgotten_def\<close>)
next
  case (evict w m k)
  then show ?case using forgotten_other [OF evict.prems evict.hyps(1)] forgotten_works [OF evict.prems evict.hyps(1)]
    by (intro forgotten_set [OF evict.prems]) (auto simp: forgotten_def evict_elements)
next
  case (grant w m c' k d)
  then show ?case using forgotten_works [OF grant.prems grant.hyps(1)]
    by (intro forgotten_quiet [OF grant.prems grant.hyps(1)]) simp_all
qed (rule forgotten_quiet, assumption, assumption, simp_all)+

lemma forgotten_step:
  assumes "queue_step dops w w'" and "forgotten i c n s w"
  shows "forgotten i c n s w'"
  using assms(1)
proof cases
  case (arrive c')
  then show ?thesis using assms(2) by (auto simp: forgotten_def qat_def nth_append)
next
  case (complete j k rd oc)
  then show ?thesis by (auto intro!: forgotten_quiet [OF assms(2)])
next
  case (tryAcquire j)
  then show ?thesis using assms(2) by (rule forgotten_tryAcquire)
next
  case (unblock j)
  then show ?thesis using assms(2) by (rule forgotten_unblock)
qed (use assms(2) in \<open>simp_all add: forgotten_def qat_def\<close>)

lemma forgotten_steps: "(queue_step dops)\<^sup>*\<^sup>* w w' \<Longrightarrow> forgotten i c n s w \<Longrightarrow> forgotten i c n s w'"
  by (induction rule: rtranclp_induct) (auto intro: forgotten_step)

text \<open>C20: A queue limiter can forget a caller: \<open>unblock\<close> evicts the element of a caller that has been
  queued but has not reached its select, the send finds no receiver, and the listener is returned.
  With a FIFO queue over a limiter with one token and the timeout disabled, a state is reachable in
  which no token is taken and the backlog is empty, yet a caller waits, and in every state
  reachable from it that caller still waits.\<close>

theorem queue_forgets_caller:
  "\<exists>w. queue_reach (default_delegate fixed_ops precise_ops) (fst (NewFifoBlockingLimiter one_limiter 10 (- 1))) w
     \<and> qat w 1 (QWaiting [] 0 0) \<and> precise_GetBusyCount (dl_strategy (delegate_of w)) = 0 \<and> q_list (backlog_of w) = []
     \<and> {w'. (queue_step (default_delegate fixed_ops precise_ops))\<^sup>*\<^sup>* w w'} \<subseteq> {w'. qat w' 1 (QWaiting [] 0 0)}"
proof -
  let ?D = "default_delegate fixed_ops precise_ops" and ?l = "fst (NewFifoBlockingLimiter one_limiter 10 (- 1))"
  note l = new_fifo [of one_limiter]
  obtain k l1 where k: "lim_Acquire ?D 0 [] one_limiter = (Some k, l1)" "lim_Acquire ?D 0 [] l1 = (None, l1)"
    "\<forall>rd. lim_Complete ?D rd Ignored k l1 = one_limiter"
    by (rule one_limiter_cycle)
  let ?q0 = "\<lparr>q_list = [], q_ordering = OrderingFIFO, q_fresh = 1\<rparr>"
    and ?q1 = "\<lparr>q_list = [\<lparr>qe_id = 0, qe_ctx = []\<rparr>], q_ordering = OrderingFIFO, q_fresh = 1\<rparr>"
  let ?w = "\<lambda>d q b gs. \<lparr>qw_limiter = \<lparr>ql_delegate = d, ql_maxBacklogSize = 10, ql_maxBacklogTimeout = - 1,
      ql_backlogEvictDoneCtx = False, ql_backlog = q\<rparr>, qw_locked = b, qw_now = 0, qw_cancelled = {}, qw_gs = gs\<rparr>"
  have w0: "queue_reach ?D ?l (?w one_limiter ?q1 False [QReleasing, QPushed [] 0])"
    using one_queued [OF l k] by (simp add: l)
  have w1: "queue_reach ?D ?l (?w one_limiter ?q1 True [QPeeked 0 [], QPushed [] 0])"
    using queue_reach.step [OF w0 queue_step.unblock [OF queue_unblock.peek [of _ 0 "\<lparr>qe_id = 0, qe_ctx = []\<rparr>" ?D]]]
    by (simp add: qat_def qset_def queue_peek_def)
  have w2: "queue_reach ?D ?l (?w l1 ?q1 True [QGranted 0 k, QPushed [] 0])"
    using queue_reach.step [OF w1 queue_step.unblock [OF queue_unblock.grant [of _ 0 0 "[]" ?D k l1]]] k
    by (simp add: qat_def qset_def set_delegate_def)
  have w3: "queue_reach ?D ?l (?w l1 ?q0 True [QOffering 0 k, QPushed [] 0])"
    using queue_reach.step [OF w2 queue_step.unblock [OF queue_unblock.evict [of _ 0 0 k ?D]]]
    by (simp add: qat_def qset_def set_backlog_def evictionFunc_def)
  have "\<not> setListener 0 j (?w l1 ?q0 True [QOffering 0 k, QPushed [] 0])" for j
    by (cases j) (auto simp: setListener_def qat_def less_Suc_eq)
  then have w4: "queue_reach ?D ?l (?w one_limiter ?q0 False [QDone, QPushed [] 0])"
    using queue_reach.step [OF w3 queue_step.unblock [OF queue_unblock.not_accepted [of _ 0 0 k ?D undefined]]] k
    by (simp add: qat_def qset_def set_delegate_def)
  have w5: "queue_reach ?D ?l (?w one_limiter ?q0 False [QDone, QWaiting [] 0 0])" (is "queue_reach _ _ ?v")
    using queue_reach.step [OF w4 queue_step.tryAcquire [OF queue_tryAcquire.select [of _ 1 "[]" 0 ?D]]]
    by (simp add: qat_def qset_def)
  have "forgotten 1 [] 0 0 ?v" by (simp add: forgotten_def qat_def l element_ids_def)
  then have "qat w' 1 (QWaiting [] 0 0)" if "(queue_step ?D)\<^sup>*\<^sup>* ?v w'" for w'
    using forgotten_steps [OF that] by (simp add: forgotten_def)
  moreover have "precise_GetBusyCount (dl_strategy one_limiter) = 0"
    by (simp add: one_limiter_def precise_GetBusyCount_def NewPreciseStrategy_simps)
  ultimately show ?thesis using w5 by (intro exI [of _ ?v]) (auto simp: qat_def)
qed

section \<open>A wake-up can be lost\<close>

text \<open>
  Between the refusal of a caller and its push the last request may complete: its \<open>unblock\<close> finds the backlog
  empty, and the caller then queues for a token that is free. Runs in which nobody else arrives:
\<close>

definition quiet_step :: "('d, 'k) delegate_ops \<Rightarrow> ('d, 'k) qworld \<Rightarrow> ('d, 'k) qworld \<Rightarrow> bool" where
  "quiet_step dops w w' \<longleftrightarrow> queue_step dops w w' \<and> length (qw_gs w') = length (qw_gs w)"

definition overlooked :: "('d, 'k) qworld \<Rightarrow> bool" where
  "overlooked w \<longleftrightarrow> qw_gs w = [QDone, QWaiting [] 0 0] \<and> ql_maxBacklogTimeout (qw_limiter w) \<le> 0
     \<and> \<not> ql_backlogEvictDoneCtx (qw_limiter w)"

lemma overlooked_at: "overlooked w \<Longrightarrow> qat w i g \<Longrightarrow> g = QDone \<or> g = QWaiting [] 0 0"
  by (auto simp: overlooked_def qat_def less_Suc_eq numeral_2_eq_2)

lemma overlooked_step:
  assumes "quiet_step dops w w'" and "overlooked w"
  shows "overlooked w' \<and> delegate_of w' = delegate_of w"
proof -
  have "queue_step dops w w'" and len: "length (qw_gs w') = length (qw_gs w)" using assms(1) by (simp_all add: quiet_step_def)
  from this(1) show ?thesis
  proof cases
    case (tryAcquire i)
    then show ?thesis by cases (use overlooked_at [OF assms(2)] assms(2) in \<open>force simp: overlooked_def\<close>)+
  next
    case (unblock i)
    then show ?thesis by cases (use overlooked_at [OF assms(2)] in force)+
  next
    case (complete i k rd oc)
    then show ?thesis using overlooked_at [OF assms(2)] by force
  qed (use assms(2) len in \<open>auto simp: overlooked_def\<close>)
qed

lemma overlooked_steps:
  "(quiet_step dops)\<^sup>*\<^sup>* w w' \<Longrightarrow> overlooked w \<Longrightarrow> overlooked w' \<and> delegate_of w' = delegate_of w"
  by (induction rule: rtranclp_induct) (auto dest: overlooked_step)

text \<open>C21: A queue limiter can lose a wake-up: with a FIFO queue over a limiter with one token and the timeout
  disabled, a state is reachable in which the token is free, no request is outstanding and a caller waits in
  the backlog, and it waits there in every later state until another caller arrives.\<close>

theorem queue_loses_wakeup:
  "\<exists>w. queue_reach (default_delegate fixed_ops precise_ops) (fst (NewFifoBlockingLimiter one_limiter 10 (- 1))) w
     \<and> precise_GetBusyCount (dl_strategy (delegate_of w)) = 0 \<and> precise_GetLimit (dl_strategy (delegate_of w)) = 1
     \<and> map qe_ctx (q_list (backlog_of w)) = [[]]
     \<and> {w'. (quiet_step (default_delegate fixed_ops precise_ops))\<^sup>*\<^sup>* w w'}
         \<subseteq> {w'. qw_gs w' = [QDone, QWaiting [] 0 0] \<and> delegate_of w' = delegate_of w}"
proof -
  let ?D = "default_delegate fixed_ops precise_ops" and ?l = "fst (NewFifoBlockingLimiter one_limiter 10 (- 1))"
  obtain k l1 where k: "lim_Acquire ?D 0 [] one_limiter = (Some k, l1)" "lim_Acquire ?D 0 [] l1 = (None, l1)"
    "\<forall>rd. lim_Complete ?D rd Ignored k l1 = one_limiter"
    by (rule one_limiter_cycle)
  let ?w = "\<lambda>q gs. \<lparr>qw_limiter = ?l\<lparr>ql_backlog := q\<rparr>, qw_locked = False, qw_now = 0, qw_cancelled = {}, qw_gs = gs\<rparr>"
  let ?q0 = "\<lparr>q_list = [], q_ordering = OrderingFIFO, q_fresh = 0\<rparr>"
    and ?q1 = "\<lparr>q_list = [\<lparr>qe_id = 0, qe_ctx = []\<rparr>], q_ordering = OrderingFIFO, q_fresh = 1\<rparr>"
  note w0 = one_failed [OF new_fifo k(1,2)]
  have w1: "queue_reach ?D ?l (?w ?q0 [QReleasing, QFailed []])"
    using queue_reach.step [OF w0 queue_step.complete [of _ 0 k ?D undefined Ignored]] k(3)
    by (simp add: qat_def qset_def set_delegate_def new_fifo)
  have w2: "queue_reach ?D ?l (?w ?q0 [QDone, QFailed []])"
    using queue_reach.step [OF w1 queue_step.unblock [OF queue_unblock.empty [of _ 0 ?D]]]
    by (simp add: qat_def qset_def queue_peek_def)
  have w3: "queue_reach ?D ?l (?w ?q1 [QDone, QPushed [] 0])"
    using queue_reach.step [OF w2 queue_step.tryAcquire [OF queue_tryAcquire.push [of _ 1 "[]" 0 ?q1 ?D]]]
    by (simp add: qat_def qset_def set_backlog_def pushWithCapacity_def queue_len_def new_fifo)
  have w4: "queue_reach ?D ?l (?w ?q1 [QDone, QWaiting [] 0 0])" (is "queue_reach _ _ ?v")
    using queue_reach.step [OF w3 queue_step.tryAcquire [OF queue_tryAcquire.select [of _ 1 "[]" 0 ?D]]]
    by (simp add: qat_def qset_def)
  have "overlooked ?v" by (simp add: overlooked_def new_fifo)
  then have "qw_gs w' = [QDone, QWaiting [] 0 0] \<and> delegate_of w' = delegate_of ?v" if "(quiet_step ?D)\<^sup>*\<^sup>* ?v w'" for w'
    using overlooked_steps [OF that] by (simp add: overlooked_def)
  moreover have "precise_GetBusyCount (dl_strategy (delegate_of ?v)) = 0" "precise_GetLimit (dl_strategy (delegate_of ?v)) = 1"
    by (simp_all add: new_fifo precise_GetBusyCount_def precise_GetLimit_def one_limiter_def NewPreciseStrategy_simps i32_def)
  ultimately show ?thesis using w4 by (intro exI [of _ ?v]) auto
qed

end
