(* ===== verification/Pool.thy ===== *)
theory Pool
  imports Limiter_Blocking Limiter_Queue
begin

text \<open>
  \<open>patterns/pool\<close>: a fixed pool (a fixed limit, the precise strategy, a default limiter and, by
  ordering, a queue or a blocking limiter on top) and the pool over any limiter. The callers of a pool
  are the callers of the limiter on top.
\<close>

section \<open>Pools\<close>

definition OrderingRandom :: int where "OrderingRandom = 0"
definition PoolOrderingFIFO :: int where "PoolOrderingFIFO = 1"
definition PoolOrderingLIFO :: int where "PoolOrderingLIFO = 2"

datatype 'd pool_limiter = Queueing "'d queue_limiter" | Blocking "'d blocking"

record fixed_pool =
  fp_limit :: int
  fp_ordering :: int
  fp_limiter :: "(fixed, precise) default_limiter pool_limiter"

record 'd pool =
  pl_limiter :: "'d pool_limiter"

datatype pool_error = DelegateRequired

text \<open>The configuration of the queue limiters, the same in both constructors.\<close>

definition pool_config :: "string \<Rightarrow> int \<Rightarrow> int \<Rightarrow> registry \<Rightarrow> queue_config" where
  "pool_config ord maxBacklog timeout metricRegistry =
     empty_config\<lparr>qc_Ordering := ord, qc_MaxBacklogSize := maxBacklog, qc_MaxBacklogTimeout := timeout,
       qc_MetricRegistry := metricRegistry\<rparr>"

definition NewFixedPool ::
    "int \<Rightarrow> string \<Rightarrow> int \<Rightarrow> int \<Rightarrow> int \<Rightarrow> int \<Rightarrow> int \<Rightarrow> int \<Rightarrow> int \<Rightarrow> int \<Rightarrow> logger option \<Rightarrow> registry
     \<Rightarrow> limiter_error + fixed_pool \<times> effect list" where
  "NewFixedPool now name ordr fixedLimit windowSize minWindowTime maxWindowTime minRTTThreshold maxBacklog timeout
     logger metricRegistry =
   (let minWindowTime = (if minWindowTime < 0 then 250 * 1000000 else minWindowTime);
        maxWindowTime = (if maxWindowTime < 0 then 500 * 1000000 else maxWindowTime);
        minRTTThreshold = (if minRTTThreshold < 0 then 10 * 1000000 else minRTTThreshold);
        windowSize = (if windowSize \<le> 0 then 100 else windowSize);
        timeout = (if timeout < 0 then 0 else timeout);
        logger = (case logger of None \<Rightarrow> NoopLimitLogger | Some g \<Rightarrow> g);
        metricRegistry = registry_or_empty metricRegistry;
        limitStrategy = NewPreciseStrategy fixedLimit;
        (lmt, e) = NewFixedLimit name fixedLimit metricRegistry []
    in case NewDefaultLimiter fixed_ops precise_ops now (Some lmt) minWindowTime maxWindowTime minRTTThreshold windowSize
              (Some limitStrategy) (Some logger) metricRegistry of
         Inl err \<Rightarrow> Inl err
       | Inr defaultLimiter \<Rightarrow>
           if ordr = PoolOrderingFIFO
           then let (q, e') = NewQueueBlockingLimiterFromConfig defaultLimiter
                      (pool_config OrderingFIFO maxBacklog timeout metricRegistry)
                in Inr (\<lparr>fp_limit = fixedLimit, fp_ordering = ordr, fp_limiter = Queueing q\<rparr>, e @ e')
           else if ordr = PoolOrderingLIFO
           then let (q, e') = NewQueueBlockingLimiterFromConfig defaultLimiter
                      (pool_config OrderingLIFO maxBacklog timeout metricRegistry)
                in Inr (\<lparr>fp_limit = fixedLimit, fp_ordering = ordr, fp_limiter = Queueing q\<rparr>, e @ e')
           else Inr (\<lparr>fp_limit = fixedLimit, fp_ordering = ordr,
                      fp_limiter = Blocking (NewBlockingLimiter defaultLimiter timeout (Some logger))\<rparr>, e))"

definition fixed_pool_Limit :: "fixed_pool \<Rightarrow> int" where
  "fixed_pool_Limit p = fp_limit p"

definition fixed_pool_Ordering :: "fixed_pool \<Rightarrow> int" where
  "fixed_pool_Ordering p = fp_ordering p"

definition NewPool ::
    "'d option \<Rightarrow> int \<Rightarrow> int \<Rightarrow> int \<Rightarrow> logger option \<Rightarrow> registry \<Rightarrow> pool_error + 'd pool \<times> effect list" where
  "NewPool delegateLimiter ordr maxBacklog timeout logger metricRegistry =
   (case delegateLimiter of
      None \<Rightarrow> Inl DelegateRequired
    | Some delegate \<Rightarrow>
        let timeout = (if timeout < 0 then 0 else timeout);
            logger = (case logger of None \<Rightarrow> NoopLimitLogger | Some g \<Rightarrow> g);
            metricRegistry = registry_or_empty metricRegistry
        in if ordr = PoolOrderingFIFO
           then let (q, e) = NewQueueBlockingLimiterFromConfig delegate
                      (pool_config OrderingFIFO maxBacklog timeout metricRegistry)
                in Inr (\<lparr>pl_limiter = Queueing q\<rparr>, e)
           else if ordr = PoolOrderingLIFO
           then let (q, e) = NewQueueBlockingLimiterFromConfig delegate
                      (pool_config OrderingLIFO maxBacklog timeout metricRegistry)
                in Inr (\<lparr>pl_limiter = Queueing q\<rparr>, e)
           else Inr (\<lparr>pl_limiter = Blocking (NewBlockingLimiter delegate timeout (Some logger))\<rparr>, []))"

text \<open>\<open>Acquire\<close> of a pool is \<open>Acquire\<close> of the limiter on top: a pool's states are that limiter's.\<close>

datatype ('d, 'k) pool_world = QueueWorld "('d, 'k) qworld" | BlockWorld "('d, 'k) world"

inductive pool_reach :: "('d, 'k) delegate_ops \<Rightarrow> 'd pool_limiter \<Rightarrow> ('d, 'k) pool_world \<Rightarrow> bool"
  for dops :: "('d, 'k) delegate_ops" where
  queueing: "queue_reach dops l w \<Longrightarrow> pool_reach dops (Queueing l) (QueueWorld w)"
| blocking: "block_reach dops b w \<Longrightarrow> pool_reach dops (Blocking b) (BlockWorld w)"

inductive_cases pool_reachE: "pool_reach dops l pw"

fun pool_callers :: "('d, 'k) pool_world \<Rightarrow> nat" where
  "pool_callers (QueueWorld w) = length (qw_gs w)"
| "pool_callers (BlockWorld w) = length (w_goroutines w)"

fun pool_delegate :: "('d, 'k) pool_world \<Rightarrow> 'd" where
  "pool_delegate (QueueWorld w) = delegate_of w"
| "pool_delegate (BlockWorld w) = bk_delegate (w_limiter w)"

fun pool_listeners :: "('d, 'k) pool_world \<Rightarrow> int" where
  "pool_listeners (QueueWorld w) = listener_count_of w"
| "pool_listeners (BlockWorld w) = holding_count w"

section \<open>Capacity\<close>

text \<open>The default limiter under a pool, whatever the ordering.\<close>

fun under :: "'d pool_limiter \<Rightarrow> 'd" where
  "under (Queueing l) = ql_delegate l"
| "under (Blocking b) = bk_delegate b"

lemma pool_limiter_reach:
  assumes "pool_reach (default_delegate lops sops) l pw" and "pool_callers pw < 2 ^ 31"
  obtains rs where "limiter_reach lops sops (under l) (pool_delegate pw, rs)"
    and "int (length (filter holds_token rs)) = pool_listeners pw"
  using assms(1)
proof (cases rule: pool_reach.cases)
  case (queueing q w)
  then have "callers_reach lops sops (under l) qholds (pool_delegate pw) (qw_gs w)" using queue_callers assms(2) by auto
  then show ?thesis using that callers_match_total(1) queueing
    by (fastforce simp: callers_reach_def listener_count_of_def)
next
  case (blocking b w)
  then have "callers_reach lops sops (under l) holds (pool_delegate pw) (w_goroutines w)" using block_callers assms(2) by auto
  then show ?thesis using that callers_match_total(1) blocking
    by (fastforce simp: callers_reach_def holding_count_def)
qed

interpretation precise_fixed: limiter_strict precise_ops p_inFlight "\<lambda>s _. p_inFlight s" precise_inv p_limit fixed_ops
    "\<lambda>l. fx_limit l = n" "\<lambda>_. True" n n for n
  by unfold_locales simp_all

lemma fixed_limit_step:
  "limiter_step fixed_ops sops (l, rs) (l', rs') \<Longrightarrow> fx_limit (dl_limit l') = fx_limit (dl_limit l)"
  by (erule limiter_step.cases)
     (auto simp: limiter_Acquire_def listener_count_def listener_free_def listener_measureSuccess_def
       listener_measureDropped_def updateAndGetSample_def listener_updateLimit_def fixed_ops_def fixed_OnSample_def Let_def
       split: if_splits prod.splits)

text \<open>
  Over a fixed limit of \<open>n\<close> tokens the strategy never has more than \<open>n\<close> out (one if \<open>n\<close> is zero), whatever
  the threshold and the windows.
\<close>

lemma fixed_limiter_capacity:
  assumes "NewDefaultLimiter fixed_ops precise_ops now (Some lmt) minW maxW thr ws (Some (NewPreciseStrategy m)) lg reg = Inr l0"
    and "limiter_reach fixed_ops precise_ops l0 st" and "fx_limit lmt < 2 ^ 31"
  shows "fx_limit (dl_limit (fst st)) = fx_limit lmt \<and> p_inFlight (dl_strategy (fst st)) \<le> max 1 (fx_limit lmt)"
  using assms(2)
proof (induction rule: limiter_reach.induct)
  case start
  note new = precise_stack.new_limiter [OF assms(1) precise_idle precise_idle(2)]
  have "p_inFlight (dl_strategy l0) = 0" using new(1) by (simp add: precise_stack.accounted_def count_reqs_def)
  moreover have "dl_limit l0 = lmt" using assms(1) by (auto simp: NewDefaultLimiter_def split: if_splits)
  ultimately show ?case by simp
next
  case (step st st')
  obtain l rs l' rs' where st: "st = (l, rs)" "st' = (l', rs')" by (metis prod.exhaust)
  note new = precise_stack.new_limiter [OF assms(1) precise_idle precise_idle(2)]
  have acc: "precise_stack.accounted (l, rs)" using precise_stack.accounted_reach [OF _ new(1)] step.hyps(1) st by simp
  have "p_limit (dl_strategy l) = i32 (max 1 (fx_limit lmt))"
    using precise_stack.synced_reach [OF step.hyps(1) new(2)] step.IH st
    by (simp add: precise_stack.synced_def fixed_ops_def fixed_EstimatedLimit_def)
  then have "p_limit (dl_strategy l) \<le> max 1 (fx_limit lmt)" using assms(3) by (simp add: i32_id in_i32_def max_def)
  then have "p_inFlight (dl_strategy l') \<le> max 1 (fx_limit lmt)"
    using precise_fixed.busy_step [of l rs l' rs' "max 1 (fx_limit lmt)"] step st acc assms(3) by simp
  then show ?case using step st fixed_limit_step [of precise_ops l rs l' rs'] by simp
qed

text \<open>The limit a fixed pool enforces: a negative one is replaced by ten, zero by one.\<close>

definition pool_capacity :: "int \<Rightarrow> int" where
  "pool_capacity fixedLimit = (if fixedLimit < 0 then 10 else max 1 fixedLimit)"

lemma new_fixed_pool:
  assumes "NewFixedPool now name ordr fixedLimit windowSize minW maxW thr maxBacklog timeout logger registry = Inr (p, e)"
  obtains lmt minW' maxW' thr' ws' lg' reg' where "fx_limit lmt = (if fixedLimit < 0 then 10 else fixedLimit)"
    and "NewDefaultLimiter fixed_ops precise_ops now (Some lmt) minW' maxW' thr' ws' (Some (NewPreciseStrategy fixedLimit)) lg' reg'
      = Inr (under (fp_limiter p))"
    and "fp_limit p = fixedLimit" and "fp_ordering p = ordr"
proof -
  have lmt: "fx_limit (fst (NewFixedLimit name fixedLimit r [])) = (if fixedLimit < 0 then 10 else fixedLimit)" for r
    by (simp add: NewFixedLimit_def Let_def case_prod_beta)
  show ?thesis
    using assms lmt
    by (auto simp: NewFixedPool_def Let_def case_prod_beta NewQueueBlockingLimiterFromConfig_def NewBlockingLimiter_def
        split: sum.splits if_splits intro!: that)
qed

text \<open>C4: The capacity of a fixed pool: whatever the ordering, the configuration and the
  interleaving of its callers (fewer than \<open>2 ^ 31\<close>), at most as many listeners are out as the fixed
  limit says, for a limit that fits in 32 bits; a limit of zero counts as one, a negative one as ten.\<close>

theorem fixed_pool_capacity:
  assumes "NewFixedPool now name ordr fixedLimit windowSize minW maxW thr maxBacklog timeout logger registry = Inr (p, e)"
    and "pool_reach (default_delegate fixed_ops precise_ops) (fp_limiter p) pw" and "pool_callers pw < 2 ^ 31"
    and "fixedLimit < 2 ^ 31"
  shows "pool_listeners pw \<le> pool_capacity fixedLimit"
proof -
  obtain lmt minW' maxW' thr' ws' lg' reg' where lmt: "fx_limit lmt = (if fixedLimit < 0 then 10 else fixedLimit)"
    and new: "NewDefaultLimiter fixed_ops precise_ops now (Some lmt) minW' maxW' thr' ws' (Some (NewPreciseStrategy fixedLimit))
      lg' reg' = Inr (under (fp_limiter p))"
    using assms(1) by (rule new_fixed_pool)
  obtain rs where rs: "limiter_reach fixed_ops precise_ops (under (fp_limiter p)) (pool_delegate pw, rs)"
    and n: "int (length (filter holds_token rs)) = pool_listeners pw"
    using assms(2,3) by (rule pool_limiter_reach)
  have "p_inFlight (dl_strategy (pool_delegate pw)) \<le> max 1 (fx_limit lmt)"
    using fixed_limiter_capacity [OF new rs] lmt assms(4) by simp
  moreover have "precise_stack.accounted (pool_delegate pw, rs)"
    using precise_stack.accounted_reach [OF rs] precise_stack.new_limiter(1) [OF new precise_idle precise_idle(2)] by blast
  then have "p_inFlight (dl_strategy (pool_delegate pw)) = pool_listeners pw"
    using n by (simp add: precise_stack.accounted_def count_reqs_def)
  ultimately show ?thesis using lmt by (auto simp: pool_capacity_def split: if_splits)
qed

theorem fixed_pool_capacity_witness:
  "\<exists>p e pw. NewFixedPool 0 ''p'' 0 5 (- 1) (- 1) (- 1) (- 1) 0 0 None NilRegistry = Inr (p, e)
     \<and> pool_reach (default_delegate fixed_ops precise_ops) (fp_limiter p) pw \<and> pool_listeners pw = 1 \<and> pool_listeners pw \<le> 5"
proof -
  let ?D = "default_delegate fixed_ops precise_ops"
  obtain p e where p: "NewFixedPool 0 ''p'' 0 5 (- 1) (- 1) (- 1) (- 1) 0 0 None NilRegistry = Inr (p, e)"
    and b: "\<exists>b. fp_limiter p = Blocking b \<and> bk_patience b = Timeout 0"
    by (simp add: NewFixedPool_def NewDefaultLimiter_def PoolOrderingFIFO_def PoolOrderingLIFO_def NewBlockingLimiter_def
        Let_def case_prod_beta)
  then obtain b where b: "fp_limiter p = Blocking b" "bk_patience b = Timeout 0" by blast
  obtain lmt minW maxW thr ws lg reg where lmt: "fx_limit lmt = 5"
    and new: "NewDefaultLimiter fixed_ops precise_ops 0 (Some lmt) minW maxW thr ws (Some (NewPreciseStrategy 5)) lg reg
      = Inr (bk_delegate b)"
    using p b by (auto elim: new_fixed_pool)
  have "0 < i32 (max 1 (EstimatedLimit fixed_ops lmt))"
    using lmt by (simp add: fixed_ops_def fixed_EstimatedLimit_def i32_def)
  from precise_first_grant [OF new this, of 0 "[]"] obtain k d e' where
    "limiter_Acquire precise_ops 0 [] (bk_delegate b) = (Some k, d, e')" .
  then have acq: "lim_Acquire ?D 0 [] (bk_delegate b) = (Some k, d)" by (simp add: default_delegate_def)
  let ?w = "\<lparr>w_limiter = b\<lparr>bk_delegate := d\<rparr>, w_closed = {}, w_now = 0, w_completed = 0, w_cancelled = {},
    w_goroutines = [Holding k]\<rparr>"
  have reach: "pool_reach ?D (fp_limiter p) (BlockWorld ?w)"
    unfolding b(1) by (rule pool_reach.blocking [OF one_holder [OF acq]]) (simp add: b(2) deadline_passed_def)
  have "pool_listeners (BlockWorld ?w) = 1" by (simp add: holding_count_def)
  then show ?thesis using fixed_pool_capacity [OF p reach] p reach by (auto simp: pool_capacity_def)
qed

text \<open>When a fixed pool is created: exactly when neither window time is zero, the minimal one (250 ms if
  negative) is at most the maximal one (500 ms if negative), and the window size is at least ten or not
  positive (then 100 is used). It then reports the limit and the ordering it was given.\<close>

theorem fixed_pool_creation:
  "(case NewFixedPool now name ordr fixedLimit windowSize minW maxW thr maxBacklog timeout logger registry of
      Inl err \<Rightarrow> \<not> (minW \<noteq> 0 \<and> maxW \<noteq> 0
        \<and> (if minW < 0 then 250000000 else minW) \<le> (if maxW < 0 then 500000000 else maxW)
        \<and> (windowSize \<le> 0 \<or> 10 \<le> windowSize))
    | Inr (p, e) \<Rightarrow> minW \<noteq> 0 \<and> maxW \<noteq> 0
        \<and> (if minW < 0 then 250000000 else minW) \<le> (if maxW < 0 then 500000000 else maxW)
        \<and> (windowSize \<le> 0 \<or> 10 \<le> windowSize)
        \<and> fixed_pool_Limit p = fixedLimit \<and> fixed_pool_Ordering p = ordr)"
  by (auto simp: NewFixedPool_def NewDefaultLimiter_def fixed_pool_Limit_def fixed_pool_Ordering_def Let_def case_prod_beta)

end
