(* ===== verification/Limiter_Partitioned.thy ===== *)
theory Limiter_Partitioned
  imports Pool
begin

text \<open>
  Waiting limiters over partitioned strategies: the blocking and deadline limiters (\<open>limiter/blocking.go\<close>,
  \<open>deadline.go\<close>) and the queue limiter (\<open>limiter/queue_blocking.go\<close>) above a default limiter whose strategy is
  \<open>strategy/lookup_partition.go\<close> or \<open>strategy/predicate_partition.go\<close>. Whether such a delegate has room depends on
  the context of the request.
\<close>

section \<open>The goroutines above any strategy\<close>

text \<open>The listeners of the running requests, and the ones that the goroutines are responsible for, are the same.\<close>

fun running_listener :: "'r request \<Rightarrow> 'r default_listener option" where
  "running_listener (Running ls) = Some ls"
| "running_listener _ = None"

lemma running_listener_Some: "running_listener r = Some ls \<longleftrightarrow> r = Running ls"
  by (cases r) simp_all

lemma count_listeners: "count (mset (List.map_filter h xs)) ls = length (filter (\<lambda>x. h x = Some ls) xs)"
  by (induction xs) (auto simp: List.map_filter_def)

lemma length_listeners: "length (filter P (List.map_filter h xs)) = length (filter (\<lambda>x. \<exists>ls. h x = Some ls \<and> P ls) xs)"
  by (induction xs) (auto simp: List.map_filter_def split: option.splits)

lemma callers_same_listeners:
  assumes "callers_match hold gs rs"
  shows "mset (List.map_filter hold gs) = mset (List.map_filter running_listener rs)"
  using assms by (intro multiset_eqI) (simp add: count_listeners running_listener_Some callers_match_def)

text \<open>The tokens of a release function that goroutines are responsible for.\<close>

definition tokens_of :: "('g \<Rightarrow> 'r default_listener option) \<Rightarrow> 'r \<Rightarrow> 'g list \<Rightarrow> int" where
  "tokens_of hold f gs = int (length (filter (\<lambda>g. \<exists>ls. hold g = Some ls \<and> releaseFunc (ls_token ls) = Some f) gs))"

lemma callers_tokens:
  assumes "callers_match hold gs rs"
  shows "count_reqs (\<lambda>r. req_func r = Some f) rs = tokens_of hold f gs"
proof -
  have "length (filter (\<lambda>ls. releaseFunc (ls_token ls) = Some f) (List.map_filter hold gs))
      = length (filter (\<lambda>ls. releaseFunc (ls_token ls) = Some f) (List.map_filter running_listener rs))"
    using callers_same_listeners [OF assms] by (metis mset_filter size_mset)
  moreover have "filter (\<lambda>r. req_func r = Some f) rs
      = filter (\<lambda>r. \<exists>ls. running_listener r = Some ls \<and> releaseFunc (ls_token ls) = Some f) rs"
    using assms by (intro filter_cong refl) (auto simp: callers_match_def running_listener_Some elim!: is_running.elims)
  ultimately show ?thesis by (simp add: length_listeners tokens_of_def count_reqs_def)
qed

context limiter_stack
begin

lemma callers_accounted:
  assumes "callers_reach lops ops l0 hold l gs" and "accounted (l0, [])"
  shows "inv (dl_strategy l)" and "busy (dl_strategy l) = int (length (filter (\<lambda>g. hold g \<noteq> None) gs))"
    and "held (dl_strategy l) f = tokens_of hold f gs"
proof -
  obtain rs where rs: "limiter_reach lops ops l0 (l, rs)" "callers_match hold gs rs"
    using assms(1) by (auto simp: callers_reach_def)
  then have "accounted (l, rs)" using accounted_reach assms(2) by blast
  then show "inv (dl_strategy l)" and "busy (dl_strategy l) = int (length (filter (\<lambda>g. hold g \<noteq> None) gs))"
    and "held (dl_strategy l) f = tokens_of hold f gs"
    using callers_match_total(1) [OF rs(2)] callers_tokens [OF rs(2), of f] by (simp_all add: accounted_def count_reqs_def)
qed

end

section \<open>When a partitioned delegate is full\<close>

definition lookup_full :: "ctx \<Rightarrow> ('l, lookup) default_limiter \<Rightarrow> bool" where
  "lookup_full c l \<longleftrightarrow> (let s = dl_strategy l in
     lk_limit s \<le> lk_busy s \<and> part_IsLimitExceeded (lk_store s (lookup_target c s)))"

definition predicate_full :: "ctx \<Rightarrow> ('l, predicate_strategy) default_limiter \<Rightarrow> bool" where
  "predicate_full c l \<longleftrightarrow> (let s = dl_strategy l in
     case first_match c s of None \<Rightarrow> True
     | Some r \<Rightarrow> pd_limit s \<le> pd_busy s \<and> part_IsLimitExceeded (pd_store s r))"

text \<open>A full delegate refuses the request and stays as it is; another one grants it.\<close>

lemma lookup_refuses:
  "if lookup_full c l then limiter_Acquire lookup_ops now c l = (None, l, [])
   else fst (limiter_Acquire lookup_ops now c l) \<noteq> None"
  by (auto simp: limiter_Acquire_def lookup_ops_def lookup_TryAcquire_def lookup_full_def Let_def split: prod.splits)

lemma predicate_refuses:
  "if predicate_full c l then limiter_Acquire predicate_ops now c l = (None, l, [])
   else fst (limiter_Acquire predicate_ops now c l) \<noteq> None"
  by (auto simp: limiter_Acquire_def predicate_ops_def predicate_TryAcquire_find predicate_full_def Let_def split: option.splits)

definition lookup_roomy :: "('l, lookup) default_limiter \<Rightarrow> bool" where
  "lookup_roomy l \<longleftrightarrow> lookup_inv (dl_strategy l) \<and> lk_busy (dl_strategy l) < 2 ^ 31 - 1"

definition predicate_roomy :: "('l, predicate_strategy) default_limiter \<Rightarrow> bool" where
  "predicate_roomy l \<longleftrightarrow> predicate_inv (dl_strategy l) \<and> pd_busy (dl_strategy l) < 2 ^ 31 - 1"

lemma lookup_grant_full:
  assumes "lookup_inv s" and "lk_busy s < 2 ^ 31 - 1" and "lookup_TryAcquire c' s = ((t, True), s', e)"
    and "lk_limit s \<le> lk_busy s" and "part_IsLimitExceeded (lk_store s (lookup_target c s))"
  shows "lk_limit s' \<le> lk_busy s' \<and> part_IsLimitExceeded (lk_store s' (lookup_target c s'))"
proof -
  note g = lookup_granted [OF assms(1-3)]
  have "lk_partitions s' = lk_partitions s \<and> lk_unknown s' = lk_unknown s \<and> lk_lookupFunc s' = lk_lookupFunc s"
    using assms(3) by (auto simp: lookup_TryAcquire_def Let_def split: if_splits prod.splits)
  then have "lookup_target c s' = lookup_target c s" by (simp add: lookup_target_def split: option.split)
  moreover have "pt_busy (lk_store s r) \<le> pt_busy (lk_store s' r)" "pt_limit (lk_store s' r) = pt_limit (lk_store s r)" for r
    using fun_cong [OF g(4), of r] g(5) by (auto simp: part_Acquire_def Let_def split: if_splits)
  ultimately show ?thesis using assms(4,5) g(1,6) by (auto simp: part_IsLimitExceeded_def intro: order_trans)
qed

interpretation lookup_waiters: blocking_delegate "default_delegate lops lookup_ops" lookup_roomy lookup_full for lops
proof
  fix now c d d'
  assume "lim_Acquire (default_delegate lops lookup_ops) now c d = (None, d')"
  then show "lookup_full c d'"
    by (auto simp: default_delegate_def limiter_Acquire_def lookup_ops_def lookup_TryAcquire_def lookup_full_def Let_def
        split: if_splits prod.splits)
next
  fix now c c' d x d'
  assume d: "lookup_roomy d" "lookup_full c d" and acq: "lim_Acquire (default_delegate lops lookup_ops) now c' d = (x, d')"
  obtain t ok s e where tryacq: "lookup_TryAcquire c' (dl_strategy d) = ((t, ok), s, e)" by (metis prod.exhaust)
  then have s: "dl_strategy d' = s"
    using acq by (auto simp: default_delegate_def limiter_Acquire_def lookup_ops_def Let_def split: if_splits prod.splits)
  show "lookup_full c d'"
  proof (cases ok)
    case True
    then show ?thesis using lookup_grant_full [of "dl_strategy d" c' t s e c] tryacq d s
      by (simp add: lookup_full_def lookup_roomy_def Let_def)
  next
    case False
    then have "s = dl_strategy d" using tryacq lookup_refused(1) by simp
    then show ?thesis using d(2) s by (simp add: lookup_full_def)
  qed
qed

lemma predicate_grant_full:
  assumes "predicate_inv s" and "pd_busy s < 2 ^ 31 - 1" and "predicate_TryAcquire c' s = ((t, True), s', e)"
    and "first_match c s = Some r" and "pd_limit s \<le> pd_busy s" and "part_IsLimitExceeded (pd_store s r)"
  shows "first_match c s' = Some r \<and> pd_limit s' \<le> pd_busy s' \<and> part_IsLimitExceeded (pd_store s' r)"
proof -
  obtain r' where s': "s' = s\<lparr>pd_busy := pd_busy s + 1, pd_store := (pd_store s)(r' := fst (part_Acquire (pd_store s r')))\<rparr>"
    and counts: "(\<lambda>x. pt_busy (pd_store s' x)) = (\<lambda>x. pt_busy (pd_store s x))(r' := pt_busy (pd_store s r') + 1)"
    using predicate_granted [OF assms(1-3)] by blast
  have same: "pp_predicate (pd_store s' x) = pp_predicate (pd_store s x)" "pt_limit (pd_store s' x) = pt_limit (pd_store s x)" for x
    by (auto simp: s' part_Acquire_def Let_def)
  have "first_match c s' = first_match c s" by (simp add: first_match_def same(1)) (simp add: s')
  moreover have "pt_busy (pd_store s r) \<le> pt_busy (pd_store s' r)" using fun_cong [OF counts, of r] by (auto split: if_splits)
  ultimately show ?thesis using assms(4-6) same(2) [of r] by (auto simp: part_IsLimitExceeded_def s' intro: order_trans)
qed

lemma predicate_none_full:
  assumes "predicate_TryAcquire c' s = ((t, ok), s', e)" and "first_match c s = None"
  shows "first_match c s' = None"
proof -
  have "pd_partitions s' = pd_partitions s \<and> (\<forall>x. pp_predicate (pd_store s' x) = pp_predicate (pd_store s x))"
    using assms(1) by (auto simp: predicate_TryAcquire_find part_Acquire_def Let_def split: if_splits option.splits)
  then show ?thesis using assms(2) by (simp add: first_match_def)
qed

interpretation predicate_waiters: blocking_delegate "default_delegate lops predicate_ops" predicate_roomy predicate_full for lops
proof
  fix now c d d'
  assume "lim_Acquire (default_delegate lops predicate_ops) now c d = (None, d')"
  then show "predicate_full c d'"
    by (auto simp: default_delegate_def limiter_Acquire_def predicate_ops_def predicate_TryAcquire_find predicate_full_def Let_def
        split: if_splits prod.splits option.splits)
next
  fix now c c' d x d'
  assume d: "predicate_roomy d" "predicate_full c d" and acq: "lim_Acquire (default_delegate lops predicate_ops) now c' d = (x, d')"
  obtain t ok s e where tryacq: "predicate_TryAcquire c' (dl_strategy d) = ((t, ok), s, e)" by (metis prod.exhaust)
  then have s: "dl_strategy d' = s"
    using acq by (auto simp: default_delegate_def limiter_Acquire_def predicate_ops_def Let_def split: if_splits prod.splits)
  show "predicate_full c d'"
  proof (cases ok)
    case True
    then show ?thesis
      using predicate_grant_full [of "dl_strategy d" c' t s e c] predicate_none_full [OF tryacq, of c] tryacq d s
      by (auto simp: predicate_full_def predicate_roomy_def Let_def split: option.splits)
  next
    case False
    then have "s = dl_strategy d" using tryacq predicate_refused(1) by simp
    then show ?thesis using d(2) s by (simp add: predicate_full_def)
  qed
qed

text \<open>A strategy as its constructor makes it from partitions that no request is in.\<close>

lemma lookup_created:
  assumes "parts \<noteq> []" and "\<not> fless (lit 1) (sum_percent store (map snd parts))"
  shows "\<exists>store' s e. NewLookupPartitionStrategyWithMetricRegistry parts f lmt EmptyMetricRegistry unknown store
    = (store', Inr (Some (s, e)))"
  using assms by (simp add: NewLookupPartitionStrategyWithMetricRegistry_def NewLookupPartitionWithMetricRegistry_def Let_def
      case_prod_beta)

lemma lookup_idle:
  assumes "NewLookupPartitionStrategyWithMetricRegistry parts f lmt0 reg unknown store = (store', Inr (Some (s, e)))"
    and "\<And>r. pt_busy (store r) = 0"
  shows "lookup_inv s" and "lk_busy s = 0" and "pt_busy (lk_store s r) = 0"
proof -
  have "lk_busy s = 0 \<and> (\<forall>r. pt_busy (lk_store s r) = 0)" using assms
    by (auto simp: NewLookupPartitionStrategyWithMetricRegistry_def NewLookupPartitionWithMetricRegistry_def Let_def
        split: if_splits option.splits prod.splits)
  then show "lookup_inv s" and "lk_busy s = 0" and "pt_busy (lk_store s r) = 0"
    by (auto simp: lookup_inv_def tokens_match_def intro!: exI [of _ "{#}"])
qed

lemma block_roomy:
  assumes "lookup_stack.accounted (bk_delegate b0, [])" and "length (w_goroutines w) < 2 ^ 31 - 1"
    and "block_reach (default_delegate lops lookup_ops) b0 v" and "length (w_goroutines v) \<le> length (w_goroutines w)"
  shows "lookup_roomy (bk_delegate (w_limiter v))"
proof -
  have "callers_reach lops lookup_ops (bk_delegate b0) holds (bk_delegate (w_limiter v)) (w_goroutines v)"
    using assms(2,4) by (intro block_callers [OF assms(3)]) simp
  note acc = lookup_stack.callers_accounted(1,2) [OF this assms(1)]
  have "length (filter (\<lambda>g. holds g \<noteq> None) (w_goroutines v)) < 2 ^ 31 - 1"
    using length_filter_le [of "\<lambda>g. holds g \<noteq> None" "w_goroutines v"] assms(2,4) by linarith
  then show ?thesis using acc by (simp add: lookup_roomy_def)
qed

text \<open>A limiter with one token, all of it in the share of one partition: granted once, then refused.\<close>

abbreviation of_group :: "string \<Rightarrow> ctx" where
  "of_group n \<equiv> [(LookupPartitionContextKey, StringValue n)]"

abbreviation live :: ctx where
  "live \<equiv> of_group ''live''"

lemma one_live:
  obtains store' s e l0 k l1 where
    "NewLookupPartitionStrategyWithMetricRegistry [(''live'', 0)] None 1 EmptyMetricRegistry 1 (\<lambda>_. half_partition)
      = (store', Inr (Some (s, e)))"
    and "NewDefaultLimiter fixed_ops lookup_ops 0 (Some (fst (NewFixedLimit ''f'' 1 NilRegistry []))) 1 1 0 10 (Some s) None NilRegistry
      = Inr l0"
    and "lim_Acquire (default_delegate fixed_ops lookup_ops) 0 live l0 = (Some k, l1)"
    and "lim_Acquire (default_delegate fixed_ops lookup_ops) 0 live l1 = (None, l1)"
    and "lookup_target live (dl_strategy l1) = 0"
proof -
  obtain store' s e where new: "NewLookupPartitionStrategyWithMetricRegistry [(''live'', 0)] None 1 EmptyMetricRegistry 1
      (\<lambda>_. half_partition) = (store', Inr (Some (s, e)))"
    using half_new by blast
  note idle = lookup_idle [OF new]
  have s: "lk_limit s = 1" "lk_partitions s = [(''live'', 0)]" "lk_lookupFunc s = DefaultStringLookupFunc"
    using new by (auto simp: NewLookupPartitionStrategyWithMetricRegistry_def Let_def split: if_splits option.splits prod.splits)
  have half: "rnd (1 / 2) = 1 / 2" using rnd_dyadic [of 1 "- 1"] by (simp add: power_int_def)
  have share: "pt_limit (lk_store s 0) = 1"
    using new_lookup_share [OF new, of "''live''" 0 "1 / 2"] half by (simp add: half_partition_def part_Limit_def)
  have target: "lookup_target live t = 0" if "lk_partitions t = [(''live'', 0)]" "lk_lookupFunc t = DefaultStringLookupFunc" for t
    using that by (simp add: lookup_target_def DefaultStringLookupFunc_def Value_def)
  have busy: "lk_busy s = 0" "pt_busy (lk_store s 0) = 0" using idle by (simp_all add: half_partition_def)
  have n: "EstimatedLimit fixed_ops (fst (NewFixedLimit ''f'' 1 NilRegistry [])) = 1"
    by (simp add: fixed_ops_def fixed_EstimatedLimit_def NewFixedLimit_def Let_def case_prod_beta)
  have "lookup_SetLimit 1 s = s" by (simp add: lookup_SetLimit_def s i32_def)
  then obtain l0 where l0: "NewDefaultLimiter fixed_ops lookup_ops 0 (Some (fst (NewFixedLimit ''f'' 1 NilRegistry []))) 1 1 0 10
      (Some s) None NilRegistry = Inr l0" and ds: "dl_strategy l0 = s"
    using n by (simp add: NewDefaultLimiter_def lookup_ops_def)
  have i: "i32 1 = 1" by (simp add: i32_def)
  obtain k l1 where "lim_Acquire (default_delegate fixed_ops lookup_ops) 0 live l0 = (Some k, l1)"
    and l1: "dl_strategy l1 = fst (snd (lookup_TryAcquire live s))"
    by (simp add: default_delegate_def limiter_Acquire_def lookup_ops_def lookup_TryAcquire_def ds target [OF s(2,3)] s busy Let_def
        case_prod_beta)
  moreover have "lk_busy (dl_strategy l1) = 1" "lk_limit (dl_strategy l1) = 1" "pt_busy (lk_store (dl_strategy l1) 0) = 1"
    "pt_limit (lk_store (dl_strategy l1) 0) = 1" "lk_partitions (dl_strategy l1) = [(''live'', 0)]"
    "lk_lookupFunc (dl_strategy l1) = DefaultStringLookupFunc"
    using share by (simp_all add: l1 lookup_TryAcquire_def target [OF s(2,3)] s busy part_Acquire_def i Let_def split: prod.splits)
  ultimately show ?thesis using new l0 target
    by (intro that) (auto simp: default_delegate_def limiter_Acquire_def lookup_ops_def lookup_TryAcquire_def Let_def
        part_IsLimitExceeded_def)
qed

section \<open>Properties\<close>

fun pool_tokens :: "nat \<Rightarrow> (('l, lookup) default_limiter, nat default_listener) pool_world \<Rightarrow> int" where
  "pool_tokens r (QueueWorld w) = tokens_of qholds r (qw_gs w)"
| "pool_tokens r (BlockWorld w) = tokens_of holds r (w_goroutines w)"

text \<open>C5: A pool over a partitioned limiter keeps the accounts of every partition: whatever the pool's ordering, the limit
  algorithm and the interleaving of callers, timeouts, hand-overs and completions (fewer than \<open>2 ^ 31\<close> callers), the
  strategy's counter is the number of goroutines responsible for a listener, and the counter of each
  partition, the one of unknown groups included, is the number of those whose token is of that partition.\<close>

theorem partitioned_pool_accounting:
  assumes "NewLookupPartitionStrategyWithMetricRegistry parts f lmt0 reg unknown store = (store', Inr (Some (s, e)))"
    and "pt_busy \<circ> store = (\<lambda>_. 0)"
    and "NewDefaultLimiter lops lookup_ops now (Some lm) minW maxW thr ws (Some s) lg reg' = Inr l0"
    and "NewPool (Some l0) ordr maxBacklog timeout lg' reg'' = Inr (p, e')"
    and "pool_reach (default_delegate lops lookup_ops) (pl_limiter p) pw" and "pool_callers pw < 2 ^ 31"
  shows "lookup_BusyCount (dl_strategy (pool_delegate pw)) = pool_listeners pw
    \<and> (\<lambda>r. part_BusyCount (lk_store (dl_strategy (pool_delegate pw)) r)) = (\<lambda>r. pool_tokens r pw)"
proof -
  have zero: "pt_busy (store r) = 0" for r using fun_cong [OF assms(2), of r] by simp
  have acc: "lookup_stack.accounted (l0, [])"
    using lookup_stack.new_limiter(1) [OF assms(3) lookup_idle [OF assms(1) zero]] .
  have under: "under (pl_limiter p) = l0"
    using assms(4) by (auto simp: NewPool_def NewQueueBlockingLimiterFromConfig_def NewBlockingLimiter_def Let_def
        case_prod_beta split: if_splits)
  from assms(5) show ?thesis
  proof (cases rule: pool_reach.cases)
    case (queueing l w)
    then have "callers_reach lops lookup_ops l0 qholds (delegate_of w) (qw_gs w)"
      using queue_callers [of lops lookup_ops l w] assms(6) under by simp
    from lookup_stack.callers_accounted(2,3) [OF this acc] queueing show ?thesis
      by (simp add: lookup_BusyCount_def part_BusyCount_def listener_count_of_def)
  next
    case (blocking b w)
    then have "callers_reach lops lookup_ops l0 holds (bk_delegate (w_limiter w)) (w_goroutines w)"
      using block_callers [of lops lookup_ops b w] assms(6) under by simp
    from lookup_stack.callers_accounted(2,3) [OF this acc] blocking show ?thesis
      by (simp add: lookup_BusyCount_def part_BusyCount_def holding_count_def)
  qed
qed

theorem partitioned_pool_accounting_witness:
  "\<exists>s l0 p e (pw :: ((fixed, lookup) default_limiter, nat default_listener) pool_world).
     NewDefaultLimiter fixed_ops lookup_ops 0 (Some (fst (NewFixedLimit ''f'' 1 NilRegistry []))) 1 1 0 10 (Some s) None NilRegistry
       = Inr l0
     \<and> NewPool (Some l0) 0 0 0 None NilRegistry = Inr (p, e)
     \<and> pool_reach (default_delegate fixed_ops lookup_ops) (pl_limiter p) pw \<and> pool_listeners pw = 1
     \<and> lookup_BusyCount (dl_strategy (pool_delegate pw)) = 1"
proof -
  let ?D = "default_delegate fixed_ops lookup_ops" and ?b = "\<lambda>l0. NewBlockingLimiter l0 0 (Some NoopLimitLogger)"
  obtain store' s e l0 k l1 where new: "NewLookupPartitionStrategyWithMetricRegistry [(''live'', 0)] None 1 EmptyMetricRegistry 1
      (\<lambda>_. half_partition) = (store', Inr (Some (s, e)))"
    and l0: "NewDefaultLimiter fixed_ops lookup_ops 0 (Some (fst (NewFixedLimit ''f'' 1 NilRegistry []))) 1 1 0 10 (Some s) None NilRegistry
      = Inr l0"
    and acq: "lim_Acquire ?D 0 live l0 = (Some k, l1)"
    by (rule one_live)
  have p: "NewPool (Some l0) 0 0 0 None NilRegistry = Inr (\<lparr>pl_limiter = Blocking (?b l0)\<rparr>, [])"
    by (simp add: NewPool_def PoolOrderingFIFO_def PoolOrderingLIFO_def)
  let ?w = "\<lparr>w_limiter = (?b l0)\<lparr>bk_delegate := l1\<rparr>, w_closed = {}, w_now = 0, w_completed = 0, w_cancelled = {},
    w_goroutines = [Holding k]\<rparr>"
  have reach: "pool_reach ?D (Blocking (?b l0)) (BlockWorld ?w)"
    by (intro pool_reach.blocking one_holder [where c = live]) (simp_all add: acq NewBlockingLimiter_def deadline_passed_def)
  have one: "pool_listeners (BlockWorld ?w) = 1" by (simp add: holding_count_def)
  have "pt_busy \<circ> (\<lambda>_. half_partition) = (\<lambda>_. 0)" by (simp add: half_partition_def comp_def)
  from partitioned_pool_accounting [OF new this l0 p, of "BlockWorld ?w"] reach one
  have "lookup_BusyCount (dl_strategy (pool_delegate (BlockWorld ?w))) = 1" by simp
  with l0 p reach one show ?thesis
    by (intro exI [of _ s] exI [of _ l0] exI [of _ "\<lparr>pl_limiter = Blocking (?b l0)\<rparr>"] exI [of _ "[]"] exI [of _ "BlockWorld ?w"]) simp
qed

text \<open>C8: No wake-up is lost for a partition: in every reachable state of a blocking or a deadline limiter over a
  default limiter with the lookup-partition strategy and any limit algorithm, a caller that waits on a channel
  which is neither closed nor about to be closed, while no release is between completing at the
  delegate and broadcasting, waits because the limit is reached and its own partition has used up its share.\<close>

theorem partition_no_lost_wakeup:
  assumes "NewLookupPartitionStrategyWithMetricRegistry parts f lmt0 reg unknown store = (store', Inr (Some (s, e)))"
    and "pt_busy \<circ> store = (\<lambda>_. 0)"
    and "NewDefaultLimiter lops lookup_ops now (Some lm) minW maxW thr ws (Some s) lg reg' = Inr l0"
    and "b0 = NewBlockingLimiter l0 timeout lg' \<or> b0 = NewDeadlineLimiter l0 dline lg'"
    and "block_reach (default_delegate lops lookup_ops) b0 w" and "length (w_goroutines w) < 2 ^ 31 - 1"
    and "Waiting c n g t \<in> set (w_goroutines w)" and "n \<notin> w_closed w"
    and "{Closing n, Releasing} \<inter> set (w_goroutines w) = {}"
  shows "let s' = dl_strategy (bk_delegate (w_limiter w)); p = lk_store s' (lookup_target c s') in
    lookup_Limit s' \<le> lookup_BusyCount s' \<and> part_Limit p \<le> part_BusyCount p"
proof -
  have zero: "pt_busy (store r) = 0" for r using fun_cong [OF assms(2), of r] by simp
  have b0: "bk_notify b0 = 0" "bk_delegate b0 = l0"
    using assms(4) by (auto simp: new_notify NewBlockingLimiter_def NewDeadlineLimiter_def Let_def)
  have "lookup_stack.accounted (bk_delegate b0, [])"
    using lookup_stack.new_limiter(1) [OF assms(3) lookup_idle [OF assms(1) zero]] b0 by simp
  note roomy = block_roomy [OF this assms(6)]
  have "lookup_full c (bk_delegate (w_limiter w))"
    using lookup_waiters.stuck_full [OF assms(5) b0(1) assms(7) roomy] assms(8,9) by auto
  then show ?thesis
    by (simp add: lookup_full_def part_IsLimitExceeded_def lookup_Limit_def lookup_BusyCount_def part_Limit_def part_BusyCount_def
        Let_def)
qed

theorem partition_no_lost_wakeup_witness:
  "\<exists>s l0 w. NewDefaultLimiter fixed_ops lookup_ops 0 (Some (fst (NewFixedLimit ''f'' 1 NilRegistry []))) 1 1 0 10 (Some s) None
       NilRegistry = Inr l0
     \<and> block_reach (default_delegate fixed_ops lookup_ops) (NewBlockingLimiter l0 0 None) w
     \<and> (let s' = dl_strategy (bk_delegate (w_limiter w)); p = lk_store s' 0 in
        lookup_Limit s' \<le> lookup_BusyCount s' \<and> part_Limit p \<le> part_BusyCount p)"
proof -
  let ?D = "default_delegate fixed_ops lookup_ops" and ?b = "\<lambda>l0. NewBlockingLimiter l0 0 None"
  obtain store' s e l0 k l1 where new: "NewLookupPartitionStrategyWithMetricRegistry [(''live'', 0)] None 1 EmptyMetricRegistry 1
      (\<lambda>_. half_partition) = (store', Inr (Some (s, e)))"
    and l0: "NewDefaultLimiter fixed_ops lookup_ops 0 (Some (fst (NewFixedLimit ''f'' 1 NilRegistry []))) 1 1 0 10 (Some s) None NilRegistry
      = Inr l0"
    and acq: "lim_Acquire ?D 0 live l0 = (Some k, l1)" "lim_Acquire ?D 0 live l1 = (None, l1)"
    and target: "lookup_target live (dl_strategy l1) = 0"
    by (rule one_live)
  let ?w = "\<lparr>w_limiter = (?b l0)\<lparr>bk_delegate := l1\<rparr>, w_closed = {}, w_now = 0, w_completed = 0, w_cancelled = {},
    w_goroutines = [Holding k, Waiting live 0 0 0]\<rparr>"
  have reach: "block_reach ?D (?b l0) ?w"
    by (rule one_waiter) (simp_all add: acq NewBlockingLimiter_def deadline_passed_def)
  have "pt_busy \<circ> (\<lambda>_. half_partition) = (\<lambda>_. 0)" by (simp add: half_partition_def comp_def)
  from partition_no_lost_wakeup [OF new this l0 disjI1 [OF refl] reach, of live 0 0 0] target
  show ?thesis using l0 reach
    by (intro exI [of _ s] exI [of _ l0] exI [of _ ?w]) (simp add: Let_def)
qed

section \<open>Requests of no partition\<close>

text \<open>A delegate that never grants the request of some context, whatever happens to it.\<close>

locale hopeless_requests =
  fixes dops :: "('d, 'k) delegate_ops" and never :: "ctx \<Rightarrow> 'd \<Rightarrow> bool"
  assumes never_refused: "never c d \<Longrightarrow> lim_Acquire dops now c d = (x, d') \<Longrightarrow> x = None"
    and never_acquire: "never c d \<Longrightarrow> lim_Acquire dops now c' d = (x, d') \<Longrightarrow> never c d'"
    and never_complete: "never c d \<Longrightarrow> never c (lim_Complete dops rd oc k d)"
begin

fun attempting :: "ctx \<Rightarrow> 'k goroutine \<Rightarrow> bool" where
  "attempting c (Trying c') \<longleftrightarrow> c' = c"
| "attempting c (Captured c' n g) \<longleftrightarrow> c' = c"
| "attempting c (Waiting c' n g s) \<longleftrightarrow> c' = c"
| "attempting c _ \<longleftrightarrow> False"

definition stuck :: "nat \<Rightarrow> ctx \<Rightarrow> ('d, 'k) world \<Rightarrow> bool" where
  "stuck i c w \<longleftrightarrow> never c (bk_delegate (w_limiter w)) \<and> (\<exists>t. bk_patience (w_limiter w) = Timeout t)
     \<and> i < length (w_goroutines w)
     \<and> (attempting c (w_goroutines w ! i) \<or> w_goroutines w ! i = Refused \<and> i \<in> w_cancelled w)"

lemma stuck_step:
  assumes "block_step dops w w'" and "stuck i c w"
  shows "stuck i c w'"
  using assms
proof (induction rule: block_step_induct)
  case (arrive w c')
  then show ?case by (auto simp: stuck_def nth_append)
next
  case (acquired w j c' n g k d)
  then show ?case using never_acquire [OF _ acquired.hyps(2), of c] never_refused [of c "bk_delegate (w_limiter w)"]
    by (fastforce simp: stuck_def is_at_def put_def nth_list_update)
next
  case (refused w j c' n g d)
  then show ?case using never_acquire [OF _ refused.hyps(2), of c]
    by (auto simp: stuck_def is_at_def put_def nth_list_update deadline_passed_def)
next
  case (complete w j k rd oc)
  then show ?case by (auto simp: stuck_def is_at_def put_def nth_list_update never_complete)
qed (auto simp: stuck_def is_at_def put_def nth_list_update broadcastRelease_def deadline_passed_def)

lemma stuck_steps: "(block_step dops)\<^sup>*\<^sup>* w w' \<Longrightarrow> stuck i c w \<Longrightarrow> stuck i c w'"
  by (induction rule: rtranclp_induct) (auto intro: stuck_step)

end

definition no_partition :: "ctx \<Rightarrow> ('l, predicate_strategy) default_limiter \<Rightarrow> bool" where
  "no_partition c l \<longleftrightarrow> first_match c (dl_strategy l) = None"

lemma no_partition_kept:
  assumes "first_match c s = None"
  shows "first_match c (predicate_releasePartition r s) = None" and "first_match c (predicate_SetLimit n s) = None"
proof -
  have pred: "pp_predicate (update_all n rs st x) = pp_predicate (st x)" for rs st x and n :: int
    by (induction rs arbitrary: st) (simp_all add: update_all_def part_UpdateLimit_def)
  show "first_match c (predicate_releasePartition r s) = None" and "first_match c (predicate_SetLimit n s) = None"
    using assms
    by (auto simp: first_match_def find_None_iff predicate_releasePartition_def part_Release_def predicate_SetLimit_def pred Let_def)
qed

interpretation unmatched: hopeless_requests "default_delegate lops predicate_ops" no_partition for lops
proof
  fix lops :: "'l limit_ops" and c :: ctx and now c' x and d d' :: "('l, predicate_strategy) default_limiter"
  assume never: "no_partition c d"
  show "x = None" if "lim_Acquire (default_delegate lops predicate_ops) now c d = (x, d')"
    using that never by (auto simp: no_partition_def default_delegate_def limiter_Acquire_def predicate_ops_def
        predicate_TryAcquire_find Let_def)
  show "no_partition c d'" if acq: "lim_Acquire (default_delegate lops predicate_ops) now c' d = (x, d')"
  proof -
    obtain t ok s e where try_acq: "predicate_TryAcquire c' (dl_strategy d) = ((t, ok), s, e)" by (metis prod.exhaust)
    then have "dl_strategy d' = s"
      using acq by (auto simp: default_delegate_def limiter_Acquire_def predicate_ops_def Let_def split: if_splits)
    then show ?thesis using predicate_none_full [OF try_acq] never by (simp add: no_partition_def)
  qed
next
  fix lops :: "'l limit_ops" and c :: ctx and rd oc k and d :: "('l, predicate_strategy) default_limiter"
  assume "no_partition c d"
  then show "no_partition c (lim_Complete (default_delegate lops predicate_ops) rd oc k d)"
    by (auto simp: no_partition_def default_delegate_def listener_OnSuccess_def listener_OnIgnore_def listener_OnDropped_def
        listener_count_def listener_free_def listener_measureSuccess_def listener_measureDropped_def updateAndGetSample_def
        listener_updateLimit_def token_Release_def predicate_ops_def no_partition_kept Let_def
        split: outcome.splits prod.splits option.splits if_splits)
qed

text \<open>A blocking limiter over the predicate partitions keeps a caller whose request matches no partition for ever, in
  every run and however many tokens are free, until the caller's context is done: it never returns a listener to it, and gives up for no
  other reason. The default limiter alone refuses such a request at once.\<close>

theorem unmatched_blocks_for_ever:
  assumes "block_reach (default_delegate lops predicate_ops) (NewBlockingLimiter l0 timeout lg) w"
    and "first_match c (dl_strategy (bk_delegate (w_limiter w))) = None" and "is_at w i (Trying c)"
    and "(block_step (default_delegate lops predicate_ops))\<^sup>*\<^sup>* w w'" and "is_at w' i g"
  shows "if g = Refused then i \<in> w_cancelled w' else \<exists>n m s. g = Trying c \<or> g = Captured c n m \<or> g = Waiting c n m s"
proof -
  have "\<exists>t. bk_patience (w_limiter w) = Timeout t"
    using refusals_reach [OF assms(1)] by (simp add: refusals_justified_def NewBlockingLimiter_def Let_def)
  then have "unmatched.stuck i c w" using assms(2,3) by (simp add: unmatched.stuck_def no_partition_def is_at_def)
  from unmatched.stuck_steps [OF assms(4) this] assms(5) show ?thesis
    by (cases g) (auto simp: unmatched.stuck_def is_at_def)
qed

end
