(* ===== verification/Queue_Partitioned.thy ===== *)
theory Queue_Partitioned
  imports Limiter_Partitioned
begin

text \<open>
  The queue limiter over a lookup-partition strategy: \<open>unblock\<close> (\<open>limiter/queue_blocking.go\<close>) asks the
  delegate only for the element at the head of the backlog, so that a partition whose share is free can wait behind
  another one. The run at the end of this theory is built from whole calls, by the lemmas of the first section.
\<close>

section \<open>Whole calls\<close>

text \<open>A limiter between calls, at time zero.\<close>

definition between :: "'d queue_limiter \<Rightarrow> 'k qgoroutine list \<Rightarrow> ('d, 'k) qworld" where
  "between l gs = \<lparr>qw_limiter = l, qw_locked = False, qw_now = 0, qw_cancelled = {}, qw_gs = gs\<rparr>"

lemma between_sel [simp]:
  "qw_limiter (between l gs) = l" "qw_gs (between l gs) = gs" "qw_now (between l gs) = 0" "qw_locked (between l gs) = False"
  by (simp_all add: between_def)

lemma between_arrive:
  "queue_reach dops l0 (between l gs) \<Longrightarrow> queue_reach dops l0 (between l (gs @ [QTrying c]))"
  using queue_reach.step [OF _ queue_step.arrive [of dops "between l gs" c]] by (simp add: between_def)

lemma between_granted:
  assumes "queue_reach dops l0 (between l gs)" and "lim_Acquire dops 0 c (ql_delegate l) = (Some k, d)"
  shows "queue_reach dops l0 (between (l\<lparr>ql_delegate := d\<rparr>) (gs @ [QHolding k]))"
  using queue_reach.step [OF between_arrive [OF assms(1), of c]
      queue_step.tryAcquire [OF queue_tryAcquire.acquired [of _ "length gs" c dops k d]]] assms(2)
  by (simp add: between_def qat_def qset_def set_delegate_def)

lemma between_queued:
  assumes "queue_reach dops l0 (between l gs)" and "lim_Acquire dops 0 c (ql_delegate l) = (None, d)"
    and "pushWithCapacity c (ql_maxBacklogSize l) (ql_backlog l) = Inr (n, q)"
  shows "queue_reach dops l0 (between (l\<lparr>ql_delegate := d, ql_backlog := q\<rparr>) (gs @ [QWaiting c n 0]))"
proof -
  let ?l1 = "l\<lparr>ql_delegate := d\<rparr>" and ?l2 = "l\<lparr>ql_delegate := d, ql_backlog := q\<rparr>"
  have w1: "queue_reach dops l0 (between ?l1 (gs @ [QFailed c]))"
    using queue_reach.step [OF between_arrive [OF assms(1), of c]
        queue_step.tryAcquire [OF queue_tryAcquire.refused [of _ "length gs" c dops d]]] assms(2)
    by (simp add: between_def qat_def qset_def set_delegate_def)
  have w2: "queue_reach dops l0 (between ?l2 (gs @ [QPushed c n]))"
    using queue_reach.step [OF w1 queue_step.tryAcquire [OF queue_tryAcquire.push [of _ "length gs" c n q dops]]] assms(3)
    by (simp add: between_def qat_def qset_def set_backlog_def)
  show ?thesis
    using queue_reach.step [OF w2 queue_step.tryAcquire [OF queue_tryAcquire.select [of _ "length gs" c n dops]]]
    by (simp add: between_def qat_def qset_def)
qed

lemma between_handover:
  assumes "queue_reach dops l0 (between l gs)" and "i < length gs" and "gs ! i = QHolding k"
    and "queue_peek (ql_backlog l) = Some e"
    and "lim_Acquire dops 0 (qe_ctx e) (lim_Complete dops rd oc k (ql_delegate l)) = (Some k', d)"
    and "j < length gs" and "gs ! j = QWaiting c (qe_id e) s"
  shows "queue_reach dops l0 (between (l\<lparr>ql_delegate := d, ql_backlog := evictionFunc (qe_id e) (ql_backlog l)\<rparr>)
    (gs[i := QDone, j := QHolding k']))"
proof -
  have ij: "i \<noteq> j" using assms(3,7) by auto
  let ?w = "between (l\<lparr>ql_delegate := lim_Complete dops rd oc k (ql_delegate l)\<rparr>) (gs[i := QReleasing])"
  have w1: "queue_reach dops l0 ?w"
    using queue_reach.step [OF assms(1) queue_step.complete [of _ i k dops rd oc]] assms(2,3)
    by (simp add: between_def qat_def qset_def set_delegate_def)
  have "(queue_unblock dops i)\<^sup>*\<^sup>* ?w (between (l\<lparr>ql_delegate := d, ql_backlog := evictionFunc (qe_id e) (ql_backlog l)\<rparr>)
    (gs[i := QDone, j := QHolding k']))"
    using unblock_hands_over [of ?w i e dops k' d j c s] assms ij by (simp add: qat_def between_def)
  then have "(queue_step dops)\<^sup>*\<^sup>* ?w (between (l\<lparr>ql_delegate := d, ql_backlog := evictionFunc (qe_id e) (ql_backlog l)\<rparr>)
    (gs[i := QDone, j := QHolding k']))"
    by (rule rtranclp_mono [THEN predicate2D, rotated]) (auto intro: queue_step.unblock)
  then show ?thesis using w1 by (rule queue_reach_steps)
qed

lemma between_not_granted:
  assumes "queue_reach dops l0 (between l gs)" and "i < length gs" and "gs ! i = QHolding k"
    and "queue_peek (ql_backlog l) = Some e"
    and "lim_Acquire dops 0 (qe_ctx e) (lim_Complete dops rd oc k (ql_delegate l)) = (None, d)"
  shows "queue_reach dops l0 (between (l\<lparr>ql_delegate := d\<rparr>) (gs[i := QDone]))"
proof -
  let ?l1 = "l\<lparr>ql_delegate := lim_Complete dops rd oc k (ql_delegate l)\<rparr>"
  have w1: "queue_reach dops l0 (between ?l1 (gs[i := QReleasing]))"
    using queue_reach.step [OF assms(1) queue_step.complete [of _ i k dops rd oc]] assms(2,3)
    by (simp add: between_def qat_def qset_def set_delegate_def)
  have w2: "queue_reach dops l0 ((between ?l1 (gs[i := QPeeked (qe_id e) (qe_ctx e)]))\<lparr>qw_locked := True\<rparr>)"
    using queue_reach.step [OF w1 queue_step.unblock [OF queue_unblock.peek [of _ i e dops]]] assms(2,4)
    by (simp add: between_def qat_def qset_def)
  show ?thesis
    using queue_reach.step [OF w2 queue_step.unblock [OF queue_unblock.no_grant [of _ i "qe_id e" "qe_ctx e" dops d]]] assms(2,5)
    by (simp add: between_def qat_def qset_def set_delegate_def)
qed

section \<open>Two partitions of a limiter with two tokens\<close>

text \<open>Each partition has a share of one; \<open>x\<close> tokens of the one are out, and \<open>y\<close> of the other.\<close>

definition pair :: "lookup \<Rightarrow> int \<Rightarrow> int \<Rightarrow> bool" where
  "pair s x y \<longleftrightarrow> lk_partitions s = [(''a'', 0), (''b'', 1)] \<and> lk_lookupFunc s = DefaultStringLookupFunc
     \<and> lk_limit s = 2 \<and> lk_busy s = x + y \<and> pt_limit (lk_store s 0) = 1 \<and> pt_limit (lk_store s 1) = 1
     \<and> pt_busy (lk_store s 0) = x \<and> pt_busy (lk_store s 1) = y"

lemma pair_target: "pair s x y \<Longrightarrow> lookup_target (of_group ''a'') s = 0" "pair s x y \<Longrightarrow> lookup_target (of_group ''b'') s = 1"
  by (simp_all add: pair_def lookup_target_def DefaultStringLookupFunc_def Value_def)

abbreviation pair_ops :: "((fixed, lookup) default_limiter, nat default_listener) delegate_ops" where
  "pair_ops \<equiv> default_delegate fixed_ops lookup_ops"

lemma pair_grant:
  assumes "pair (dl_strategy l) x y" and "0 \<le> x" "0 \<le> y" "x \<le> 5" "y \<le> 5"
  shows "x + y < 2 \<or> x < 1 \<Longrightarrow> \<exists>k l'. lim_Acquire pair_ops now (of_group ''a'') l = (Some k, l')
      \<and> pair (dl_strategy l') (x + 1) y \<and> releaseFunc (ls_token k) = Some 0"
    and "x + y < 2 \<or> y < 1 \<Longrightarrow> \<exists>k l'. lim_Acquire pair_ops now (of_group ''b'') l = (Some k, l')
      \<and> pair (dl_strategy l') x (y + 1) \<and> releaseFunc (ls_token k) = Some 1"
proof -
  have i: "i32 (x + y + 1) = x + y + 1" "i32 (x + 1) = x + 1" "i32 (y + 1) = y + 1"
    using assms(2-5) by (simp_all add: i32_id in_i32_def)
  show "x + y < 2 \<or> x < 1 \<Longrightarrow> \<exists>k l'. lim_Acquire pair_ops now (of_group ''a'') l = (Some k, l')
      \<and> pair (dl_strategy l') (x + 1) y \<and> releaseFunc (ls_token k) = Some 0"
    and "x + y < 2 \<or> y < 1 \<Longrightarrow> \<exists>k l'. lim_Acquire pair_ops now (of_group ''b'') l = (Some k, l')
      \<and> pair (dl_strategy l') x (y + 1) \<and> releaseFunc (ls_token k) = Some 1"
    using assms(1) pair_target [OF assms(1)] i
    by (auto simp: default_delegate_def limiter_Acquire_def lookup_ops_def lookup_TryAcquire_def part_IsLimitExceeded_def
        part_Acquire_def pair_def Let_def case_prod_beta)
qed

lemma pair_refuse:
  assumes "pair (dl_strategy l) x y" and "2 \<le> x + y"
  shows "1 \<le> x \<Longrightarrow> lim_Acquire pair_ops now (of_group ''a'') l = (None, l)"
    and "1 \<le> y \<Longrightarrow> lim_Acquire pair_ops now (of_group ''b'') l = (None, l)"
  using assms pair_target [OF assms(1)]
  by (simp_all add: default_delegate_def limiter_Acquire_def lookup_ops_def lookup_TryAcquire_def part_IsLimitExceeded_def pair_def
      Let_def)

lemma pair_ignored:
  assumes "pair (dl_strategy l) x y" and "releaseFunc (ls_token k) = Some 1" and "0 \<le> x" "1 \<le> y" "x \<le> 5" "y \<le> 5"
  shows "pair (dl_strategy (lim_Complete pair_ops rd Ignored k l)) x (y - 1)"
proof -
  have i: "i32 (x + y - 1) = x + y - 1" "i32 (y - 1) = y - 1"
    using assms(3-6) by (simp_all add: i32_id in_i32_def)
  show ?thesis using assms(1,2) i
    by (auto simp: default_delegate_def listener_OnIgnore_def listener_free_def listener_count_def token_Release_def lookup_ops_def
        lookup_releasePartition_def part_Release_def pair_def Let_def)
qed

lemma new_pair:
  obtains store' s e l0 where
    "NewLookupPartitionStrategyWithMetricRegistry [(''a'', 0), (''b'', 1)] None 2 EmptyMetricRegistry 2 (\<lambda>_. half_partition)
      = (store', Inr (Some (s, e)))"
    and "NewDefaultLimiter fixed_ops lookup_ops 0 (Some (fst (NewFixedLimit ''f'' 2 NilRegistry []))) 1 1 0 10 (Some s) None NilRegistry
      = Inr l0"
    and "pair (dl_strategy l0) 0 0"
proof -
  have half: "rnd (1 / 2) = 1 / 2" using rnd_dyadic [of 1 "- 1"] by (simp add: power_int_def)
  have one: "rnd 1 = 1" using rnd_dyadic [of 1 0] by simp
  have "\<not> fless (lit 1) (sum_percent (\<lambda>_. half_partition) [0, 1])"
    by (simp add: sum_percent_def part_Percent_def half_partition_def f64_exact mk_small half one)
  then obtain store' s e where new: "NewLookupPartitionStrategyWithMetricRegistry [(''a'', 0), (''b'', 1)] None 2 EmptyMetricRegistry 2
      (\<lambda>_. half_partition) = (store', Inr (Some (s, e)))"
    using lookup_created [of "[(''a'', 0), (''b'', 1)]" "\<lambda>_. half_partition" None 2 2] by auto
  have "pt_limit (lk_store s r) = 1" if "r = 0 \<or> r = 1" for r
    using that new_lookup_share [OF new, of "''a''" 0 "1 / 2"] new_lookup_share [OF new, of "''b''" 1 "1 / 2"] one
    by (auto simp: half_partition_def part_Limit_def)
  moreover have "lk_busy s = 0" "pt_busy (lk_store s r) = 0" for r
    using lookup_idle(2,3) [OF new] by (simp_all add: half_partition_def)
  moreover have s: "lk_limit s = 2" "lk_partitions s = [(''a'', 0), (''b'', 1)]" "lk_lookupFunc s = DefaultStringLookupFunc"
    using new by (auto simp: NewLookupPartitionStrategyWithMetricRegistry_def Let_def split: if_splits option.splits prod.splits)
  ultimately have "pair s 0 0" by (simp add: pair_def)
  moreover have "lookup_SetLimit 2 s = s" by (simp add: lookup_SetLimit_def s i32_def)
  moreover have "EstimatedLimit fixed_ops (fst (NewFixedLimit ''f'' 2 NilRegistry [])) = 2"
    by (simp add: fixed_ops_def fixed_EstimatedLimit_def NewFixedLimit_def Let_def case_prod_beta)
  ultimately show ?thesis using that [OF new] by (simp add: NewDefaultLimiter_def lookup_ops_def)
qed

section \<open>A partition waits behind another\<close>

text \<open>Runs in which no request completes and nobody arrives.\<close>

definition waiting_step :: "('d, 'k) delegate_ops \<Rightarrow> ('d, 'k) qworld \<Rightarrow> ('d, 'k) qworld \<Rightarrow> bool" where
  "waiting_step dops w w' \<longleftrightarrow> quiet_step dops w w' \<and> QReleasing \<notin> set (qw_gs w')"

definition starving :: "'k \<Rightarrow> 'k \<Rightarrow> ctx \<Rightarrow> ('d, 'k) qworld \<Rightarrow> bool" where
  "starving k k' c w \<longleftrightarrow> qw_gs w = [QDone, QHolding k, QHolding k', QWaiting c 1 0]
     \<and> ql_maxBacklogTimeout (qw_limiter w) \<le> 0 \<and> \<not> ql_backlogEvictDoneCtx (qw_limiter w)"

lemma starving_at:
  "starving k k' c w \<Longrightarrow> qat w i g \<Longrightarrow> g = QDone \<or> g = QHolding k \<or> g = QHolding k' \<or> g = QWaiting c 1 0"
  by (auto simp: starving_def qat_def less_Suc_eq numeral_eq_Suc)

lemma starving_step:
  assumes "waiting_step dops w w'" and "starving k k' c w"
  shows "starving k k' c w' \<and> delegate_of w' = delegate_of w"
proof -
  have "queue_step dops w w'" and len: "length (qw_gs w') = length (qw_gs w)" and rel: "QReleasing \<notin> set (qw_gs w')"
    using assms(1) by (simp_all add: waiting_step_def quiet_step_def)
  from this(1) show ?thesis
  proof cases
    case (tryAcquire i)
    then show ?thesis by cases (use starving_at [OF assms(2)] assms(2) in \<open>force simp: starving_def\<close>)+
  next
    case (unblock i)
    then show ?thesis by cases (use starving_at [OF assms(2)] in force)+
  next
    case (complete i k rd oc)
    then show ?thesis using rel by (auto simp: qset_def set_delegate_def qat_def set_update_memI)
  qed (use assms(2) len in \<open>auto simp: starving_def\<close>)
qed

lemma starving_steps:
  "(waiting_step dops)\<^sup>*\<^sup>* w w' \<Longrightarrow> starving k k' c w \<Longrightarrow> starving k k' c w' \<and> delegate_of w' = delegate_of w"
  by (induction rule: rtranclp_induct) (auto dest: starving_step)

text \<open>
  The second partition takes a token, the first one takes the other; a caller of each queues, the first partition's first.
  The second partition's token comes back and goes to the head of the backlog.
\<close>

lemma pair_run:
  assumes p0: "pair (dl_strategy l0) 0 0"
  obtains k k' d l where "queue_reach pair_ops (fst (NewFifoBlockingLimiter l0 10 (- 1)))
      (between (l\<lparr>ql_delegate := d\<rparr>) [QDone, QHolding k, QHolding k', QWaiting (of_group ''b'') 1 0])"
    and "pair (dl_strategy d) 2 0" and "ql_maxBacklogTimeout l = - 1" and "\<not> ql_backlogEvictDoneCtx l"
proof -
  let ?l = "fst (NewFifoBlockingLimiter l0 10 (- 1)) :: (fixed, lookup) default_limiter queue_limiter"
  let ?a = "\<lparr>qe_id = 0, qe_ctx = of_group ''a''\<rparr>" and ?b = "\<lparr>qe_id = 1, qe_ctx = of_group ''b''\<rparr>"
  let ?q = "\<lambda>es n. \<lparr>q_list = es, q_ordering = OrderingFIFO, q_fresh = n\<rparr>"
  let ?at = "\<lambda>d q. ?l\<lparr>ql_delegate := d, ql_backlog := q\<rparr>"
  note one = pair_grant [OF p0, of 0]
  obtain kb d1 where kb: "lim_Acquire pair_ops 0 (of_group ''b'') l0 = (Some kb, d1)" "pair (dl_strategy d1) 0 1"
    "releaseFunc (ls_token kb) = Some 1" using one by auto
  obtain ka d2 where ka: "lim_Acquire pair_ops 0 (of_group ''a'') d1 = (Some ka, d2)" "pair (dl_strategy d2) 1 1"
    using pair_grant(1) [OF kb(2), of 0] by auto
  let ?d3 = "lim_Complete pair_ops undefined Ignored kb d2"
  have d3: "pair (dl_strategy ?d3) 1 0" using pair_ignored [OF ka(2) kb(3)] by simp
  obtain k' d4 where k': "lim_Acquire pair_ops 0 (of_group ''a'') ?d3 = (Some k', d4)" "pair (dl_strategy d4) 2 0"
    using pair_grant(1) [OF d3, of 0] by auto
  have w0: "queue_reach pair_ops ?l (between ?l [])"
    using queue_reach.start [of pair_ops ?l 0] by (simp add: between_def)
  have w1: "queue_reach pair_ops ?l (between (?at d1 (?q [] 0)) [QHolding kb])"
    using between_granted [OF w0, of "of_group ''b''" kb d1] kb(1) by (simp add: new_fifo)
  have w2: "queue_reach pair_ops ?l (between (?at d2 (?q [] 0)) [QHolding kb, QHolding ka])"
    using between_granted [OF w1, of "of_group ''a''" ka d2] ka(1) by (simp add: new_fifo)
  have w3: "queue_reach pair_ops ?l (between (?at d2 (?q [?a] 1)) [QHolding kb, QHolding ka, QWaiting (of_group ''a'') 0 0])"
    using between_queued [OF w2, of "of_group ''a''" d2 0 "?q [?a] 1"] pair_refuse(1) [OF ka(2), of 0]
    by (simp add: pushWithCapacity_def queue_len_def new_fifo)
  have w4: "queue_reach pair_ops ?l (between (?at d2 (?q [?b, ?a] 2))
      [QHolding kb, QHolding ka, QWaiting (of_group ''a'') 0 0, QWaiting (of_group ''b'') 1 0])"
    using between_queued [OF w3, of "of_group ''b''" d2 1 "?q [?b, ?a] 2"] pair_refuse(2) [OF ka(2), of 0]
    by (simp add: pushWithCapacity_def queue_len_def new_fifo)
  have w5: "queue_reach pair_ops ?l (between ((?l\<lparr>ql_backlog := ?q [?b] 2\<rparr>)\<lparr>ql_delegate := d4\<rparr>)
      [QDone, QHolding ka, QHolding k', QWaiting (of_group ''b'') 1 0])"
    using between_handover [OF w4, of 0 kb ?a undefined Ignored k' d4 2 "of_group ''a''" 0] k'(1)
    by (simp add: queue_peek_def evictionFunc_def new_fifo)
  then show ?thesis using k'(2) by (rule that) (simp_all add: new_fifo)
qed

text \<open>A queue limiter can withhold a partition's share: with a FIFO queue over a limiter of two tokens shared
  equally by two partitions and the timeout disabled, a state is reachable in which a caller of the second
  partition waits in the backlog although none of that partition's share is in use and the delegate would grant its request
  at once (a newcomer would overtake it), and it stays there until another request completes or arrives.\<close>

theorem queue_starves_partition:
  "\<exists>store' s e l0 k k' w.
     NewLookupPartitionStrategyWithMetricRegistry [(''a'', 0), (''b'', 1)] None 2 EmptyMetricRegistry 2 (\<lambda>_. half_partition)
       = (store', Inr (Some (s, e)))
     \<and> NewDefaultLimiter fixed_ops lookup_ops 0 (Some (fst (NewFixedLimit ''f'' 2 NilRegistry []))) 1 1 0 10 (Some s) None NilRegistry
       = Inr l0
     \<and> queue_reach (default_delegate fixed_ops lookup_ops) (fst (NewFifoBlockingLimiter l0 10 (- 1))) w
     \<and> part_BusyCount (lk_store (dl_strategy (delegate_of w)) 1) = 0 \<and> part_Limit (lk_store (dl_strategy (delegate_of w)) 1) = 1
     \<and> fst (lim_Acquire (default_delegate fixed_ops lookup_ops) 0 (of_group ''b'') (delegate_of w)) \<noteq> None
     \<and> {w'. (waiting_step (default_delegate fixed_ops lookup_ops))\<^sup>*\<^sup>* w w'}
         \<subseteq> {w'. qw_gs w' = [QDone, QHolding k, QHolding k', QWaiting (of_group ''b'') 1 0] \<and> delegate_of w' = delegate_of w}"
proof -
  obtain store' s e l0 where new: "NewLookupPartitionStrategyWithMetricRegistry [(''a'', 0), (''b'', 1)] None 2 EmptyMetricRegistry 2
      (\<lambda>_. half_partition) = (store', Inr (Some (s, e)))"
    and l0: "NewDefaultLimiter fixed_ops lookup_ops 0 (Some (fst (NewFixedLimit ''f'' 2 NilRegistry []))) 1 1 0 10 (Some s) None NilRegistry
      = Inr l0"
    and p0: "pair (dl_strategy l0) 0 0"
    by (rule new_pair)
  obtain k k' d l where w: "queue_reach pair_ops (fst (NewFifoBlockingLimiter l0 10 (- 1)))
      (between (l\<lparr>ql_delegate := d\<rparr>) [QDone, QHolding k, QHolding k', QWaiting (of_group ''b'') 1 0])"
      (is "queue_reach _ _ ?w")
    and d: "pair (dl_strategy d) 2 0" and l: "ql_maxBacklogTimeout l = - 1" "\<not> ql_backlogEvictDoneCtx l"
    using p0 by (rule pair_run)
  have "starving k k' (of_group ''b'') ?w" using l by (simp add: starving_def)
  then have "qw_gs w' = [QDone, QHolding k, QHolding k', QWaiting (of_group ''b'') 1 0] \<and> delegate_of w' = d"
    if "(waiting_step pair_ops)\<^sup>*\<^sup>* ?w w'" for w'
    using starving_steps [OF that] by (simp add: starving_def)
  moreover have "fst (lim_Acquire pair_ops 0 (of_group ''b'') d) \<noteq> None" using pair_grant(2) [OF d, of 0] by auto
  moreover have "part_BusyCount (lk_store (dl_strategy d) 1) = 0" "part_Limit (lk_store (dl_strategy d) 1) = 1"
    using d by (simp_all add: pair_def part_BusyCount_def part_Limit_def)
  ultimately show ?thesis using new l0 w
    by (intro exI [of _ store'] exI [of _ s] exI [of _ e] exI [of _ l0] exI [of _ k] exI [of _ k'] exI [of _ ?w]) auto
qed

section \<open>One request stops a queue\<close>

text \<open>
  A FIFO queue whose head is a request that the delegate never grants, with no timeout and no eviction of done
  contexts; nobody is past the peek but for the head.
\<close>

fun wedge_ok :: "nat \<Rightarrow> ctx \<Rightarrow> 'k qgoroutine \<Rightarrow> bool" where
  "wedge_ok n c (QPeeked m c') \<longleftrightarrow> m = n \<and> c' = c"
| "wedge_ok n c (QGranted m k) \<longleftrightarrow> False"
| "wedge_ok n c (QOffering m k) \<longleftrightarrow> False"
| "wedge_ok n c (QLeaving m) \<longleftrightarrow> False"
| "wedge_ok n c _ \<longleftrightarrow> True"

context hopeless_requests
begin

definition wedged :: "nat \<Rightarrow> ctx \<Rightarrow> ('d, 'k) qworld \<Rightarrow> bool" where
  "wedged n c w \<longleftrightarrow> never c (delegate_of w) \<and> queue_peek (backlog_of w) = Some \<lparr>qe_id = n, qe_ctx = c\<rparr>
     \<and> q_ordering (backlog_of w) = OrderingFIFO
     \<and> ql_maxBacklogTimeout (qw_limiter w) \<le> 0 \<and> \<not> ql_backlogEvictDoneCtx (qw_limiter w)
     \<and> (\<forall>g\<in>set (qw_gs w). wedge_ok n c g)"

lemma wedged_at: "wedged n c w \<Longrightarrow> qat w i g \<Longrightarrow> wedge_ok n c g"
  by (auto simp: wedged_def qat_def)

lemma wedged_set:
  assumes "wedged n c w" and "wedge_ok n c g" and "never c (delegate_of v)" and "qw_gs v = qw_gs w"
    and "queue_peek (backlog_of v) = queue_peek (backlog_of w)" and "q_ordering (backlog_of v) = q_ordering (backlog_of w)"
    and "ql_maxBacklogTimeout (qw_limiter v) = ql_maxBacklogTimeout (qw_limiter w)"
    and "ql_backlogEvictDoneCtx (qw_limiter v) = ql_backlogEvictDoneCtx (qw_limiter w)"
  shows "wedged n c (qset i g v)"
  using assms in_list_update [of _ "qw_gs w" i g] unfolding wedged_def by (auto simp: qset_def)

lemma wedged_tryAcquire:
  assumes "queue_tryAcquire dops i w w'" and "wedged n c w"
  shows "wedged n c w'"
  using assms
proof (induction rule: queue_tryAcquire.induct)
  case (acquired w c' k d)
  then show ?case using never_acquire [OF _ acquired.hyps(2)] by (intro wedged_set [OF acquired.prems]) (simp_all add: wedged_def set_delegate_def)
next
  case (refused w c' d)
  then show ?case using never_acquire [OF _ refused.hyps(2)] by (intro wedged_set [OF refused.prems]) (simp_all add: wedged_def set_delegate_def)
next
  case (push w c' m q)
  then show ?case
    by (intro wedged_set [OF push.prems])
      (auto simp: wedged_def set_backlog_def pushWithCapacity_def queue_peek_def split: if_splits)
next
  case (full w c' e)
  then show ?case by (intro wedged_set [OF full.prems]) (simp_all add: wedged_def)
next
  case (select w c' m)
  then show ?case by (intro wedged_set [OF select.prems]) (simp_all add: wedged_def)
next
  case (evict w m)
  then show ?case by (auto dest: wedged_at)
qed (simp_all add: wedged_def)

lemma wedged_unblock:
  assumes "queue_unblock dops i w w'" and "wedged n c w"
  shows "wedged n c w'"
  using assms
proof (induction rule: queue_unblock.induct)
  case (grant w m c' k d)
  then have "c' = c" using wedged_at [OF grant.prems grant.hyps(1)] by simp
  then have False using never_refused [OF _ grant.hyps(2)] grant.prems by (simp add: wedged_def)
  then show ?case ..
next
  case (no_grant w m c' d)
  then show ?case using never_acquire [OF _ no_grant.hyps(2)]
    by (intro wedged_set [OF no_grant.prems]) (simp_all add: wedged_def set_delegate_def)
next
  case (peek w e)
  then show ?case by (intro wedged_set [OF peek.prems]) (auto simp: wedged_def)
next
  case (empty w)
  then show ?case by (simp add: wedged_def)
qed (auto dest: wedged_at)

lemma wedged_step:
  assumes "queue_step dops w w'" and "wedged n c w"
  shows "wedged n c w'"
  using assms(1)
proof cases
  case (complete j k rd oc)
  then have "never c (lim_Complete dops rd oc k (delegate_of w))" using assms(2) by (simp add: wedged_def never_complete)
  then show ?thesis unfolding complete(1) by (intro wedged_set [OF assms(2)]) (simp_all add: set_delegate_def)
next
  case (tryAcquire j)
  then show ?thesis using assms(2) by (rule wedged_tryAcquire)
next
  case (unblock j)
  then show ?thesis using assms(2) by (rule wedged_unblock)
qed (use assms(2) in \<open>auto simp: wedged_def\<close>)

lemma wedged_waits:
  assumes "queue_step dops w w'" and "wedged n c w" and "qat w j (QWaiting c' m s)"
  shows "qat w' j (QWaiting c' m s)"
  using assms(1)
proof cases
  case (tryAcquire i)
  then show ?thesis by cases
    (use assms(2,3) wedged_at [OF assms(2)] in \<open>force simp: wedged_def qat_def qset_def set_delegate_def set_backlog_def nth_list_update\<close>)+
next
  case (unblock i)
  have "\<not> qat w i (QOffering a k)" for a k using wedged_at [OF assms(2), of i "QOffering a k"] by auto
  with unblock show ?thesis
    by cases (use assms(3) in \<open>auto simp: qat_def qset_def set_delegate_def set_backlog_def nth_list_update\<close>)
qed (use assms(3) in \<open>auto simp: qat_def qset_def set_delegate_def nth_append nth_list_update\<close>)

lemma wedged_steps:
  "(queue_step dops)\<^sup>*\<^sup>* w w' \<Longrightarrow> wedged n c w \<Longrightarrow> qat w j (QWaiting c' m s) \<Longrightarrow> wedged n c w' \<and> qat w' j (QWaiting c' m s)"
  by (induction rule: rtranclp_induct) (auto intro: wedged_step wedged_waits)

end

text \<open>A limiter with one token and one partition, for requests that name it.\<close>

abbreviation known :: ctx where
  "known \<equiv> [(StringPredicateContextKey, StringValue ''a'')]"

abbreviation known_store :: "nat \<Rightarrow> ppartition" where
  "known_store \<equiv> \<lambda>_. \<lparr>pt_name = ''a'', pt_percent = Fin (1 / 2), pt_listener = EmptyMetricSampleListener, pt_limit = 1, pt_busy = 0,
     pp_predicate = StringPredicateMatcher ''a'' False\<rparr>"

definition solo :: "predicate_strategy \<Rightarrow> int \<Rightarrow> bool" where
  "solo s x \<longleftrightarrow> pd_partitions s = [0] \<and> pp_predicate (pd_store s 0) = StringPredicateMatcher ''a'' False \<and> pd_limit s = 1
     \<and> pd_busy s = x \<and> pt_limit (pd_store s 0) = 1 \<and> pt_busy (pd_store s 0) = x"

lemma solo_match: "solo s x \<Longrightarrow> first_match known s = Some 0" "solo s x \<Longrightarrow> first_match [] s = None"
  by (simp_all add: solo_def first_match_def StringPredicateMatcher_def Value_def)

abbreviation solo_ops :: "((fixed, predicate_strategy) default_limiter, nat default_listener) delegate_ops" where
  "solo_ops \<equiv> default_delegate fixed_ops predicate_ops"

lemma solo_steps:
  shows "solo (dl_strategy l) 0 \<Longrightarrow> \<exists>k l'. lim_Acquire solo_ops now known l = (Some k, l') \<and> solo (dl_strategy l') 1
      \<and> releaseFunc (ls_token k) = Some 0"
    and "solo (dl_strategy l) 1 \<Longrightarrow> lim_Acquire solo_ops now known l = (None, l)"
    and "solo (dl_strategy l) x \<Longrightarrow> lim_Acquire solo_ops now [] l = (None, l)"
    and "solo (dl_strategy l) 1 \<Longrightarrow> releaseFunc (ls_token k) = Some 0 \<Longrightarrow>
      solo (dl_strategy (lim_Complete solo_ops rd Ignored k l)) 0"
  using solo_match [of "dl_strategy l"]
  by (auto simp: default_delegate_def limiter_Acquire_def predicate_ops_def predicate_TryAcquire_find part_IsLimitExceeded_def
      part_Acquire_def solo_def listener_OnIgnore_def listener_free_def listener_count_def token_Release_def
      predicate_releasePartition_def part_Release_def i32_def Let_def)

lemma new_solo:
  obtains store' s e l0 where
    "NewPredicatePartitionStrategyWithMetricRegistry [0] 1 EmptyMetricRegistry known_store = (store', Inr (Some (s, e)))"
    and "NewDefaultLimiter fixed_ops predicate_ops 0 (Some (fst (NewFixedLimit ''f'' 1 NilRegistry []))) 1 1 0 10 (Some s) None NilRegistry
      = Inr l0"
    and "solo (dl_strategy l0) 0"
proof -
  have half: "rnd (1 / 2) = 1 / 2" using rnd_dyadic [of 1 "- 1"] by (simp add: power_int_def)
  let ?s = "\<lparr>pd_partitions = [0], pd_busy = 0, pd_limit = 1, pd_store = update_all 1 [0] known_store\<rparr>"
  have "\<not> fless (lit 1) (sum_percent known_store [0])"
    by (simp add: sum_percent_def part_Percent_def f64_exact mk_small half)
  then obtain store' e where new: "NewPredicatePartitionStrategyWithMetricRegistry [0] 1 EmptyMetricRegistry known_store
      = (store', Inr (Some (?s, e)))"
    by (simp add: NewPredicatePartitionStrategyWithMetricRegistry_def Let_def)
  have "pt_limit (part_UpdateLimit 1 (known_store 0)) = 1"
    using part_UpdateLimit_share(1) [of 1 "known_store 0" "1 / 2"] half by simp
  moreover have "pp_predicate (part_UpdateLimit 1 p) = pp_predicate p" for p :: ppartition by (simp add: part_UpdateLimit_def)
  ultimately have "solo ?s 0" by (simp add: solo_def update_all_def)
  moreover have "predicate_SetLimit 1 ?s = ?s" by (simp add: predicate_SetLimit_def i32_def)
  moreover have "EstimatedLimit fixed_ops (fst (NewFixedLimit ''f'' 1 NilRegistry [])) = 1"
    by (simp add: fixed_ops_def fixed_EstimatedLimit_def NewFixedLimit_def Let_def case_prod_beta)
  ultimately show ?thesis using that [OF new] by (simp add: NewDefaultLimiter_def predicate_ops_def)
qed

text \<open>A known request holds the token; an unknown one and a known one queue, in this order. Then the token comes back.\<close>

lemma solo_run:
  assumes s0: "solo (dl_strategy l0) 0"
  obtains d l where "queue_reach solo_ops (fst (NewFifoBlockingLimiter l0 10 (- 1)))
      (between (l\<lparr>ql_delegate := d\<rparr>) [QDone, QWaiting [] 0 0, QWaiting known 1 0])"
    and "solo (dl_strategy d) 0" and "unmatched.wedged 0 [] (between (l\<lparr>ql_delegate := d\<rparr>) [QDone, QWaiting [] 0 0, QWaiting known 1 0])"
proof -
  let ?l = "fst (NewFifoBlockingLimiter l0 10 (- 1)) :: (fixed, predicate_strategy) default_limiter queue_limiter"
  let ?u = "\<lparr>qe_id = 0, qe_ctx = []\<rparr>" and ?k = "\<lparr>qe_id = 1, qe_ctx = known\<rparr>"
  let ?q = "\<lambda>es n. \<lparr>q_list = es, q_ordering = OrderingFIFO, q_fresh = n\<rparr>"
  let ?at = "\<lambda>d q. ?l\<lparr>ql_delegate := d, ql_backlog := q\<rparr>"
  obtain k d1 where k: "lim_Acquire solo_ops 0 known l0 = (Some k, d1)" "solo (dl_strategy d1) 1" "releaseFunc (ls_token k) = Some 0"
    using solo_steps(1) [OF s0, of 0] by blast
  let ?d2 = "lim_Complete solo_ops undefined Ignored k d1"
  have d2: "solo (dl_strategy ?d2) 0" using solo_steps(4) [OF k(2,3)] .
  have w0: "queue_reach solo_ops ?l (between ?l [])"
    using queue_reach.start [of solo_ops ?l 0] by (simp add: between_def)
  have w1: "queue_reach solo_ops ?l (between (?at d1 (?q [] 0)) [QHolding k])"
    using between_granted [OF w0, of known k d1] k(1) by (simp add: new_fifo)
  have w2: "queue_reach solo_ops ?l (between (?at d1 (?q [?u] 1)) [QHolding k, QWaiting [] 0 0])"
    using between_queued [OF w1, of "[]" d1 0 "?q [?u] 1"] solo_steps(3) [OF k(2), of 0]
    by (simp add: pushWithCapacity_def queue_len_def new_fifo)
  have w3: "queue_reach solo_ops ?l (between (?at d1 (?q [?k, ?u] 2)) [QHolding k, QWaiting [] 0 0, QWaiting known 1 0])"
    using between_queued [OF w2, of known d1 1 "?q [?k, ?u] 2"] solo_steps(2) [OF k(2), of 0]
    by (simp add: pushWithCapacity_def queue_len_def new_fifo)
  have w4: "queue_reach solo_ops ?l (between ((?l\<lparr>ql_backlog := ?q [?k, ?u] 2\<rparr>)\<lparr>ql_delegate := ?d2\<rparr>)
      [QDone, QWaiting [] 0 0, QWaiting known 1 0])" (is "queue_reach _ _ ?w")
    using between_not_granted [OF w3, of 0 k ?u undefined Ignored ?d2] solo_steps(3) [OF d2, of 0]
    by (simp add: queue_peek_def new_fifo)
  have "unmatched.wedged 0 [] ?w"
    using solo_match(2) [OF d2] by (simp add: unmatched.wedged_def no_partition_def queue_peek_def new_fifo)
  then show ?thesis using w4 d2 by (intro that)
qed

text \<open>C22: One request can stop a queue for good: with a FIFO queue over predicate partitions and the timeout
  disabled, a state is reachable in which no token is taken and yet a caller whose request the delegate would grant
  waits in the backlog, and it waits there in every later state, whoever arrives or completes: at the head of the backlog is a
  request that matches no partition, and \<open>unblock\<close> never looks past it.\<close>

theorem queue_stopped:
  "\<exists>store' s e l0 w.
     NewPredicatePartitionStrategyWithMetricRegistry [0] 1 EmptyMetricRegistry known_store = (store', Inr (Some (s, e)))
     \<and> NewDefaultLimiter fixed_ops predicate_ops 0 (Some (fst (NewFixedLimit ''f'' 1 NilRegistry []))) 1 1 0 10 (Some s) None NilRegistry
       = Inr l0
     \<and> queue_reach (default_delegate fixed_ops predicate_ops) (fst (NewFifoBlockingLimiter l0 10 (- 1))) w
     \<and> predicate_BusyCount (dl_strategy (delegate_of w)) = 0
     \<and> fst (lim_Acquire (default_delegate fixed_ops predicate_ops) 0 known (delegate_of w)) \<noteq> None
     \<and> {w'. (queue_step (default_delegate fixed_ops predicate_ops))\<^sup>*\<^sup>* w w'} \<subseteq> {w'. qat w' 2 (QWaiting known 1 0)}"
proof -
  obtain store' s e l0 where new: "NewPredicatePartitionStrategyWithMetricRegistry [0] 1 EmptyMetricRegistry known_store
      = (store', Inr (Some (s, e)))"
    and l0: "NewDefaultLimiter fixed_ops predicate_ops 0 (Some (fst (NewFixedLimit ''f'' 1 NilRegistry []))) 1 1 0 10 (Some s) None
      NilRegistry = Inr l0"
    and s0: "solo (dl_strategy l0) 0"
    by (rule new_solo)
  let ?at = "\<lambda>l d. between (l\<lparr>ql_delegate := d\<rparr>) [QDone, QWaiting [] 0 0, QWaiting known 1 0]"
  obtain d l where w: "queue_reach solo_ops (fst (NewFifoBlockingLimiter l0 10 (- 1))) (?at l d)"
    and d: "solo (dl_strategy d) 0" and wedged: "unmatched.wedged 0 [] (?at l d)"
    using s0 by (rule solo_run)
  let ?w = "?at l d"
  have "qat ?w 2 (QWaiting known 1 0)" by (simp add: qat_def)
  then have "qat w' 2 (QWaiting known 1 0)" if "(queue_step solo_ops)\<^sup>*\<^sup>* ?w w'" for w'
    using unmatched.wedged_steps [OF that wedged] by blast
  moreover have "fst (lim_Acquire solo_ops 0 known d) \<noteq> None" using solo_steps(1) [OF d, of 0] by auto
  moreover have "predicate_BusyCount (dl_strategy d) = 0" using d by (simp add: predicate_BusyCount_def solo_def)
  ultimately show ?thesis using new l0 w
    by (intro exI [of _ store'] exI [of _ s] exI [of _ e] exI [of _ l0] exI [of _ ?w]) auto
qed

end
