(* ===== verification/Interceptor.thy ===== *)
theory Interceptor
  imports Limiter_Delegate
begin

text \<open>
  What the HTTP middleware (\<open>http\<close>) and the gRPC interceptors (\<open>grpc\<close>) share: a call is guarded by a
  limiter, its result is classified, and the classification says how the listener is completed.
\<close>

section \<open>Response types\<close>

text \<open>\<open>ResponseType\<close> is an \<open>int\<close>: a custom classifier can return any number.\<close>

definition ResponseTypeSuccess :: int where "ResponseTypeSuccess = 0"
definition ResponseTypeIgnore :: int where "ResponseTypeIgnore = 1"
definition ResponseTypeDropped :: int where "ResponseTypeDropped = 2"

lemmas response_types = ResponseTypeSuccess_def ResponseTypeIgnore_def ResponseTypeDropped_def

text \<open>The switch that completes the listener; it has no default branch.\<close>

definition complete_as :: "('d, 'k) delegate_ops \<Rightarrow> rand \<Rightarrow> int \<Rightarrow> 'k \<Rightarrow> 'd \<Rightarrow> 'd" where
  "complete_as dops rd respType k d =
     (if respType = ResponseTypeSuccess then lim_Complete dops rd Succeeded k d
      else if respType = ResponseTypeIgnore then lim_Complete dops rd Ignored k d
      else if respType = ResponseTypeDropped then lim_Complete dops rd WasDropped k d
      else d)"

section \<open>Guarded calls\<close>

text \<open>
  A guarded call: it acquires with the context of its input; refused, it leaves the limiter as the
  refusal did; granted, it runs, and the listener is completed as its result is classified.
  \<open>None\<close> as a classification: the guarded code panics, and nothing completes the listener.
\<close>

locale guarded_call =
  fixes dops :: "('d, 'k) delegate_ops"
    and call :: "int \<Rightarrow> rand \<Rightarrow> 'x \<Rightarrow> 'd \<Rightarrow> 'y \<times> 'd"
    and ctx_of :: "'x \<Rightarrow> ctx"
    and class_of :: "'x \<Rightarrow> int option"
  assumes call_refused: "lim_Acquire dops now (ctx_of x) d = (None, d') \<Longrightarrow> snd (call now rd x d) = d'"
    and call_granted: "lim_Acquire dops now (ctx_of x) d = (Some k, d') \<Longrightarrow>
      snd (call now rd x d) = (case class_of x of None \<Rightarrow> d' | Some t \<Rightarrow> complete_as dops rd t k d')"

text \<open>What is left of a granted request: finished when the classification completes its listener.\<close>

definition request_after :: "int option \<Rightarrow> 'r default_listener \<Rightarrow> 'r request" where
  "request_after cls ls = (if cls \<in> {Some ResponseTypeSuccess, Some ResponseTypeIgnore, Some ResponseTypeDropped}
     then Finished else Running ls)"

lemma request_after_simps:
  "t \<in> {ResponseTypeSuccess, ResponseTypeIgnore, ResponseTypeDropped} \<Longrightarrow> request_after (Some t) ls = Finished"
  "request_after None ls = Running ls"
  by (auto simp: request_after_def)

text \<open>
  Over a default limiter: a guarded call takes the limiter through steps of the concurrent model. A
  classified call adds a finished request, one that panics or is classified outside the
  three response types leaves a request that runs forever.
\<close>

locale guarded_default = guarded_call "default_delegate lops sops" call ctx_of class_of
  for lops :: "'l limit_ops" and sops :: "('s, 'r) strategy_ops" and call ctx_of class_of
begin

lemma completed_steps:
  assumes "limiter_Acquire sops now (ctx_of x) l = (Some ls, l', e)"
  shows "(limiter_step lops sops)\<^sup>*\<^sup>* (l', rs @ [Running ls]) (snd (call now rd x l), rs @ [request_after (class_of x) ls])"
proof -
  have acq: "lim_Acquire (default_delegate lops sops) now (ctx_of x) l = (Some ls, l')"
    using assms by (simp add: default_delegate_def)
  have steps: "(limiter_step lops sops)\<^sup>*\<^sup>* (l', rs @ [Running ls])
      (lim_Complete (default_delegate lops sops) rd oc ls l', rs @ [Finished])" for oc
    using handlers_are_steps [of "length rs" "rs @ [Running ls]" ls lops sops l' rd]
    by (cases oc) (simp_all add: default_delegate_def)
  show ?thesis using call_granted [OF acq, of rd] steps
    by (auto simp: request_after_def complete_as_def response_types split: option.splits)
qed

lemma call_steps:
  assumes "length (filter holds_token rs) < 2 ^ 31 - 1"
  shows "(limiter_step lops sops)\<^sup>*\<^sup>* (l, rs) (snd (call now rd x l),
    case fst (limiter_Acquire sops now (ctx_of x) l) of None \<Rightarrow> rs | Some ls \<Rightarrow> rs @ [request_after (class_of x) ls])"
proof (cases "limiter_Acquire sops now (ctx_of x) l")
  case (fields found l' e)
  show ?thesis
  proof (cases found)
    case None
    then have "snd (call now rd x l) = l'" using call_refused [of now x l l' rd] fields by (simp add: default_delegate_def)
    then show ?thesis using limiter_step.refused [of sops now "ctx_of x" l l' e lops rs] fields None by auto
  next
    case (Some ls)
    then have "limiter_step lops sops (l, rs) (l', rs @ [Running ls])"
      using limiter_step.granted [of sops now "ctx_of x" l ls l' e rs lops] assms fields by simp
    then show ?thesis using completed_steps [of now x l ls l' e rs rd] fields Some
      by (simp add: converse_rtranclp_into_rtranclp)
  qed
qed

end

end
