(* ===== verification/Interceptor_Http.thy ===== *)
theory Interceptor_Http
  imports Interceptor
begin

text \<open>
  \<open>http/http.go\<close> and \<open>http/option.go\<close>: the server middleware and the client round tripper. The
  handler behind the middleware, the transport behind the round tripper, the writer and
  \<open>http.Error\<close> of \<open>net/http\<close> are arguments; \<open>None\<close> as a result of the first two is a panic.
\<close>

section \<open>Response writers\<close>

record 'w response_writer =
  rw_ResponseWriter :: 'w
  rw_statusCode :: int

definition newResponseWriter :: "'w \<Rightarrow> 'w response_writer" where
  "newResponseWriter w = \<lparr>rw_ResponseWriter = w, rw_statusCode = 200\<rparr>"

text \<open>The wrapped writer may panic, as the one of \<open>net/http\<close> does on a code outside 100 to 999.\<close>

definition WriteHeader :: "(int \<Rightarrow> 'w \<Rightarrow> 'w option) \<Rightarrow> int \<Rightarrow> 'w response_writer \<Rightarrow> 'w response_writer option" where
  "WriteHeader writeHeader code rw =
     (let rw = rw\<lparr>rw_statusCode := code\<rparr>
      in map_option (\<lambda>w. rw\<lparr>rw_ResponseWriter := w\<rparr>) (writeHeader code (rw_ResponseWriter rw)))"

definition StatusCode :: "'w response_writer \<Rightarrow> int" where
  "StatusCode rw = rw_statusCode rw"

definition Unwrap :: "'w response_writer \<Rightarrow> 'w" where
  "Unwrap rw = rw_ResponseWriter rw"

section \<open>Classifiers\<close>

definition classifyStatusCode :: "int \<Rightarrow> int" where
  "classifyStatusCode code =
     (if code = 429 then ResponseTypeDropped
      else if code \<ge> 500 then ResponseTypeDropped
      else if code \<ge> 400 then ResponseTypeIgnore
      else ResponseTypeSuccess)"

text \<open>A request is its context and the rest of it; a response its status code and the rest of it.\<close>

type_synonym 'q http_request = "ctx \<times> 'q"

record 'b http_response =
  hr_StatusCode :: int
  hr_rest :: 'b

definition defaultServerResponseClassifier :: "'q http_request \<Rightarrow> 'w response_writer \<Rightarrow> 'e option \<Rightarrow> int" where
  "defaultServerResponseClassifier r w err =
     (if err \<noteq> None then ResponseTypeDropped else classifyStatusCode (StatusCode w))"

definition defaultClientResponseClassifier :: "'b http_response option \<Rightarrow> 'e option \<Rightarrow> int" where
  "defaultClientResponseClassifier resp err =
     (if err \<noteq> None then ResponseTypeDropped
      else case resp of None \<Rightarrow> ResponseTypeIgnore | Some r \<Rightarrow> classifyStatusCode (hr_StatusCode r))"

section \<open>Configuration\<close>

text \<open>The limiter of a configuration: the default one, one given by the caller, or nil.\<close>

datatype 'd http_limiter = DefaultLimiter "(vegas, simple) default_limiter" | CustomLimiter 'd | NilLimiter

datatype ('d, 'e) http_error = LimitExceededError "'d http_limiter" | OtherError 'e

text \<open>The functions of a configuration may be nil (\<open>None\<close>); calling a nil function panics.\<close>

record ('d, 'w, 'q, 'b, 'e) http_config =
  hc_name :: string
  hc_tags :: "string list"
  hc_limiter :: "'d http_limiter"
  hc_limitExceededHandler :: "('w \<Rightarrow> 'q http_request \<Rightarrow> 'd http_limiter \<Rightarrow> 'w) option"
  hc_serverResponseClassifier :: "('q http_request \<Rightarrow> 'w response_writer \<Rightarrow> 'e option \<Rightarrow> int) option"
  hc_clientResponseClassifier :: "('b http_response option \<Rightarrow> 'e option \<Rightarrow> int) option"

definition zero_config :: "('d, 'w, 'q, 'b, 'e) http_config" where
  "zero_config = \<lparr>hc_name = '''', hc_tags = [], hc_limiter = NilLimiter, hc_limitExceededHandler = None,
     hc_serverResponseClassifier = None, hc_clientResponseClassifier = None\<rparr>"

text \<open>
  What the defaults read from outside: \<open>math.Log10\<close> and its table for the Vegas limit, the random
  numbers, \<open>http.Error\<close> and the printing of a limiter.
\<close>

record ('d, 'w) http_env =
  he_Log10 :: "float64 \<Rightarrow> float64"
  he_table :: "int list"
  he_rand :: rand
  he_Error :: "'w \<Rightarrow> string \<Rightarrow> int \<Rightarrow> 'w"
  he_show :: "'d http_limiter \<Rightarrow> string"

definition defaultLimitExceededHandler ::
    "('d, 'w) http_env \<Rightarrow> 'w \<Rightarrow> 'q http_request \<Rightarrow> 'd http_limiter \<Rightarrow> 'w" where
  "defaultLimitExceededHandler env w r l =
     he_Error env w (''concurrency limit exceeded for limiter='' @ he_show env l) 503"

definition applyDefaults :: "('d, 'w) http_env \<Rightarrow> ('d, 'w, 'q, 'b, 'e) http_config \<Rightarrow> ('d, 'w, 'q, 'b, 'e) http_config" where
  "applyDefaults env cfg =
     (let name = hc_name cfg;
          name = (if name = '''' then ''default'' else name);
          tags = hc_tags cfg
      in cfg\<lparr>hc_limiter := (case NewDefaultLimiterWithDefaults (he_Log10 env) (he_table env) (he_rand env) simple_ops name
                              (Some (NewSimpleStrategy 1000)) (Some NoopLimitLogger) EmptyMetricRegistry tags of
                              Inl err \<Rightarrow> NilLimiter | Inr l \<Rightarrow> DefaultLimiter l),
             hc_limitExceededHandler := Some (defaultLimitExceededHandler env),
             hc_serverResponseClassifier := Some defaultServerResponseClassifier,
             hc_clientResponseClassifier := Some defaultClientResponseClassifier\<rparr>)"

type_synonym ('d, 'w, 'q, 'b, 'e) http_option = "('d, 'w, 'q, 'b, 'e) http_config \<Rightarrow> ('d, 'w, 'q, 'b, 'e) http_config"

definition WithName :: "string \<Rightarrow> ('d, 'w, 'q, 'b, 'e) http_option" where
  "WithName name = (\<lambda>cfg. cfg\<lparr>hc_name := name\<rparr>)"

definition WithTags :: "string list \<Rightarrow> ('d, 'w, 'q, 'b, 'e) http_option" where
  "WithTags tags = (\<lambda>cfg. cfg\<lparr>hc_tags := tags\<rparr>)"

definition WithLimiter :: "'d http_limiter \<Rightarrow> ('d, 'w, 'q, 'b, 'e) http_option" where
  "WithLimiter l = (\<lambda>cfg. cfg\<lparr>hc_limiter := l\<rparr>)"

definition WithLimitExceededHandler ::
    "('w \<Rightarrow> 'q http_request \<Rightarrow> 'd http_limiter \<Rightarrow> 'w) option \<Rightarrow> ('d, 'w, 'q, 'b, 'e) http_option" where
  "WithLimitExceededHandler h = (\<lambda>cfg. cfg\<lparr>hc_limitExceededHandler := h\<rparr>)"

definition WithServerResponseClassifier ::
    "('q http_request \<Rightarrow> 'w response_writer \<Rightarrow> 'e option \<Rightarrow> int) option \<Rightarrow> ('d, 'w, 'q, 'b, 'e) http_option" where
  "WithServerResponseClassifier c = (\<lambda>cfg. cfg\<lparr>hc_serverResponseClassifier := c\<rparr>)"

definition WithClientResponseClassifier ::
    "('b http_response option \<Rightarrow> 'e option \<Rightarrow> int) option \<Rightarrow> ('d, 'w, 'q, 'b, 'e) http_option" where
  "WithClientResponseClassifier c = (\<lambda>cfg. cfg\<lparr>hc_clientResponseClassifier := c\<rparr>)"

text \<open>The configuration part of the three constructors: the defaults first, then the options in order.\<close>

definition new_config :: "('d, 'w) http_env \<Rightarrow> ('d, 'w, 'q, 'b, 'e) http_option list \<Rightarrow> ('d, 'w, 'q, 'b, 'e) http_config" where
  "new_config env opts = foldl (\<lambda>cfg opt. opt cfg) (applyDefaults env zero_config) opts"

section \<open>The limiter in the context\<close>

text \<open>A context holds a reference to the limiter, here a number.\<close>

definition withLimiter :: "ctx \<Rightarrow> nat \<Rightarrow> ctx" where
  "withLimiter ctx l = WithValue ctx LimiterKey (LimiterValue l)"

definition LimiterFromContext :: "ctx \<Rightarrow> nat option" where
  "LimiterFromContext ctx = (case Value ctx LimiterKey of Some (LimiterValue l) \<Rightarrow> Some l | _ \<Rightarrow> None)"

section \<open>The middleware and the round tripper\<close>

datatype 'w served = Served "'w response_writer" | Rejected 'w | Panicked

text \<open>The handler of \<open>NewServerMiddleware\<close> around \<open>next\<close>.\<close>

definition server_ServeHTTP ::
    "('d, 'k) delegate_ops \<Rightarrow> ('d, 'w, 'q, 'b, 'e) http_config \<Rightarrow> nat \<Rightarrow> int \<Rightarrow> rand
     \<Rightarrow> ('w response_writer \<Rightarrow> 'q http_request \<Rightarrow> 'w response_writer option) \<times> 'w \<times> 'q http_request \<Rightarrow> 'd \<Rightarrow> 'w served \<times> 'd" where
  "server_ServeHTTP dops cfg ref now rd = (\<lambda>(handler, w, c, q) d.
     let ctx = withLimiter c ref in
     case lim_Acquire dops now ctx d of
       (None, d) \<Rightarrow>
         (case hc_limitExceededHandler cfg of
            None \<Rightarrow> (Panicked, d)
          | Some h \<Rightarrow> (Rejected (h w (ctx, q) (hc_limiter cfg)), d))
     | (Some token, d) \<Rightarrow>
         (case handler (newResponseWriter w) (ctx, q) of
            None \<Rightarrow> (Panicked, d)
          | Some rw \<Rightarrow>
              (case hc_serverResponseClassifier cfg of
                 None \<Rightarrow> (Panicked, d)
               | Some classify \<Rightarrow> (Served rw, complete_as dops rd (classify (ctx, q) rw None) token d))))"

datatype ('d, 'b, 'e) round_trip = Response "'b http_response option" "('d, 'e) http_error option" | RoundTripPanicked

definition client_RoundTrip ::
    "('d, 'k) delegate_ops \<Rightarrow> ('d, 'w, 'q, 'b, 'e) http_config \<Rightarrow> int \<Rightarrow> rand
     \<Rightarrow> ('q http_request \<Rightarrow> ('b http_response option \<times> 'e option) option) \<times> 'q http_request \<Rightarrow> 'd
     \<Rightarrow> ('d, 'b, 'e) round_trip \<times> 'd" where
  "client_RoundTrip dops cfg now rd = (\<lambda>(base, r) d.
     case lim_Acquire dops now (fst r) d of
       (None, d) \<Rightarrow> (Response None (Some (LimitExceededError (hc_limiter cfg))), d)
     | (Some token, d) \<Rightarrow>
         (case base r of
            None \<Rightarrow> (RoundTripPanicked, d)
          | Some (resp, err) \<Rightarrow>
              (case hc_clientResponseClassifier cfg of
                 None \<Rightarrow> (RoundTripPanicked, d)
               | Some classify \<Rightarrow>
                   (Response resp (map_option OtherError err), complete_as dops rd (classify resp err) token d))))"

text \<open>The constructors of round trippers, and the text of the error.\<close>

record ('d, 'w, 'q, 'b, 'e) client_round_tripper =
  rt_cfg :: "('d, 'w, 'q, 'b, 'e) http_config"
  rt_base :: "'q http_request \<Rightarrow> ('b http_response option \<times> 'e option) option"

definition NewClientRoundTripperWithBase ::
    "('d, 'w) http_env \<Rightarrow> ('q http_request \<Rightarrow> ('b http_response option \<times> 'e option) option)
     \<Rightarrow> ('d, 'w, 'q, 'b, 'e) http_option list \<Rightarrow> ('d, 'w, 'q, 'b, 'e) client_round_tripper" where
  "NewClientRoundTripperWithBase env base opts =
     (let cfg = applyDefaults env zero_config; cfg = foldl (\<lambda>cfg opt. opt cfg) cfg opts
      in \<lparr>rt_cfg = cfg, rt_base = base\<rparr>)"

definition NewClientRoundTripper ::
    "('d, 'w) http_env \<Rightarrow> ('q http_request \<Rightarrow> ('b http_response option \<times> 'e option) option)
     \<Rightarrow> ('d, 'w, 'q, 'b, 'e) http_option list \<Rightarrow> ('d, 'w, 'q, 'b, 'e) client_round_tripper" where
  "NewClientRoundTripper env DefaultTransport opts =
     (let cfg = applyDefaults env zero_config; cfg = foldl (\<lambda>cfg opt. opt cfg) cfg opts
      in \<lparr>rt_cfg = cfg, rt_base = DefaultTransport\<rparr>)"

fun http_error_Error :: "('d, 'w) http_env \<Rightarrow> ('e \<Rightarrow> string) \<Rightarrow> ('d, 'e) http_error \<Rightarrow> string" where
  "http_error_Error env other (LimitExceededError l) = ''concurrency limit exceeded for limiter='' @ he_show env l"
| "http_error_Error env other (OtherError e) = other e"

text \<open>Both sides of HTTP report a refusal with the same text.\<close>

lemma same_refusal_text:
  "defaultLimitExceededHandler env w r l = he_Error env w (http_error_Error env other (LimitExceededError l)) 503"
  by (simp add: defaultLimitExceededHandler_def)

section \<open>Tokens\<close>

text \<open>How the middleware and the round tripper classify a call; \<open>None\<close> when something panics.\<close>

definition server_class :: "('d, 'w, 'q, 'b, 'e) http_config \<Rightarrow> nat
    \<Rightarrow> ('w response_writer \<Rightarrow> 'q http_request \<Rightarrow> 'w response_writer option) \<times> 'w \<times> 'q http_request \<Rightarrow> int option" where
  "server_class cfg ref = (\<lambda>(handler, w, c, q).
     Option.bind (handler (newResponseWriter w) (withLimiter c ref, q))
       (\<lambda>rw. map_option (\<lambda>classify. classify (withLimiter c ref, q) rw None) (hc_serverResponseClassifier cfg)))"

definition client_class :: "('d, 'w, 'q, 'b, 'e) http_config
    \<Rightarrow> ('q http_request \<Rightarrow> ('b http_response option \<times> 'e option) option) \<times> 'q http_request \<Rightarrow> int option" where
  "client_class cfg = (\<lambda>(base, r).
     Option.bind (base r) (\<lambda>(resp, err). map_option (\<lambda>classify. classify resp err) (hc_clientResponseClassifier cfg)))"

interpretation http_server: guarded_default lops sops "server_ServeHTTP (default_delegate lops sops) cfg ref"
    "\<lambda>(handler, w, c, q). withLimiter c ref" "server_class cfg ref" for lops sops cfg ref
  by unfold_locales
     (auto simp: server_ServeHTTP_def server_class_def Let_def split: option.splits prod.splits)

interpretation http_client: guarded_default lops sops "client_RoundTrip (default_delegate lops sops) cfg"
    "\<lambda>(base, r). fst r" "client_class cfg" for lops sops cfg
  by unfold_locales (auto simp: client_RoundTrip_def client_class_def split: option.splits prod.splits)

lemma classify_range: "classifyStatusCode code \<in> {ResponseTypeSuccess, ResponseTypeIgnore, ResponseTypeDropped}"
  by (simp add: classifyStatusCode_def)

lemma default_classifiers_range:
  "defaultServerResponseClassifier r w err \<in> {ResponseTypeSuccess, ResponseTypeIgnore, ResponseTypeDropped}"
  "defaultClientResponseClassifier resp err \<in> {ResponseTypeSuccess, ResponseTypeIgnore, ResponseTypeDropped}"
  using classify_range
  by (auto simp: defaultServerResponseClassifier_def defaultClientResponseClassifier_def simp del: insert_iff split: option.split)

lemma new_config_Nil:
  "hc_serverResponseClassifier (new_config env []) = Some defaultServerResponseClassifier"
  "hc_clientResponseClassifier (new_config env []) = Some defaultClientResponseClassifier"
  by (simp_all add: new_config_def applyDefaults_def Let_def)

lemma server_request_after:
  assumes "hc_serverResponseClassifier cfg = Some defaultServerResponseClassifier"
  shows "request_after (server_class cfg ref (handler, w, c, q)) ls
    = (if handler (newResponseWriter w) (withLimiter c ref, q) = None then Running ls else Finished)"
  using assms
  by (cases "handler (newResponseWriter w) (withLimiter c ref, q)")
    (simp_all add: server_class_def request_after_simps(1) [OF default_classifiers_range(1)] request_after_simps(2))

lemma client_request_after:
  assumes "hc_clientResponseClassifier cfg = Some defaultClientResponseClassifier"
  shows "request_after (client_class cfg (base, r)) ls = (if base r = None then Running ls else Finished)"
  using assms
  by (cases "base r")
    (auto simp: client_class_def request_after_simps(1) [OF default_classifiers_range(2)] request_after_simps(2))

text \<open>C35: The HTTP middleware and the round tripper return every token, unless the guarded code panics: over
  a default limiter with any strategy and limit algorithm, a call with the default classifier takes
  the limiter through steps of the concurrent model that add a finished request when it was granted
  and returned, none when it was refused, and one that runs forever when the guarded handler or
  transport panics (the listener is not completed on that path).\<close>

theorem http_token_returned:
  assumes "length (filter holds_token rs) < 2 ^ 31 - 1"
    and "hc_serverResponseClassifier cfg = Some defaultServerResponseClassifier"
    and "hc_clientResponseClassifier cfg = Some defaultClientResponseClassifier"
  shows "(limiter_step lops sops)\<^sup>*\<^sup>* (l, rs)
      (snd (server_ServeHTTP (default_delegate lops sops) cfg ref now rd (handler, w, c, q) l),
       case fst (limiter_Acquire sops now (withLimiter c ref) l) of
         None \<Rightarrow> rs
       | Some ls \<Rightarrow> rs @ [if handler (newResponseWriter w) (withLimiter c ref, q) = None then Running ls else Finished])
    \<and> (limiter_step lops sops)\<^sup>*\<^sup>* (l, rs)
      (snd (client_RoundTrip (default_delegate lops sops) cfg now rd (base, r) l),
       case fst (limiter_Acquire sops now (fst r) l) of
         None \<Rightarrow> rs
       | Some ls \<Rightarrow> rs @ [if base r = None then Running ls else Finished])"
  using http_server.call_steps [OF assms(1), of lops sops l cfg ref now rd "(handler, w, c, q)"]
    http_client.call_steps [OF assms(1), of lops sops l cfg now rd "(base, r)"]
  unfolding server_request_after [OF assms(2)] client_request_after [OF assms(3)] by simp

theorem http_token_returned_witness:
  "\<exists>ls l e. limiter_Acquire precise_ops 0 (withLimiter [] 7) one_limiter = (Some ls, l, e)
     \<and> (limiter_step fixed_ops precise_ops)\<^sup>*\<^sup>* (one_limiter, [])
         (snd (server_ServeHTTP (default_delegate fixed_ops precise_ops)
            (new_config undefined [] :: ((fixed, precise) default_limiter, unit, unit, unit, unit) http_config) 7 0 undefined
            (\<lambda>rw r. Some rw, (), [], ()) one_limiter), [Finished])"
proof -
  let ?cfg = "new_config undefined [] :: ((fixed, precise) default_limiter, unit, unit, unit, unit) http_config"
  obtain ls l e where acq: "limiter_Acquire precise_ops 0 (withLimiter [] 7) one_limiter = (Some ls, l, e)"
    by (rule one_limiter_grants)
  have "(limiter_step fixed_ops precise_ops)\<^sup>*\<^sup>* (one_limiter, [])
      (snd (server_ServeHTTP (default_delegate fixed_ops precise_ops) ?cfg 7 0 undefined (\<lambda>rw r. Some rw, (), [], ()) one_limiter),
       case fst (limiter_Acquire precise_ops 0 (withLimiter [] 7) one_limiter) of
         None \<Rightarrow> [] | Some ls \<Rightarrow> [] @ [if Some (newResponseWriter ()) = None then Running ls else Finished])"
    by (rule http_token_returned [THEN conjunct1]) (simp_all add: new_config_Nil)
  then have "(limiter_step fixed_ops precise_ops)\<^sup>*\<^sup>* (one_limiter, [])
      (snd (server_ServeHTTP (default_delegate fixed_ops precise_ops) ?cfg 7 0 undefined (\<lambda>rw r. Some rw, (), [], ()) one_limiter),
       [Finished])" by (simp add: acq)
  with acq show ?thesis by blast
qed

text \<open>A handler that writes a sequence of codes, and what becomes of the wrapped writer alone.\<close>

primrec write_codes :: "(int \<Rightarrow> 'w \<Rightarrow> 'w option) \<Rightarrow> int list \<Rightarrow> 'w response_writer \<Rightarrow> 'w response_writer option" where
  "write_codes writeHeader [] rw = Some rw"
| "write_codes writeHeader (code # codes) rw = Option.bind (WriteHeader writeHeader code rw) (write_codes writeHeader codes)"

primrec codes_written :: "(int \<Rightarrow> 'w \<Rightarrow> 'w option) \<Rightarrow> int list \<Rightarrow> 'w \<Rightarrow> 'w option" where
  "codes_written writeHeader [] w = Some w"
| "codes_written writeHeader (code # codes) w = Option.bind (writeHeader code w) (codes_written writeHeader codes)"

lemma write_codes:
  "write_codes writeHeader codes rw = map_option
     (\<lambda>w. \<lparr>rw_ResponseWriter = w, rw_statusCode = (if codes = [] then rw_statusCode rw else last codes)\<rparr>)
     (codes_written writeHeader codes (rw_ResponseWriter rw))"
  by (induction codes arbitrary: rw) (auto simp: WriteHeader_def Let_def split: Option.bind_split option.splits)

text \<open>C36: How the status code of a response reaches the limiter: the middleware takes the last code the
  handler wrote, or 200 when it wrote none, and completes the listener as dropped for 429 and for
  5xx and above, as ignored for the other 4xx, and as a success otherwise; and the handler finds
  the limiter in the context of its request. When the server's writer panics on one of the codes,
  the listener is not completed.\<close>

theorem http_status_outcome:
  assumes "hc_serverResponseClassifier cfg = Some defaultServerResponseClassifier"
    and "lim_Acquire dops now (withLimiter c ref) d = (Some k, d')"
    and "code = (if codes = [] then 200 else last codes)"
  shows "snd (server_ServeHTTP dops cfg ref now rd
        (\<lambda>rw r. if LimiterFromContext (fst r) = Some ref then write_codes writeHeader codes rw else None,
         w, c, q) d)
     = (if codes_written writeHeader codes w = None then d'
        else lim_Complete dops rd (if code = 429 \<or> 500 \<le> code then WasDropped else if 400 \<le> code then Ignored else Succeeded) k d')"
proof -
  have "LimiterFromContext (withLimiter c ref) = Some ref"
    by (simp add: LimiterFromContext_def withLimiter_def Value_def WithValue_def)
  then show ?thesis using assms
    by (auto simp: server_ServeHTTP_def Let_def defaultServerResponseClassifier_def StatusCode_def write_codes newResponseWriter_def
        classifyStatusCode_def complete_as_def response_types)
qed

theorem http_status_outcome_witness:
  "snd (server_ServeHTTP \<lparr>lim_Acquire = (\<lambda>_ _ d. (Some (), d)), lim_Complete = (\<lambda>_ oc _ d. oc # d)\<rparr>
        (new_config undefined []) 7 0 undefined
        (\<lambda>rw r. if LimiterFromContext (fst r) = Some 7 then write_codes (\<lambda>cd w. if 100 \<le> cd \<and> cd \<le> 999 then Some w else None) [100, 503] rw
                else None, (), [], ()) []) = [WasDropped]"
  using http_status_outcome [of "new_config undefined []" "\<lparr>lim_Acquire = (\<lambda>_ _ d. (Some (), d)),
      lim_Complete = (\<lambda>_ oc _ d. oc # d)\<rparr>" 0 "[]" 7 "[]" "()" "[]" 503 "[100, 503]" undefined
      "\<lambda>cd w. if 100 \<le> cd \<and> cd \<le> 999 then Some w else None" "()" "()"]
  by (simp add: new_config_Nil)

text \<open>The options that name the limiter do not: the default limiter is built before the options
  run, so \<open>WithName\<close> and \<open>WithTags\<close> leave the limiter of the configuration as it is without them; it is
  a default limiter that starts with the limit 20 of the Vegas algorithm, not the 1000 given to its strategy.\<close>

theorem http_name_has_no_effect:
  "hc_limiter (new_config env [WithName name, WithTags tags] :: ('d, 'w, 'q, 'b, 'e) http_config)
     = hc_limiter (new_config env [] :: ('d, 'w, 'q, 'b, 'e) http_config)
   \<and> (\<exists>l. hc_limiter (new_config env [] :: ('d, 'w, 'q, 'b, 'e) http_config) = DefaultLimiter l \<and> simple_GetLimit (dl_strategy l) = 20)"
proof
  show "hc_limiter (new_config env [WithName name, WithTags tags] :: ('d, 'w, 'q, 'b, 'e) http_config)
     = hc_limiter (new_config env [] :: ('d, 'w, 'q, 'b, 'e) http_config)"
    by (simp add: new_config_def WithName_def WithTags_def)
  let ?v = "fst (NewDefaultVegasLimit (he_Log10 env) (he_table env) (he_rand env) ''default'' (Some NoopLimitLogger)
      EmptyMetricRegistry [])"
  have "f64 20 = Fin 20" using f64_exact [of 20] by simp
  then have "vegas_EstimatedLimit ?v = 20"
    by (simp add: NewDefaultVegasLimit_def NewVegasLimitWithRegistry_def vegas_EstimatedLimit_def Let_def case_prod_beta
        trunc_def in_i64_def)
  then show "\<exists>l. hc_limiter (new_config env [] :: ('d, 'w, 'q, 'b, 'e) http_config) = DefaultLimiter l \<and> simple_GetLimit (dl_strategy l) = 20"
    by (simp add: new_config_def applyDefaults_def zero_config_def NewDefaultLimiterWithDefaults_def NewDefaultLimiter_def
        defaultMinWindowTime_def defaultMaxWindowTime_def defaultWindowSize_def vegas_ops_def simple_ops_def
        simple_SetLimit_def simple_GetLimit_def i32_def Let_def)
qed

end
