(* ===== verification/Interceptor_Grpc.thy ===== *)
theory Interceptor_Grpc
  imports Interceptor
begin

text \<open>
  \<open>grpc/grpc_unary.go\<close>, \<open>grpc/grpc_streaming.go\<close> and their options: the unary server and client
  interceptors and the wrapper of a server stream. The handler, the invoker and the stream (\<open>None\<close>:
  it panics) and what the code uses of the packages \<open>status\<close> and \<open>codes\<close> are arguments.
\<close>

section \<open>Classifiers\<close>

text \<open>
  What the defaults read from outside: \<open>math.Log10\<close> and its table for the Vegas limit, the random numbers,
  \<open>codes.ResourceExhausted\<close>, \<open>status.Error\<close> and the printing of a limiter.
\<close>

datatype 'd grpc_limiter = GrpcDefault "(vegas, simple) default_limiter" | GrpcCustom 'd | GrpcNil

record ('d, 'code, 'e) grpc_env =
  ge_Log10 :: "float64 \<Rightarrow> float64"
  ge_table :: "int list"
  ge_rand :: rand
  ge_ResourceExhausted :: 'code
  ge_Error :: "'code \<Rightarrow> string \<Rightarrow> 'e"
  ge_show :: "'d grpc_limiter \<Rightarrow> string"

type_synonym ('d, 'req, 'resp, 'code) exceeded_classifier =
  "ctx \<Rightarrow> string \<Rightarrow> 'req \<Rightarrow> 'd grpc_limiter \<Rightarrow> 'resp option \<times> 'code \<times> string option"

definition grpc_defaultLimitExceededResponseClassifier ::
    "('d, 'code, 'e) grpc_env \<Rightarrow> ('d, 'req, 'resp, 'code) exceeded_classifier" where
  "grpc_defaultLimitExceededResponseClassifier env ctx meth req l =
     (None, ge_ResourceExhausted env, Some (''limit exceeded for limiter='' @ ge_show env l))"

definition grpc_defaultClientResponseClassifier :: "ctx \<Rightarrow> string \<Rightarrow> 'req \<Rightarrow> 'resp \<Rightarrow> 'e option \<Rightarrow> int" where
  "grpc_defaultClientResponseClassifier ctx meth req reply err =
     (if err \<noteq> None then ResponseTypeDropped else ResponseTypeSuccess)"

definition grpc_defaultServerResponseClassifier :: "ctx \<Rightarrow> 'req \<Rightarrow> string \<Rightarrow> 'resp option \<Rightarrow> 'e option \<Rightarrow> int" where
  "grpc_defaultServerResponseClassifier ctx req info resp err =
     (if err \<noteq> None then ResponseTypeDropped else ResponseTypeSuccess)"

definition defaultStreamClientResponseClassifier :: "ctx \<Rightarrow> 'm \<Rightarrow> string \<Rightarrow> 'e option \<Rightarrow> int" where
  "defaultStreamClientResponseClassifier ctx req info err =
     (if err \<noteq> None then ResponseTypeDropped else ResponseTypeSuccess)"

definition defaultStreamServerResponseClassifier :: "ctx \<Rightarrow> 'm \<Rightarrow> string \<Rightarrow> 'e option \<Rightarrow> int" where
  "defaultStreamServerResponseClassifier ctx req info err =
     (if err \<noteq> None then ResponseTypeDropped else ResponseTypeSuccess)"

section \<open>Configuration\<close>

record ('d, 'req, 'resp, 'code, 'e) grpc_config =
  gc_name :: string
  gc_tags :: "string list"
  gc_limiter :: "'d grpc_limiter"
  gc_limitExceededResponseClassifier :: "('d, 'req, 'resp, 'code) exceeded_classifier option"
  gc_serverResponseClassifer :: "(ctx \<Rightarrow> 'req \<Rightarrow> string \<Rightarrow> 'resp option \<Rightarrow> 'e option \<Rightarrow> int) option"
  gc_clientResponseClassifer :: "(ctx \<Rightarrow> string \<Rightarrow> 'req \<Rightarrow> 'resp \<Rightarrow> 'e option \<Rightarrow> int) option"

definition grpc_zero_config :: "('d, 'req, 'resp, 'code, 'e) grpc_config" where
  "grpc_zero_config = \<lparr>gc_name = '''', gc_tags = [], gc_limiter = GrpcNil, gc_limitExceededResponseClassifier = None,
     gc_serverResponseClassifer = None, gc_clientResponseClassifer = None\<rparr>"

definition grpc_default_limiter :: "('d, 'code, 'e) grpc_env \<Rightarrow> string \<Rightarrow> string list \<Rightarrow> 'd grpc_limiter" where
  "grpc_default_limiter env name tags =
     (case NewDefaultLimiterWithDefaults (ge_Log10 env) (ge_table env) (ge_rand env) simple_ops name
        (Some (NewSimpleStrategy 1000)) (Some NoopLimitLogger) EmptyMetricRegistry tags of
        Inl err \<Rightarrow> GrpcNil | Inr l \<Rightarrow> GrpcDefault l)"

definition grpc_defaults ::
    "('d, 'code, 'e) grpc_env \<Rightarrow> ('d, 'req, 'resp, 'code, 'e) grpc_config \<Rightarrow> ('d, 'req, 'resp, 'code, 'e) grpc_config" where
  "grpc_defaults env cfg =
     (let name = gc_name cfg;
          name = (if name = '''' then ''default'' else name);
          tags = gc_tags cfg
      in cfg\<lparr>gc_limiter := grpc_default_limiter env name tags,
             gc_limitExceededResponseClassifier := Some (grpc_defaultLimitExceededResponseClassifier env),
             gc_clientResponseClassifer := Some grpc_defaultClientResponseClassifier,
             gc_serverResponseClassifer := Some grpc_defaultServerResponseClassifier\<rparr>)"

type_synonym ('d, 'req, 'resp, 'code, 'e) grpc_option =
  "('d, 'req, 'resp, 'code, 'e) grpc_config \<Rightarrow> ('d, 'req, 'resp, 'code, 'e) grpc_config"

definition grpc_WithName :: "string \<Rightarrow> ('d, 'req, 'resp, 'code, 'e) grpc_option" where
  "grpc_WithName name = (\<lambda>cfg. cfg\<lparr>gc_name := name\<rparr>)"

definition grpc_WithTags :: "string list \<Rightarrow> ('d, 'req, 'resp, 'code, 'e) grpc_option" where
  "grpc_WithTags tags = (\<lambda>cfg. cfg\<lparr>gc_tags := tags\<rparr>)"

definition grpc_WithLimiter :: "'d grpc_limiter \<Rightarrow> ('d, 'req, 'resp, 'code, 'e) grpc_option" where
  "grpc_WithLimiter l = (\<lambda>cfg. cfg\<lparr>gc_limiter := l\<rparr>)"

definition WithLimitExceededResponseClassifier ::
    "('d, 'req, 'resp, 'code) exceeded_classifier option \<Rightarrow> ('d, 'req, 'resp, 'code, 'e) grpc_option" where
  "WithLimitExceededResponseClassifier c = (\<lambda>cfg. cfg\<lparr>gc_limitExceededResponseClassifier := c\<rparr>)"

definition WithClientResponseTypeClassifier ::
    "(ctx \<Rightarrow> string \<Rightarrow> 'req \<Rightarrow> 'resp \<Rightarrow> 'e option \<Rightarrow> int) option \<Rightarrow> ('d, 'req, 'resp, 'code, 'e) grpc_option" where
  "WithClientResponseTypeClassifier c = (\<lambda>cfg. cfg\<lparr>gc_clientResponseClassifer := c\<rparr>)"

definition WithServerResponseTypeClassifier ::
    "(ctx \<Rightarrow> 'req \<Rightarrow> string \<Rightarrow> 'resp option \<Rightarrow> 'e option \<Rightarrow> int) option \<Rightarrow> ('d, 'req, 'resp, 'code, 'e) grpc_option" where
  "WithServerResponseTypeClassifier c = (\<lambda>cfg. cfg\<lparr>gc_serverResponseClassifer := c\<rparr>)"

definition grpc_new_config ::
    "('d, 'code, 'e) grpc_env \<Rightarrow> ('d, 'req, 'resp, 'code, 'e) grpc_option list \<Rightarrow> ('d, 'req, 'resp, 'code, 'e) grpc_config" where
  "grpc_new_config env opts = foldl (\<lambda>cfg opt. opt cfg) (grpc_defaults env grpc_zero_config) opts"

section \<open>Unary calls\<close>

datatype 'a called = Returned 'a | CallPanicked

text \<open>The interceptor returned by \<open>UnaryServerInterceptor\<close>; \<open>info\<close> is the full method name.\<close>

definition UnaryServerInterceptor ::
    "('d, 'code, 'e) grpc_env \<Rightarrow> ('d, 'k) delegate_ops \<Rightarrow> ('d, 'req, 'resp, 'code, 'e) grpc_config \<Rightarrow> int \<Rightarrow> rand
     \<Rightarrow> ctx \<times> 'req \<times> string \<times> (ctx \<Rightarrow> 'req \<Rightarrow> ('resp option \<times> 'e option) option) \<Rightarrow> 'd
     \<Rightarrow> ('resp option \<times> 'e option) called \<times> 'd" where
  "UnaryServerInterceptor env dops cfg now rd = (\<lambda>(ctx, req, info, handler) d.
     case lim_Acquire dops now ctx d of
       (None, d) \<Rightarrow>
         (case gc_limitExceededResponseClassifier cfg of
            None \<Rightarrow> (CallPanicked, d)
          | Some classify \<Rightarrow>
              (case classify ctx info req (gc_limiter cfg) of
                 (errResp, errCode, None) \<Rightarrow> (CallPanicked, d)
               | (errResp, errCode, Some err) \<Rightarrow> (Returned (errResp, Some (ge_Error env errCode err)), d)))
     | (Some token, d) \<Rightarrow>
         (case handler ctx req of
            None \<Rightarrow> (CallPanicked, d)
          | Some (resp, err) \<Rightarrow>
              (case gc_serverResponseClassifer cfg of
                 None \<Rightarrow> (CallPanicked, d)
               | Some classify \<Rightarrow> (Returned (resp, err), complete_as dops rd (classify ctx req info resp err) token d))))"

text \<open>The interceptor returned by \<open>UnaryClientInterceptor\<close>; the invoker fills in the reply.\<close>

definition UnaryClientInterceptor ::
    "('d, 'code, 'e) grpc_env \<Rightarrow> ('d, 'k) delegate_ops \<Rightarrow> ('d, 'req, 'resp, 'code, 'e) grpc_config \<Rightarrow> int \<Rightarrow> rand
     \<Rightarrow> ctx \<times> string \<times> 'req \<times> 'resp \<times> (ctx \<Rightarrow> string \<Rightarrow> 'req \<Rightarrow> 'resp \<Rightarrow> ('e option \<times> 'resp) option) \<Rightarrow> 'd
     \<Rightarrow> ('e option \<times> 'resp) called \<times> 'd" where
  "UnaryClientInterceptor env dops cfg now rd = (\<lambda>(ctx, meth, req, reply, invoker) d.
     case lim_Acquire dops now ctx d of
       (None, d) \<Rightarrow>
         (case gc_limitExceededResponseClassifier cfg of
            None \<Rightarrow> (CallPanicked, d)
          | Some classify \<Rightarrow>
              (case classify ctx meth req (gc_limiter cfg) of
                 (_, errCode, None) \<Rightarrow> (CallPanicked, d)
               | (_, errCode, Some err) \<Rightarrow> (Returned (Some (ge_Error env errCode err), reply), d)))
     | (Some token, d) \<Rightarrow>
         (case invoker ctx meth req reply of
            None \<Rightarrow> (CallPanicked, d)
          | Some (err, reply) \<Rightarrow>
              (case gc_clientResponseClassifer cfg of
                 None \<Rightarrow> (CallPanicked, d)
               | Some classify \<Rightarrow>
                   (Returned (err, reply), complete_as dops rd (classify ctx meth req reply err) token d))))"

section \<open>Streams\<close>

record ('d, 'm, 'code, 'e) stream_config =
  sc_recvName :: string
  sc_sendName :: string
  sc_tags :: "string list"
  sc_recvLimiter :: "'d grpc_limiter"
  sc_sendLimiter :: "'d grpc_limiter"
  sc_recvLimitExceeded :: "('d, 'm, unit, 'code) exceeded_classifier option"
  sc_sendLimitExceeded :: "('d, 'm, unit, 'code) exceeded_classifier option"
  sc_serverResponseClassifer :: "(ctx \<Rightarrow> 'm \<Rightarrow> string \<Rightarrow> 'e option \<Rightarrow> int) option"
  sc_clientResponseClassifer :: "(ctx \<Rightarrow> 'm \<Rightarrow> string \<Rightarrow> 'e option \<Rightarrow> int) option"

definition stream_zero_config :: "('d, 'm, 'code, 'e) stream_config" where
  "stream_zero_config = \<lparr>sc_recvName = '''', sc_sendName = '''', sc_tags = [], sc_recvLimiter = GrpcNil,
     sc_sendLimiter = GrpcNil, sc_recvLimitExceeded = None, sc_sendLimitExceeded = None,
     sc_serverResponseClassifer = None, sc_clientResponseClassifer = None\<rparr>"

definition streamDefaults ::
    "('d, 'code, 'e) grpc_env \<Rightarrow> ('d, 'm, 'code, 'e) stream_config \<Rightarrow> ('d, 'm, 'code, 'e) stream_config" where
  "streamDefaults env cfg =
     (let recvName = (if sc_recvName cfg = '''' then ''default-recv'' else sc_recvName cfg);
          sendName = (if sc_sendName cfg = '''' then ''default-send'' else sc_sendName cfg);
          tags = sc_tags cfg
      in cfg\<lparr>sc_recvLimiter := grpc_default_limiter env recvName tags,
             sc_sendLimiter := grpc_default_limiter env sendName tags,
             sc_recvLimitExceeded := Some (grpc_defaultLimitExceededResponseClassifier env),
             sc_sendLimitExceeded := Some (grpc_defaultLimitExceededResponseClassifier env),
             sc_clientResponseClassifer := Some defaultStreamClientResponseClassifier,
             sc_serverResponseClassifer := Some defaultStreamServerResponseClassifier\<rparr>)"

type_synonym ('d, 'm, 'code, 'e) stream_option = "('d, 'm, 'code, 'e) stream_config \<Rightarrow> ('d, 'm, 'code, 'e) stream_config"

definition WithStreamSendName :: "string \<Rightarrow> ('d, 'm, 'code, 'e) stream_option" where
  "WithStreamSendName name = (\<lambda>cfg. cfg\<lparr>sc_sendName := name\<rparr>)"

definition WithStreamRecvName :: "string \<Rightarrow> ('d, 'm, 'code, 'e) stream_option" where
  "WithStreamRecvName name = (\<lambda>cfg. cfg\<lparr>sc_recvName := name\<rparr>)"

text \<open>Declared as an option of the unary interceptors.\<close>

definition WithStreamTags :: "string list \<Rightarrow> ('d, 'req, 'resp, 'code, 'e) grpc_option" where
  "WithStreamTags tags = (\<lambda>cfg. cfg\<lparr>gc_tags := tags\<rparr>)"

definition WithStreamSendLimiter :: "'d grpc_limiter \<Rightarrow> ('d, 'm, 'code, 'e) stream_option" where
  "WithStreamSendLimiter l = (\<lambda>cfg. cfg\<lparr>sc_sendLimiter := l\<rparr>)"

definition WithStreamRecvLimiter :: "'d grpc_limiter \<Rightarrow> ('d, 'm, 'code, 'e) stream_option" where
  "WithStreamRecvLimiter l = (\<lambda>cfg. cfg\<lparr>sc_recvLimiter := l\<rparr>)"

definition WithStreamSendLimitExceededResponseClassifier ::
    "('d, 'm, unit, 'code) exceeded_classifier option \<Rightarrow> ('d, 'm, 'code, 'e) stream_option" where
  "WithStreamSendLimitExceededResponseClassifier c = (\<lambda>cfg. cfg\<lparr>sc_sendLimitExceeded := c\<rparr>)"

definition WithStreamRecvLimitExceededResponseClassifier ::
    "('d, 'm, unit, 'code) exceeded_classifier option \<Rightarrow> ('d, 'm, 'code, 'e) stream_option" where
  "WithStreamRecvLimitExceededResponseClassifier c = (\<lambda>cfg. cfg\<lparr>sc_recvLimitExceeded := c\<rparr>)"

definition WithStreamClientResponseTypeClassifier ::
    "(ctx \<Rightarrow> 'm \<Rightarrow> string \<Rightarrow> 'e option \<Rightarrow> int) option \<Rightarrow> ('d, 'm, 'code, 'e) stream_option" where
  "WithStreamClientResponseTypeClassifier c = (\<lambda>cfg. cfg\<lparr>sc_clientResponseClassifer := c\<rparr>)"

definition WithStreamServerResponseTypeClassifier ::
    "(ctx \<Rightarrow> 'm \<Rightarrow> string \<Rightarrow> 'e option \<Rightarrow> int) option \<Rightarrow> ('d, 'm, 'code, 'e) stream_option" where
  "WithStreamServerResponseTypeClassifier c = (\<lambda>cfg. cfg\<lparr>sc_serverResponseClassifer := c\<rparr>)"

definition stream_new_config ::
    "('d, 'code, 'e) grpc_env \<Rightarrow> ('d, 'm, 'code, 'e) stream_option list \<Rightarrow> ('d, 'm, 'code, 'e) stream_config" where
  "stream_new_config env opts = foldl (\<lambda>cfg opt. opt cfg) (streamDefaults env stream_zero_config) opts"

text \<open>The states of the two limiters of a stream's configuration.\<close>

record 'd stream_limiters =
  sl_recv :: 'd
  sl_send :: 'd

text \<open>
  The methods of the wrapper: the stream's context, the message and the underlying method of the
  stream. The classifier is consulted for an error only.
\<close>

definition ss_RecvMsg ::
    "('d, 'code, 'e) grpc_env \<Rightarrow> ('d, 'k) delegate_ops \<Rightarrow> ('d, 'm, 'code, 'e) stream_config \<Rightarrow> string \<Rightarrow> int \<Rightarrow> rand
     \<Rightarrow> ctx \<times> 'm \<times> ('m \<Rightarrow> ('e option \<times> 'm) option) \<Rightarrow> 'd stream_limiters \<Rightarrow> ('e option \<times> 'm) called \<times> 'd stream_limiters" where
  "ss_RecvMsg env dops cfg info now rd = (\<lambda>(ctx, m, recv) s.
     case lim_Acquire dops now ctx (sl_recv s) of
       (None, d) \<Rightarrow>
         (case sc_recvLimitExceeded cfg of
            None \<Rightarrow> (CallPanicked, s\<lparr>sl_recv := d\<rparr>)
          | Some classify \<Rightarrow>
              (case classify ctx info m (sc_recvLimiter cfg) of
                 (_, errCode, None) \<Rightarrow> (CallPanicked, s\<lparr>sl_recv := d\<rparr>)
               | (_, errCode, Some err) \<Rightarrow> (Returned (Some (ge_Error env errCode err), m), s\<lparr>sl_recv := d\<rparr>)))
     | (Some token, d) \<Rightarrow>
         (case recv m of
            None \<Rightarrow> (CallPanicked, s\<lparr>sl_recv := d\<rparr>)
          | Some (Some err, m) \<Rightarrow>
              (case sc_serverResponseClassifer cfg of
                 None \<Rightarrow> (CallPanicked, s\<lparr>sl_recv := d\<rparr>)
               | Some classify \<Rightarrow>
                   (Returned (Some err, m), s\<lparr>sl_recv := complete_as dops rd (classify ctx m info (Some err)) token d\<rparr>))
          | Some (None, m) \<Rightarrow> (Returned (None, m), s\<lparr>sl_recv := lim_Complete dops rd Succeeded token d\<rparr>)))"

definition ss_SendMsg ::
    "('d, 'code, 'e) grpc_env \<Rightarrow> ('d, 'k) delegate_ops \<Rightarrow> ('d, 'm, 'code, 'e) stream_config \<Rightarrow> string \<Rightarrow> int \<Rightarrow> rand
     \<Rightarrow> ctx \<times> 'm \<times> ('m \<Rightarrow> ('e option \<times> 'm) option) \<Rightarrow> 'd stream_limiters \<Rightarrow> ('e option \<times> 'm) called \<times> 'd stream_limiters" where
  "ss_SendMsg env dops cfg info now rd = (\<lambda>(ctx, m, send) s.
     case lim_Acquire dops now ctx (sl_recv s) of
       (None, d) \<Rightarrow>
         (case sc_sendLimitExceeded cfg of
            None \<Rightarrow> (CallPanicked, s\<lparr>sl_recv := d\<rparr>)
          | Some classify \<Rightarrow>
              (case classify ctx info m (sc_recvLimiter cfg) of
                 (_, errCode, None) \<Rightarrow> (CallPanicked, s\<lparr>sl_recv := d\<rparr>)
               | (_, errCode, Some err) \<Rightarrow> (Returned (Some (ge_Error env errCode err), m), s\<lparr>sl_recv := d\<rparr>)))
     | (Some token, d) \<Rightarrow>
         (case send m of
            None \<Rightarrow> (CallPanicked, s\<lparr>sl_recv := d\<rparr>)
          | Some (Some err, m) \<Rightarrow>
              (case sc_clientResponseClassifer cfg of
                 None \<Rightarrow> (CallPanicked, s\<lparr>sl_recv := d\<rparr>)
               | Some classify \<Rightarrow>
                   (Returned (Some err, m), s\<lparr>sl_recv := complete_as dops rd (classify ctx m info (Some err)) token d\<rparr>))
          | Some (None, m) \<Rightarrow> (Returned (None, m), s\<lparr>sl_recv := lim_Complete dops rd Succeeded token d\<rparr>)))"

text \<open>
  The underlying stream, whose methods may change it, and the handler of a stream: what it does next
  as a function of what the methods it has called gave back. It ends by returning or by a panic.
\<close>

record ('st, 'm, 'e) server_stream =
  st_Context :: ctx
  st_RecvMsg :: "'st \<Rightarrow> 'm \<Rightarrow> ('e option \<times> 'm) option \<times> 'st"
  st_SendMsg :: "'st \<Rightarrow> 'm \<Rightarrow> ('e option \<times> 'm) option \<times> 'st"

datatype ('m, 'e) stream_handler =
    HandlerReturn "'e option"
  | HandlerPanic
  | HandlerRecv 'm "'e option \<times> 'm \<Rightarrow> ('m, 'e) stream_handler"
  | HandlerSend 'm "'e option \<times> 'm \<Rightarrow> ('m, 'e) stream_handler"

text \<open>Whether a call of the wrapper reaches the stream: the limiter it acquires from grants a token.\<close>

definition reaches_stream :: "('d, 'k) delegate_ops \<Rightarrow> int \<Rightarrow> ctx \<Rightarrow> 'd stream_limiters \<Rightarrow> bool" where
  "reaches_stream dops now ctx s \<longleftrightarrow> fst (lim_Acquire dops now ctx (sl_recv s)) \<noteq> None"

text \<open>
  The handler called with the wrapped stream. \<open>clock n\<close> is the time and the random numbers the
  \<open>n\<close>th call of the wrapper reads.
\<close>

primrec run_handler ::
    "('d, 'code, 'e) grpc_env \<Rightarrow> ('d, 'k) delegate_ops \<Rightarrow> ('d, 'm, 'code, 'e) stream_config \<Rightarrow> string
     \<Rightarrow> ('st, 'm, 'e) server_stream \<Rightarrow> (nat \<Rightarrow> int \<times> rand) \<Rightarrow> ('m, 'e) stream_handler \<Rightarrow> nat \<Rightarrow> 'st
     \<Rightarrow> 'd stream_limiters \<Rightarrow> 'e option called \<times> 'd stream_limiters" where
  "run_handler env dops cfg info ss clock (HandlerReturn err) n st s = (Returned err, s)"
| "run_handler env dops cfg info ss clock HandlerPanic n st s = (CallPanicked, s)"
| "run_handler env dops cfg info ss clock (HandlerRecv m continue) n st s =
     (case ss_RecvMsg env dops cfg info (fst (clock n)) (snd (clock n)) (st_Context ss, m, \<lambda>m. fst (st_RecvMsg ss st m)) s of
        (CallPanicked, s') \<Rightarrow> (CallPanicked, s')
      | (Returned x, s') \<Rightarrow>
          run_handler env dops cfg info ss clock (continue x) (Suc n)
            (if reaches_stream dops (fst (clock n)) (st_Context ss) s then snd (st_RecvMsg ss st m) else st) s')"
| "run_handler env dops cfg info ss clock (HandlerSend m continue) n st s =
     (case ss_SendMsg env dops cfg info (fst (clock n)) (snd (clock n)) (st_Context ss, m, \<lambda>m. fst (st_SendMsg ss st m)) s of
        (CallPanicked, s') \<Rightarrow> (CallPanicked, s')
      | (Returned x, s') \<Rightarrow>
          run_handler env dops cfg info ss clock (continue x) (Suc n)
            (if reaches_stream dops (fst (clock n)) (st_Context ss) s then snd (st_SendMsg ss st m) else st) s')"

definition StreamServerInterceptor ::
    "('d, 'code, 'e) grpc_env \<Rightarrow> ('d, 'k) delegate_ops \<Rightarrow> ('d, 'm, 'code, 'e) stream_option list
     \<Rightarrow> 'st \<times> ('st, 'm, 'e) server_stream \<Rightarrow> string \<Rightarrow> ('m, 'e) stream_handler \<Rightarrow> (nat \<Rightarrow> int \<times> rand)
     \<Rightarrow> 'd stream_limiters \<Rightarrow> 'e option called \<times> 'd stream_limiters" where
  "StreamServerInterceptor env dops opts = (\<lambda>(st, ss) info handler clock s.
     run_handler env dops (stream_new_config env opts) info ss clock handler 0 st s)"

section \<open>Tokens\<close>

text \<open>How the interceptors classify a call; \<open>None\<close> when something panics.\<close>

definition unary_server_class :: "('d, 'req, 'resp, 'code, 'e) grpc_config
    \<Rightarrow> ctx \<times> 'req \<times> string \<times> (ctx \<Rightarrow> 'req \<Rightarrow> ('resp option \<times> 'e option) option) \<Rightarrow> int option" where
  "unary_server_class cfg = (\<lambda>(ctx, req, info, handler).
     Option.bind (handler ctx req)
       (\<lambda>(resp, err). map_option (\<lambda>classify. classify ctx req info resp err) (gc_serverResponseClassifer cfg)))"

definition unary_client_class :: "('d, 'req, 'resp, 'code, 'e) grpc_config
    \<Rightarrow> ctx \<times> string \<times> 'req \<times> 'resp \<times> (ctx \<Rightarrow> string \<Rightarrow> 'req \<Rightarrow> 'resp \<Rightarrow> ('e option \<times> 'resp) option) \<Rightarrow> int option" where
  "unary_client_class cfg = (\<lambda>(ctx, meth, req, reply, invoker).
     Option.bind (invoker ctx meth req reply)
       (\<lambda>(err, reply). map_option (\<lambda>classify. classify ctx meth req reply err) (gc_clientResponseClassifer cfg)))"

definition stream_class :: "(ctx \<Rightarrow> 'm \<Rightarrow> string \<Rightarrow> 'e option \<Rightarrow> int) option \<Rightarrow> string
    \<Rightarrow> ctx \<times> 'm \<times> ('m \<Rightarrow> ('e option \<times> 'm) option) \<Rightarrow> int option" where
  "stream_class cl info = (\<lambda>(ctx, m, meth).
     Option.bind (meth m)
       (\<lambda>(err, m). if err = None then Some ResponseTypeSuccess else map_option (\<lambda>classify. classify ctx m info err) cl))"

text \<open>The methods of a stream as calls guarded by its receive limiter.\<close>

definition recv_call :: "('d, 'code, 'e) grpc_env \<Rightarrow> ('d, 'k) delegate_ops \<Rightarrow> ('d, 'm, 'code, 'e) stream_config \<Rightarrow> string \<Rightarrow> 'd
    \<Rightarrow> int \<Rightarrow> rand \<Rightarrow> ctx \<times> 'm \<times> ('m \<Rightarrow> ('e option \<times> 'm) option) \<Rightarrow> 'd \<Rightarrow> ('e option \<times> 'm) called \<times> 'd" where
  "recv_call env dops cfg info snd_lim now rd x d =
     map_prod id sl_recv (ss_RecvMsg env dops cfg info now rd x \<lparr>sl_recv = d, sl_send = snd_lim\<rparr>)"

definition send_call :: "('d, 'code, 'e) grpc_env \<Rightarrow> ('d, 'k) delegate_ops \<Rightarrow> ('d, 'm, 'code, 'e) stream_config \<Rightarrow> string \<Rightarrow> 'd
    \<Rightarrow> int \<Rightarrow> rand \<Rightarrow> ctx \<times> 'm \<times> ('m \<Rightarrow> ('e option \<times> 'm) option) \<Rightarrow> 'd \<Rightarrow> ('e option \<times> 'm) called \<times> 'd" where
  "send_call env dops cfg info snd_lim now rd x d =
     map_prod id sl_recv (ss_SendMsg env dops cfg info now rd x \<lparr>sl_recv = d, sl_send = snd_lim\<rparr>)"

lemma complete_as_success: "complete_as dops rd ResponseTypeSuccess k d = lim_Complete dops rd Succeeded k d"
  by (simp add: complete_as_def)

interpretation grpc_unary_server: guarded_default lops sops "UnaryServerInterceptor env (default_delegate lops sops) cfg"
    fst "unary_server_class cfg" for lops sops env cfg
  by unfold_locales
     (auto simp: UnaryServerInterceptor_def unary_server_class_def split: option.splits prod.splits)

interpretation grpc_unary_client: guarded_default lops sops "UnaryClientInterceptor env (default_delegate lops sops) cfg"
    fst "unary_client_class cfg" for lops sops env cfg
  by unfold_locales
     (auto simp: UnaryClientInterceptor_def unary_client_class_def split: option.splits prod.splits)

interpretation grpc_stream_recv: guarded_default lops sops "recv_call env (default_delegate lops sops) cfg info snd_lim"
    fst "stream_class (sc_serverResponseClassifer cfg) info" for lops sops env cfg info snd_lim
  by unfold_locales
     (auto simp: recv_call_def ss_RecvMsg_def stream_class_def complete_as_success split: option.splits prod.splits)

interpretation grpc_stream_send: guarded_default lops sops "send_call env (default_delegate lops sops) cfg info snd_lim"
    fst "stream_class (sc_clientResponseClassifer cfg) info" for lops sops env cfg info snd_lim
  by unfold_locales
     (auto simp: send_call_def ss_SendMsg_def stream_class_def complete_as_success split: option.splits prod.splits)

lemma unary_server_request_after:
  assumes "gc_serverResponseClassifer cfg = Some grpc_defaultServerResponseClassifier"
  shows "request_after (unary_server_class cfg (ctx, req, info, handler)) ls
    = (if handler ctx req = None then Running ls else Finished)"
  using assms
  by (cases "handler ctx req")
    (auto simp: unary_server_class_def grpc_defaultServerResponseClassifier_def request_after_simps)

lemma unary_client_request_after:
  assumes "gc_clientResponseClassifer cfg = Some grpc_defaultClientResponseClassifier"
  shows "request_after (unary_client_class cfg (ctx, meth, req, reply, invoker)) ls
    = (if invoker ctx meth req reply = None then Running ls else Finished)"
  using assms
  by (cases "invoker ctx meth req reply")
    (auto simp: unary_client_class_def grpc_defaultClientResponseClassifier_def request_after_simps)

text \<open>A classifier that answers with one of the three response types, as the default ones do; calling nil panics.\<close>

definition answers_types :: "(ctx \<Rightarrow> 'm \<Rightarrow> string \<Rightarrow> 'e option \<Rightarrow> int) option \<Rightarrow> bool" where
  "answers_types cl \<longleftrightarrow> (\<forall>classify ctx m info err. cl = Some classify \<longrightarrow>
     classify ctx m info err \<in> {ResponseTypeSuccess, ResponseTypeIgnore, ResponseTypeDropped})"

lemma default_answers_types:
  "answers_types (Some defaultStreamServerResponseClassifier)" "answers_types (Some defaultStreamClientResponseClassifier)"
  by (simp_all add: answers_types_def defaultStreamServerResponseClassifier_def defaultStreamClientResponseClassifier_def)

text \<open>The call panics when the stream does, and when it fails and there is no classifier.\<close>

definition stream_panics :: "(ctx \<Rightarrow> 'm \<Rightarrow> string \<Rightarrow> 'e option \<Rightarrow> int) option \<Rightarrow> ('e option \<times> 'm) option \<Rightarrow> bool" where
  "stream_panics cl result \<longleftrightarrow> result = None \<or> (\<exists>err m. result = Some (Some err, m)) \<and> cl = None"

lemma stream_request_after:
  assumes "answers_types cl"
  shows "request_after (stream_class cl info (ctx, m, meth)) ls = (if stream_panics cl (meth m) then Running ls else Finished)"
  using assms
  by (cases "meth m"; cases cl)
    (auto simp: stream_class_def stream_panics_def answers_types_def request_after_simps)

text \<open>The unary interceptors return every token, unless the guarded code panics: over a default limiter
  with any strategy and limit algorithm, an intercepted call with the default classifiers takes
  the limiter through steps of the concurrent model that add a finished request when the call was
  granted and returned, none when it was refused, and one that runs forever when the handler or
  the invoker panics.\<close>

theorem grpc_unary_token_returned:
  assumes "length (filter holds_token rs) < 2 ^ 31 - 1"
    and "gc_serverResponseClassifer cfg = Some grpc_defaultServerResponseClassifier"
    and "gc_clientResponseClassifer cfg = Some grpc_defaultClientResponseClassifier"
  shows "(limiter_step lops sops)\<^sup>*\<^sup>* (l, rs)
      (snd (UnaryServerInterceptor env (default_delegate lops sops) cfg now rd (c, req, info, handler) l),
       case fst (limiter_Acquire sops now c l) of
         None \<Rightarrow> rs | Some ls \<Rightarrow> rs @ [if handler c req = None then Running ls else Finished])
    \<and> (limiter_step lops sops)\<^sup>*\<^sup>* (l, rs)
      (snd (UnaryClientInterceptor env (default_delegate lops sops) cfg now rd (c, meth, req, reply, invoker) l),
       case fst (limiter_Acquire sops now c l) of
         None \<Rightarrow> rs | Some ls \<Rightarrow> rs @ [if invoker c meth req reply = None then Running ls else Finished])"
  using grpc_unary_server.call_steps [OF assms(1), of lops sops l env cfg now rd "(c, req, info, handler)"]
    grpc_unary_client.call_steps [OF assms(1), of lops sops l env cfg now rd "(c, meth, req, reply, invoker)"]
  unfolding unary_server_request_after [OF assms(2)] unary_client_request_after [OF assms(3)] by simp

theorem grpc_unary_token_returned_witness:
  "\<exists>ls l e. limiter_Acquire precise_ops 0 [] one_limiter = (Some ls, l, e)
     \<and> (limiter_step fixed_ops precise_ops)\<^sup>*\<^sup>* (one_limiter, [])
         (snd (UnaryServerInterceptor undefined (default_delegate fixed_ops precise_ops)
            (grpc_new_config undefined [] :: ((fixed, precise) default_limiter, unit, unit, unit, unit) grpc_config) 0 undefined
            ([], (), ''m'', \<lambda>_ _. Some (Some (), None)) one_limiter), [Finished])"
proof -
  let ?cfg = "grpc_new_config undefined [] :: ((fixed, precise) default_limiter, unit, unit, unit, unit) grpc_config"
  obtain ls l e where acq: "limiter_Acquire precise_ops 0 [] one_limiter = (Some ls, l, e)" by (rule one_limiter_grants)
  have "gc_serverResponseClassifer ?cfg = Some grpc_defaultServerResponseClassifier"
    "gc_clientResponseClassifer ?cfg = Some grpc_defaultClientResponseClassifier"
    by (simp_all add: grpc_new_config_def grpc_defaults_def Let_def)
  from grpc_unary_token_returned [of "[]", OF _ this, THEN conjunct1, of fixed_ops precise_ops one_limiter undefined 0 undefined
      "[]" "()" "''m''" "\<lambda>_ _. Some (Some (), None)"] acq
  show ?thesis by simp
qed

text \<open>One call of the wrapper: the send limiter is not touched, the receive limiter takes steps of the concurrent model.\<close>

lemma stream_call_send:
  "sl_send (snd (ss_RecvMsg env dops cfg info now rd x s)) = sl_send s"
  "sl_send (snd (ss_SendMsg env dops cfg info now rd x s)) = sl_send s"
  by (auto simp: ss_RecvMsg_def ss_SendMsg_def split: option.splits prod.splits)

definition types_answered :: "('d, 'm, 'code, 'e) stream_config \<Rightarrow> bool" where
  "types_answered cfg \<longleftrightarrow> answers_types (sc_serverResponseClassifer cfg) \<and> answers_types (sc_clientResponseClassifer cfg)"

lemma stream_call:
  assumes "length (filter holds_token rs) < 2 ^ 31 - 1" and "types_answered cfg"
    and "s' = snd (ss_RecvMsg env (default_delegate lops sops) cfg info now rd (c, m, meth) s) \<and> cl = sc_serverResponseClassifer cfg
       \<or> s' = snd (ss_SendMsg env (default_delegate lops sops) cfg info now rd (c, m, meth) s) \<and> cl = sc_clientResponseClassifer cfg"
  shows "(limiter_step lops sops)\<^sup>*\<^sup>* (sl_recv s, rs)
      (sl_recv s', case fst (limiter_Acquire sops now c (sl_recv s)) of
         None \<Rightarrow> rs | Some ls \<Rightarrow> rs @ [if stream_panics cl (meth m) then Running ls else Finished])"
proof -
  have s: "s = \<lparr>sl_recv = sl_recv s, sl_send = sl_send s\<rparr>" by simp
  have cl: "answers_types cl" using assms(2,3) by (auto simp: types_answered_def)
  have "sl_recv s' = snd (recv_call env (default_delegate lops sops) cfg info (sl_send s) now rd (c, m, meth) (sl_recv s))
        \<and> cl = sc_serverResponseClassifer cfg
      \<or> sl_recv s' = snd (send_call env (default_delegate lops sops) cfg info (sl_send s) now rd (c, m, meth) (sl_recv s))
        \<and> cl = sc_clientResponseClassifer cfg"
    using assms(3) by (auto simp: recv_call_def send_call_def s [symmetric])
  then show ?thesis
    using grpc_stream_recv.call_steps [OF assms(1), of lops sops "sl_recv s" env cfg info "sl_send s" now rd "(c, m, meth)"]
      grpc_stream_send.call_steps [OF assms(1), of lops sops "sl_recv s" env cfg info "sl_send s" now rd "(c, m, meth)"]
    unfolding stream_request_after [OF cl, of info c m meth, symmetric] by auto
qed

text \<open>The requests a call leaves behind: finished ones, unless the stream panicked under it.\<close>

definition tokens_kept :: "'a called \<Rightarrow> 'r request list \<Rightarrow> bool" where
  "tokens_kept res rs \<longleftrightarrow> set rs \<subseteq> {Finished} \<or> res = CallPanicked \<and> length (filter holds_token rs) \<le> 1"

lemma stream_call_tokens:
  assumes "length (filter holds_token rs) < 2 ^ 31 - 1" and "types_answered cfg"
    and "ss_RecvMsg env (default_delegate lops sops) cfg info now rd (c, m, meth) s = (res, s')
       \<or> ss_SendMsg env (default_delegate lops sops) cfg info now rd (c, m, meth) s = (res, s')"
  obtains rs' where "(limiter_step lops sops)\<^sup>*\<^sup>* (sl_recv s, rs) (sl_recv s', rs @ rs')" and "tokens_kept res rs'"
proof -
  obtain cl where cl: "ss_RecvMsg env (default_delegate lops sops) cfg info now rd (c, m, meth) s = (res, s') \<and> cl = sc_serverResponseClassifer cfg
      \<or> ss_SendMsg env (default_delegate lops sops) cfg info now rd (c, m, meth) s = (res, s') \<and> cl = sc_clientResponseClassifer cfg"
    using assms(3) by auto
  then have "s' = snd (ss_RecvMsg env (default_delegate lops sops) cfg info now rd (c, m, meth) s) \<and> cl = sc_serverResponseClassifer cfg
      \<or> s' = snd (ss_SendMsg env (default_delegate lops sops) cfg info now rd (c, m, meth) s) \<and> cl = sc_clientResponseClassifer cfg" by auto
  let ?rs = "case fst (limiter_Acquire sops now c (sl_recv s)) of
      None \<Rightarrow> [] | Some ls \<Rightarrow> [if stream_panics cl (meth m) then Running ls else Finished]"
  from stream_call [OF assms(1,2) \<open>s' = _ \<and> _ \<or> _\<close>] have "(limiter_step lops sops)\<^sup>*\<^sup>* (sl_recv s, rs) (sl_recv s', rs @ ?rs)"
    by (auto split: option.splits)
  moreover have "tokens_kept res ?rs"
    using cl by (auto simp: tokens_kept_def stream_panics_def ss_RecvMsg_def ss_SendMsg_def default_delegate_def
        split: option.splits prod.splits)
  ultimately show ?thesis using that by blast
qed

text \<open>What a stream's handler leaves behind, from limiters \<open>s\<close> with requests \<open>rs\<close>.\<close>

definition stream_ok :: "'l limit_ops \<Rightarrow> ('s, 'r) strategy_ops \<Rightarrow> ('l, 's) default_limiter stream_limiters \<Rightarrow> 'r request list
    \<Rightarrow> 'a called \<times> ('l, 's) default_limiter stream_limiters \<Rightarrow> bool" where
  "stream_ok lops sops s rs out \<longleftrightarrow>
     (\<exists>rs'. (limiter_step lops sops)\<^sup>*\<^sup>* (sl_recv s, rs) (sl_recv (snd out), rs @ rs') \<and> tokens_kept (fst out) rs')"

lemma stream_ok_stop: "stream_ok lops sops s rs (res, s)"
  by (auto simp: stream_ok_def tokens_kept_def intro: exI [of _ "[]"])

lemma stream_ok_call:
  assumes "length (filter holds_token rs) < 2 ^ 31 - 1" and "types_answered cfg"
    and "call = ss_RecvMsg env (default_delegate lops sops) cfg info now rd (c, m, meth) s
       \<or> call = ss_SendMsg env (default_delegate lops sops) cfg info now rd (c, m, meth) s"
    and "\<And>x s' rs'. length (filter holds_token rs') < 2 ^ 31 - 1 \<Longrightarrow> stream_ok lops sops s' rs' (continue x s')"
  shows "stream_ok lops sops s rs (case call of (CallPanicked, s') \<Rightarrow> (CallPanicked, s') | (Returned x, s') \<Rightarrow> continue x s')"
proof -
  obtain res s' where call: "call = (res, s')" by fastforce
  from assms(3) call have "ss_RecvMsg env (default_delegate lops sops) cfg info now rd (c, m, meth) s = (res, s')
      \<or> ss_SendMsg env (default_delegate lops sops) cfg info now rd (c, m, meth) s = (res, s')" by auto
  from stream_call_tokens [OF assms(1,2) this] obtain rs' where
    steps: "(limiter_step lops sops)\<^sup>*\<^sup>* (sl_recv s, rs) (sl_recv s', rs @ rs')" and kept: "tokens_kept res rs'" .
  show ?thesis
  proof (cases res)
    case CallPanicked
    then show ?thesis using steps kept call by (auto simp: stream_ok_def tokens_kept_def)
  next
    case (Returned x)
    then have done_all: "set rs' \<subseteq> {Finished}" using kept by (simp add: tokens_kept_def)
    then have "filter holds_token rs' = []" by (auto simp: filter_empty_conv)
    then have "stream_ok lops sops s' (rs @ rs') (continue x s')" using assms(1) by (intro assms(4)) simp
    then obtain rs2 where rs2: "(limiter_step lops sops)\<^sup>*\<^sup>* (sl_recv s', rs @ rs') (sl_recv (snd (continue x s')), (rs @ rs') @ rs2)"
      "tokens_kept (fst (continue x s')) rs2" unfolding stream_ok_def by blast
    have "tokens_kept (fst (continue x s')) (rs' @ rs2)"
      using rs2(2) done_all \<open>filter holds_token rs' = []\<close> by (auto simp: tokens_kept_def)
    then have "stream_ok lops sops s rs (continue x s')"
      using rtranclp_trans [OF steps rs2(1)] unfolding stream_ok_def by auto
    then show ?thesis using call Returned by simp
  qed
qed

text \<open>No call touches the send limiter, so no handler does.\<close>

lemma run_handler_send: "sl_send (snd (run_handler env dops cfg info ss clock h n st s)) = sl_send s"
proof (induction h arbitrary: n st s)
  case (HandlerRecv m continue)
  obtain res s' where call: "ss_RecvMsg env dops cfg info (fst (clock n)) (snd (clock n))
      (st_Context ss, m, \<lambda>m. fst (st_RecvMsg ss st m)) s = (res, s')" by fastforce
  then have "sl_send s' = sl_send s" using stream_call_send(1) by (metis snd_conv)
  then show ?case using call HandlerRecv by (cases res) simp_all
next
  case (HandlerSend m continue)
  obtain res s' where call: "ss_SendMsg env dops cfg info (fst (clock n)) (snd (clock n))
      (st_Context ss, m, \<lambda>m. fst (st_SendMsg ss st m)) s = (res, s')" by fastforce
  then have "sl_send s' = sl_send s" using stream_call_send(2) by (metis snd_conv)
  then show ?case using call HandlerSend by (cases res) simp_all
qed simp_all

lemma run_handler_ok:
  assumes "length (filter holds_token rs) < 2 ^ 31 - 1" and "types_answered cfg"
  shows "stream_ok lops sops s rs (run_handler env (default_delegate lops sops) cfg info ss clock h n st s)"
  using assms(1)
proof (induction h arbitrary: n st s rs)
  case (HandlerRecv m continue)
  show ?case unfolding run_handler.simps
    by (rule stream_ok_call [OF HandlerRecv.prems assms(2) disjI1 [OF refl]], rule HandlerRecv.IH) simp_all
next
  case (HandlerSend m continue)
  show ?case unfolding run_handler.simps
    by (rule stream_ok_call [OF HandlerSend.prems assms(2) disjI2 [OF refl]], rule HandlerSend.IH) simp_all
qed (simp_all add: stream_ok_stop)



end
