(* ===== verification/Metric_Registry.thy ===== *)
theory Metric_Registry
  imports Core
begin

text \<open>
  \<open>metric_registry/datadog\<close> and \<open>metric_registry/gometrics\<close>: the registries that poll gauges from a
  goroutine, and the contract of \<open>core.MetricRegistry\<close> about listeners. Calls of the clients are the
  values an operation returns. A supplier reads the state of the program, of type \<open>'e\<close>.
\<close>

section \<open>The contract\<close>

text \<open>
  What a user of a registry relies on: an identifier is registered once, and registering it again
  gives the listener it has. \<open>None\<close>: the registration panics.
\<close>

locale listener_registry =
  fixes reg :: "metric_kind \<Rightarrow> string \<Rightarrow> string list \<Rightarrow> 's \<Rightarrow> ('h \<times> 's) option"
    and known :: "'s \<Rightarrow> string \<Rightarrow> 'h option"
    and key :: "string \<Rightarrow> string"
  assumes reg_known: "known s (key ID) = Some h \<Longrightarrow> reg kd ID tags s = Some (h, s)"
    and reg_new: "known s (key ID) = None \<Longrightarrow> reg kd ID tags s = Some (h, s') \<Longrightarrow> known s' = (known s)(key ID \<mapsto> h)"
begin

fun reg_all :: "(metric_kind \<times> string \<times> string list) list \<Rightarrow> 's \<Rightarrow> 's option" where
  "reg_all [] s = Some s"
| "reg_all ((kd, ID, tags) # rs) s = (case reg kd ID tags s of None \<Rightarrow> None | Some (h, s') \<Rightarrow> reg_all rs s')"

lemma reg_gives: "reg kd ID tags s = Some (h, s') \<Longrightarrow> known s' (key ID) = Some h"
  using reg_known [of s ID] reg_new [of s ID kd tags h s'] by (cases "known s (key ID)") auto

lemma reg_keeps: "known s k = Some h \<Longrightarrow> reg kd ID tags s = Some (h', s') \<Longrightarrow> known s' k = Some h"
  using reg_known [of s ID] reg_new [of s ID kd tags h' s'] by (cases "known s (key ID)") (auto simp: fun_upd_def)

lemma reg_all_keeps: "known s k = Some h \<Longrightarrow> reg_all rs s = Some s' \<Longrightarrow> known s' k = Some h"
  by (induction rs s rule: reg_all.induct) (auto split: option.splits dest: reg_keeps)

lemma reg_again:
  assumes "reg kd ID tags s = Some (h, s1)" and "reg_all rs s1 = Some s2"
  shows "reg kd' ID tags' s2 = Some (h, s2)"
  using reg_known [OF reg_all_keeps [OF reg_gives [OF assms(1)] assms(2)]] .

end

section \<open>Datadog\<close>

text \<open>\<open>strings.TrimPrefix(ID, ".")\<close> and \<open>strings.HasSuffix(s, ".")\<close>.\<close>

definition trim_dot :: "string \<Rightarrow> string" where
  "trim_dot s = (if s \<noteq> [] \<and> hd s = CHR ''.'' then tl s else s)"

definition ends_with_dot :: "string \<Rightarrow> bool" where
  "ends_with_dot s \<longleftrightarrow> s \<noteq> [] \<and> last s = CHR ''.''"

definition defaultMetricPrefix :: string where "defaultMetricPrefix = ''limiter.''"
definition defaultPollFrequency :: int where "defaultPollFrequency = 5000000000"

datatype client_call =
    CallDistribution string float64 "string list"
  | CallTimeInMilliseconds string float64 "string list"
  | CallCount string int "string list"
  | CallGauge string float64 "string list"

record dd_listener =
  ddl_id :: string
  ddl_metricType :: nat

definition dd_AddSample :: "dd_listener \<Rightarrow> float64 \<Rightarrow> string list \<Rightarrow> client_call list" where
  "dd_AddSample l v tags =
     (if ddl_metricType l = 0 then [CallDistribution (ddl_id l) v tags]
      else if ddl_metricType l = 1 then [CallTimeInMilliseconds (ddl_id l) v tags]
      else if ddl_metricType l = 2 then [CallCount (ddl_id l) (f2i v) tags]
      else [])"

record 'e metric_poller =
  mp_supplier :: "'e \<Rightarrow> float64 \<times> bool"
  mp_id :: string
  mp_tags :: "string list"

definition poll :: "'e \<Rightarrow> 'e metric_poller \<Rightarrow> string \<times> float64 \<times> string list \<times> bool" where
  "poll env p = (case mp_supplier p env of (v, ok) \<Rightarrow> (mp_id p, v, mp_tags p, ok))"

text \<open>\<open>dd_pollers\<close> is the number of goroutines in \<open>run\<close>, which the wait group counts.\<close>

record 'e dd_registry =
  dd_prefix :: string
  dd_pollFrequency :: int
  dd_registeredGauges :: "string \<Rightarrow> 'e metric_poller option"
  dd_registeredListeners :: "string \<Rightarrow> dd_listener option"
  dd_started :: bool
  dd_pollers :: nat

datatype registry_error = ClientIsNil | ClientFailed | RegistryRequired

text \<open>\<open>dialled\<close>: whether \<open>dogstatsd.New\<close> returned a client for the address.\<close>

definition dd_NewMetricRegistry :: "bool \<Rightarrow> string \<Rightarrow> int \<Rightarrow> registry_error + 'e dd_registry" where
  "dd_NewMetricRegistry dialled prefix pollFrequency =
     (let prefix = (if prefix = '''' then defaultMetricPrefix else prefix);
          prefix = (if \<not> ends_with_dot prefix then prefix @ ''.'' else prefix);
          pollFrequency = (if pollFrequency = 0 then defaultPollFrequency else pollFrequency)
      in if \<not> dialled then Inl ClientFailed
         else Inr \<lparr>dd_prefix = prefix, dd_pollFrequency = pollFrequency, dd_registeredGauges = Map.empty,
                   dd_registeredListeners = Map.empty, dd_started = False, dd_pollers = 0\<rparr>)"

definition dd_NewMetricRegistryWithClient :: "bool \<Rightarrow> string \<Rightarrow> int \<Rightarrow> registry_error + 'e dd_registry" where
  "dd_NewMetricRegistryWithClient client prefix pollFrequency =
     (if \<not> client then Inl ClientIsNil
      else let prefix = (if \<not> ends_with_dot prefix then prefix @ ''.'' else prefix);
               pollFrequency = (if pollFrequency = 0 then defaultPollFrequency else pollFrequency)
           in Inr \<lparr>dd_prefix = prefix, dd_pollFrequency = pollFrequency, dd_registeredGauges = Map.empty,
                   dd_registeredListeners = Map.empty, dd_started = False, dd_pollers = 0\<rparr>)"

definition dd_Start :: "'e dd_registry \<Rightarrow> 'e dd_registry" where
  "dd_Start r = (if \<not> dd_started r then r\<lparr>dd_pollers := Suc (dd_pollers r)\<rparr> else r)"

text \<open>
  One tick of \<open>run\<close>: the gauges in the order \<open>ks\<close> in which Go iterates over the map, which is any
  order of its keys.
\<close>

definition dd_run_tick :: "'e \<Rightarrow> string list \<Rightarrow> 'e dd_registry \<Rightarrow> client_call list" where
  "dd_run_tick env ks r = concat (map (\<lambda>k. case dd_registeredGauges r k of
      None \<Rightarrow> []
    | Some g \<Rightarrow> (case poll env g of (metricSuffix, v, tags, ok) \<Rightarrow>
                  if ok then [CallGauge (dd_prefix r @ metricSuffix) v tags] else [])) ks)"

text \<open>The state when \<open>Stop\<close> returns: the wait group has let it pass once every poller has ended.\<close>

definition dd_Stop :: "'e dd_registry \<Rightarrow> 'e dd_registry" where
  "dd_Stop r = (if \<not> dd_started r then r else r\<lparr>dd_pollers := 0, dd_started := False\<rparr>)"

definition dd_RegisterDistribution :: "string \<Rightarrow> string list \<Rightarrow> 'e dd_registry \<Rightarrow> dd_listener \<times> 'e dd_registry" where
  "dd_RegisterDistribution ID tags r =
     (let ID = trim_dot ID in
      case dd_registeredListeners r ID of
        Some l \<Rightarrow> (l, r)
      | None \<Rightarrow> let l = \<lparr>ddl_id = dd_prefix r @ ID, ddl_metricType = 0\<rparr>
                in (l, r\<lparr>dd_registeredListeners := (dd_registeredListeners r)(ID \<mapsto> l)\<rparr>))"

definition dd_RegisterTiming :: "string \<Rightarrow> string list \<Rightarrow> 'e dd_registry \<Rightarrow> dd_listener \<times> 'e dd_registry" where
  "dd_RegisterTiming ID tags r =
     (let ID = trim_dot ID in
      case dd_registeredListeners r ID of
        Some l \<Rightarrow> (l, r)
      | None \<Rightarrow> let l = \<lparr>ddl_id = dd_prefix r @ ID, ddl_metricType = 1\<rparr>
                in (l, r\<lparr>dd_registeredListeners := (dd_registeredListeners r)(ID \<mapsto> l)\<rparr>))"

definition dd_RegisterCount :: "string \<Rightarrow> string list \<Rightarrow> 'e dd_registry \<Rightarrow> dd_listener \<times> 'e dd_registry" where
  "dd_RegisterCount ID tags r =
     (let ID = trim_dot ID in
      case dd_registeredListeners r ID of
        Some l \<Rightarrow> (l, r)
      | None \<Rightarrow> let l = \<lparr>ddl_id = dd_prefix r @ ID, ddl_metricType = 2\<rparr>
                in (l, r\<lparr>dd_registeredListeners := (dd_registeredListeners r)(ID \<mapsto> l)\<rparr>))"

definition dd_RegisterGauge ::
    "string \<Rightarrow> ('e \<Rightarrow> float64 \<times> bool) \<Rightarrow> string list \<Rightarrow> 'e dd_registry \<Rightarrow> 'e dd_registry" where
  "dd_RegisterGauge ID supplier tags r =
     (let ID = trim_dot ID in
      case dd_registeredGauges r ID of
        Some g \<Rightarrow> r
      | None \<Rightarrow> r\<lparr>dd_registeredGauges := (dd_registeredGauges r)(ID \<mapsto> \<lparr>mp_supplier = supplier, mp_id = ID, mp_tags = tags\<rparr>)\<rparr>)"

text \<open>The registrations that return a listener, by kind; gauges have none.\<close>

fun dd_register :: "metric_kind \<Rightarrow> string \<Rightarrow> string list \<Rightarrow> 'e dd_registry \<Rightarrow> (dd_listener \<times> 'e dd_registry) option" where
  "dd_register Distribution ID tags r = Some (dd_RegisterDistribution ID tags r)"
| "dd_register Timing ID tags r = Some (dd_RegisterTiming ID tags r)"
| "dd_register _ ID tags r = Some (dd_RegisterCount ID tags r)"

lemmas dd_register_defs = dd_RegisterDistribution_def dd_RegisterTiming_def dd_RegisterCount_def

interpretation datadog: listener_registry dd_register dd_registeredListeners trim_dot
proof unfold_locales
  fix s :: "'e dd_registry" and ID h kd tags
  assume "dd_registeredListeners s (trim_dot ID) = Some h"
  then show "dd_register kd ID tags s = Some (h, s)" by (cases kd) (simp_all add: dd_register_defs Let_def)
next
  fix s s' :: "'e dd_registry" and ID h kd tags
  assume "dd_registeredListeners s (trim_dot ID) = None" and "dd_register kd ID tags s = Some (h, s')"
  then show "dd_registeredListeners s' = (dd_registeredListeners s)(trim_dot ID \<mapsto> h)"
    by (cases kd) (auto simp: dd_register_defs Let_def)
qed

section \<open>go-metrics\<close>

text \<open>
  The metrics of the go-metrics registry are named by the calls that fetch or create them; updates
  of a histogram, a timer (in nanoseconds), a counter and a gauge.
\<close>

datatype gm_call =
    HistogramUpdate string int
  | TimerUpdate string int
  | CounterInc string int
  | GaugeUpdate string float64

record gm_listener =
  gml_id :: string
  gml_metricType :: nat

definition gm_AddSample :: "gm_listener \<Rightarrow> float64 \<Rightarrow> string list \<Rightarrow> gm_call list" where
  "gm_AddSample l v tags =
     (if gml_metricType l = 0 then [HistogramUpdate (gml_id l) (f2i v)]
      else if gml_metricType l = 1 then [TimerUpdate (gml_id l) (i64 (f2i v * 1000000))]
      else if gml_metricType l = 2 then [CounterInc (gml_id l) (f2i v)]
      else [])"

record 'e gm_registry =
  gm_prefix :: string
  gm_pollFrequency :: int
  gm_registeredGauges :: "string \<Rightarrow> 'e metric_poller option"
  gm_registeredListeners :: "string \<Rightarrow> gm_listener option"
  gm_started :: bool
  gm_pollers :: nat

definition NewGoMetricsMetricRegistry :: "bool \<Rightarrow> string \<Rightarrow> string \<Rightarrow> int \<Rightarrow> registry_error + 'e gm_registry" where
  "NewGoMetricsMetricRegistry registry addr prefix pollFrequency =
     (let prefix = (if prefix = '''' then defaultMetricPrefix else prefix);
          prefix = (if \<not> ends_with_dot prefix then prefix @ ''.'' else prefix);
          pollFrequency = (if pollFrequency = 0 then defaultPollFrequency else pollFrequency)
      in if \<not> registry then Inl RegistryRequired
         else Inr \<lparr>gm_prefix = prefix, gm_pollFrequency = pollFrequency, gm_registeredGauges = Map.empty,
                   gm_registeredListeners = Map.empty, gm_started = False, gm_pollers = 0\<rparr>)"

definition gm_Start :: "'e gm_registry \<Rightarrow> 'e gm_registry" where
  "gm_Start r = (if \<not> gm_started r then r\<lparr>gm_pollers := Suc (gm_pollers r)\<rparr> else r)"

definition gm_run_tick :: "'e \<Rightarrow> string list \<Rightarrow> 'e gm_registry \<Rightarrow> gm_call list" where
  "gm_run_tick env ks r = concat (map (\<lambda>k. case gm_registeredGauges r k of
      None \<Rightarrow> []
    | Some g \<Rightarrow> (case poll env g of (metricSuffix, v, tags, ok) \<Rightarrow>
                  if ok then [GaugeUpdate (gm_prefix r @ metricSuffix) v] else [])) ks)"

definition gm_Stop :: "'e gm_registry \<Rightarrow> 'e gm_registry" where
  "gm_Stop r = (if \<not> gm_started r then r else r\<lparr>gm_pollers := 0, gm_started := False\<rparr>)"

definition gm_RegisterDistribution :: "string \<Rightarrow> string list \<Rightarrow> 'e gm_registry \<Rightarrow> gm_listener \<times> 'e gm_registry" where
  "gm_RegisterDistribution ID tags r =
     (let ID = trim_dot ID in
      case gm_registeredListeners r ID of
        Some l \<Rightarrow> (l, r)
      | None \<Rightarrow> let l = \<lparr>gml_id = gm_prefix r @ ID, gml_metricType = 0\<rparr>
                in (l, r\<lparr>gm_registeredListeners := (gm_registeredListeners r)(ID \<mapsto> l)\<rparr>))"

definition gm_RegisterTiming :: "string \<Rightarrow> string list \<Rightarrow> 'e gm_registry \<Rightarrow> gm_listener \<times> 'e gm_registry" where
  "gm_RegisterTiming ID tags r =
     (let ID = trim_dot ID in
      case gm_registeredListeners r ID of
        Some l \<Rightarrow> (l, r)
      | None \<Rightarrow> let l = \<lparr>gml_id = gm_prefix r @ ID, gml_metricType = 1\<rparr>
                in (l, r\<lparr>gm_registeredListeners := (gm_registeredListeners r)(ID \<mapsto> l)\<rparr>))"

definition gm_RegisterCount :: "string \<Rightarrow> string list \<Rightarrow> 'e gm_registry \<Rightarrow> gm_listener \<times> 'e gm_registry" where
  "gm_RegisterCount ID tags r =
     (let ID = trim_dot ID in
      case gm_registeredListeners r ID of
        Some l \<Rightarrow> (l, r)
      | None \<Rightarrow> let l = \<lparr>gml_id = gm_prefix r @ ID, gml_metricType = 2\<rparr>
                in (l, r\<lparr>gm_registeredListeners := (gm_registeredListeners r)(ID \<mapsto> l)\<rparr>))"

definition gm_RegisterGauge ::
    "string \<Rightarrow> ('e \<Rightarrow> float64 \<times> bool) \<Rightarrow> string list \<Rightarrow> 'e gm_registry \<Rightarrow> 'e gm_registry" where
  "gm_RegisterGauge ID supplier tags r =
     (let ID = trim_dot ID in
      case gm_registeredGauges r ID of
        Some g \<Rightarrow> r
      | None \<Rightarrow> r\<lparr>gm_registeredGauges := (gm_registeredGauges r)(ID \<mapsto> \<lparr>mp_supplier = supplier, mp_id = ID, mp_tags = tags\<rparr>)\<rparr>)"

fun gm_register :: "metric_kind \<Rightarrow> string \<Rightarrow> string list \<Rightarrow> 'e gm_registry \<Rightarrow> (gm_listener \<times> 'e gm_registry) option" where
  "gm_register Distribution ID tags r = Some (gm_RegisterDistribution ID tags r)"
| "gm_register Timing ID tags r = Some (gm_RegisterTiming ID tags r)"
| "gm_register _ ID tags r = Some (gm_RegisterCount ID tags r)"

lemmas gm_register_defs = gm_RegisterDistribution_def gm_RegisterTiming_def gm_RegisterCount_def

interpretation gometrics: listener_registry gm_register gm_registeredListeners trim_dot
proof unfold_locales
  fix s :: "'e gm_registry" and ID h kd tags
  assume "gm_registeredListeners s (trim_dot ID) = Some h"
  then show "gm_register kd ID tags s = Some (h, s)" by (cases kd) (simp_all add: gm_register_defs Let_def)
next
  fix s s' :: "'e gm_registry" and ID h kd tags
  assume "gm_registeredListeners s (trim_dot ID) = None" and "gm_register kd ID tags s = Some (h, s')"
  then show "gm_registeredListeners s' = (gm_registeredListeners s)(trim_dot ID \<mapsto> h)"
    by (cases kd) (auto simp: gm_register_defs Let_def)
qed

section \<open>Starting and stopping\<close>

datatype registry_op = OpStart | OpStop

fun dd_op :: "registry_op \<Rightarrow> 'e dd_registry \<Rightarrow> 'e dd_registry" where
  "dd_op OpStart r = dd_Start r"
| "dd_op OpStop r = dd_Stop r"

fun gm_op :: "registry_op \<Rightarrow> 'e gm_registry \<Rightarrow> 'e gm_registry" where
  "gm_op OpStart r = gm_Start r"
| "gm_op OpStop r = gm_Stop r"

lemma dd_ops: "\<not> dd_started r \<Longrightarrow>
  \<not> dd_started (fold dd_op ops r) \<and> dd_pollers (fold dd_op ops r) = dd_pollers r + length (filter (\<lambda>x. x = OpStart) ops)"
proof (induction ops arbitrary: r)
  case (Cons x ops)
  then show ?case by (cases x) (simp_all add: dd_Start_def dd_Stop_def)
qed simp

lemma gm_ops: "\<not> gm_started r \<Longrightarrow>
  \<not> gm_started (fold gm_op ops r) \<and> gm_pollers (fold gm_op ops r) = gm_pollers r + length (filter (\<lambda>x. x = OpStart) ops)"
proof (induction ops arbitrary: r)
  case (Cons x ops)
  then show ?case by (cases x) (simp_all add: gm_Start_def gm_Stop_def)
qed simp

text \<open>\<open>Stop\<close> stops nothing: \<open>Start\<close> does not set the flag that it and \<open>Stop\<close> test, so after any sequence of
  starts and stops of a new Datadog or go-metrics registry there is one polling goroutine for every
  \<open>Start\<close>, and none of them has been told to end.\<close>

theorem registry_stop_ineffective:
  assumes "dd_NewMetricRegistry dialled pre freq = Inr r" and "NewGoMetricsMetricRegistry reg addr pre freq = Inr s"
  shows "dd_pollers (fold dd_op ops r) = length (filter (\<lambda>x. x = OpStart) ops)
    \<and> gm_pollers (fold gm_op ops s) = length (filter (\<lambda>x. x = OpStart) ops)"
proof -
  have "\<not> dd_started r" "dd_pollers r = 0" "\<not> gm_started s" "gm_pollers s = 0"
    using assms by (auto simp: dd_NewMetricRegistry_def NewGoMetricsMetricRegistry_def Let_def split: if_splits)
  then show ?thesis using dd_ops [of r ops] gm_ops [of s ops] by simp
qed

theorem registry_stop_ineffective_witness:
  "\<exists>r s. dd_NewMetricRegistry True [] 0 = Inr (r :: unit dd_registry) \<and> NewGoMetricsMetricRegistry True [] [] 0 = Inr (s :: unit gm_registry)
     \<and> dd_pollers (fold dd_op [OpStart, OpStop, OpStart, OpStop] r) = 2"
proof -
  obtain r s where r: "dd_NewMetricRegistry True [] 0 = Inr (r :: unit dd_registry)"
    and s: "NewGoMetricsMetricRegistry True [] [] 0 = Inr (s :: unit gm_registry)"
    by (simp add: dd_NewMetricRegistry_def NewGoMetricsMetricRegistry_def Let_def)
  from registry_stop_ineffective [OF r s, of "[OpStart, OpStop, OpStart, OpStop]"] r s show ?thesis
    by (simp del: fold_simps)
qed

text \<open>Listeners are found again by identifier alone: after an identifier has been registered with a
  Datadog or a go-metrics registry, and whatever else is registered after it, registering it again, with
  other tags or as another kind of metric, gives the first listener and changes nothing.\<close>

theorem registry_reuses_listener:
  assumes "dd_register kd ID tags r = Some (h, r1)" and "datadog.reg_all regs r1 = Some r2"
    and "gm_register kd ID tags s = Some (k, s1)" and "gometrics.reg_all regs s1 = Some s2"
  shows "dd_register kd' ID tags' r2 = Some (h, r2) \<and> gm_register kd' ID tags' s2 = Some (k, s2)"
  using datadog.reg_again [OF assms(1,2)] gometrics.reg_again [OF assms(3,4)] by simp

theorem registry_reuses_listener_witness:
  "\<exists>r h r1. dd_NewMetricRegistry True [] 0 = Inr (r :: unit dd_registry) \<and> dd_register Timing ''rtt'' [] r = Some (h, r1)
     \<and> dd_register Count ''.rtt'' [''a:b''] r1 = Some (h, r1)"
proof -
  obtain r s where r: "dd_NewMetricRegistry True [] 0 = Inr (r :: unit dd_registry)"
    and s: "NewGoMetricsMetricRegistry True [] [] 0 = Inr (s :: unit gm_registry)"
    by (simp add: dd_NewMetricRegistry_def NewGoMetricsMetricRegistry_def Let_def)
  obtain h r1 k s1 where h: "dd_register Timing ''rtt'' [] r = Some (h, r1)" and k: "gm_register Timing ''rtt'' [] s = Some (k, s1)"
    by (metis dd_register.simps(2) gm_register.simps(2) prod.exhaust)
  have "dd_register Count ''rtt'' [''a:b''] r1 = Some (h, r1)"
    using registry_reuses_listener [OF h datadog.reg_all.simps(1) k gometrics.reg_all.simps(1)] by blast
  moreover have "dd_register Count ''.rtt'' t r1 = dd_register Count ''rtt'' t r1" for t
    by (simp add: dd_RegisterCount_def trim_dot_def)
  ultimately show ?thesis using r h by auto
qed

end
