(* ===== verification/Metric_Prometheus.thy ===== *)
theory Metric_Prometheus
  imports Metric_Registry
begin

text \<open>
  \<open>metric_registry/prometheus\<close>: metrics are registered with a Prometheus registerer, which is an
  argument (\<open>None\<close>: \<open>MustRegister\<close> panics) and polls by itself.
\<close>

section \<open>Names and labels\<close>

definition defaultMetricNamespace :: string where "defaultMetricNamespace = ''limiter''"

definition sanitizeName :: "string \<Rightarrow> string" where
  "sanitizeName ident = map (\<lambda>c. if c = CHR ''.'' then CHR ''_'' else c) (trim_dot ident)"

text \<open>\<open>strings.SplitN(t, ":", 2)\<close> when it has two parts.\<close>

definition split_colon :: "string \<Rightarrow> (string \<times> string) option" where
  "split_colon t = (case dropWhile (\<lambda>c. c \<noteq> CHR '':'') t of [] \<Rightarrow> None | _ # v \<Rightarrow> Some (takeWhile (\<lambda>c. c \<noteq> CHR '':'') t, v))"

definition parseTags :: "string list \<Rightarrow> string \<Rightarrow> string option" where
  "parseTags tags = foldl (\<lambda>labels t. case split_colon t of None \<Rightarrow> labels | Some (k, v) \<Rightarrow> labels(k \<mapsto> v)) Map.empty tags"

section \<open>The registry\<close>

datatype prom_type = Summary | Counter | GaugeFunc

record prom_metric =
  pm_type :: prom_type
  pm_Namespace :: string
  pm_Name :: string
  pm_Help :: string
  pm_ConstLabels :: "string \<Rightarrow> string option"

datatype prom_call = SummaryObserve prom_metric float64 | CounterAdd prom_metric float64

record prom_listener =
  pl_metric :: prom_metric
  pl_metricType :: nat

definition prom_AddSample :: "prom_listener \<Rightarrow> float64 \<Rightarrow> string list \<Rightarrow> prom_call list" where
  "prom_AddSample l v tags =
     (if pl_metricType l = 0 then [SummaryObserve (pl_metric l) v]
      else if pl_metricType l = 1 then [SummaryObserve (pl_metric l) v]
      else if pl_metricType l = 2 then [CounterAdd (pl_metric l) v]
      else [])"

record ('g, 'e) prom_registry =
  pr_registerer :: 'g
  pr_namespace :: string
  pr_registeredListeners :: "string \<Rightarrow> prom_listener option"
  pr_registeredGauges :: "string \<Rightarrow> (prom_metric \<times> ('e \<Rightarrow> float64)) option"

text \<open>The first argument is \<open>prometheus.DefaultRegisterer\<close>.\<close>

definition NewMetricRegistryWithRegisterer :: "'g \<Rightarrow> string \<Rightarrow> 'g option \<Rightarrow> ('g, 'e) prom_registry" where
  "NewMetricRegistryWithRegisterer DefaultRegisterer namespace registerer =
     (let namespace = (if namespace = '''' then defaultMetricNamespace else namespace);
          registerer = (case registerer of None \<Rightarrow> DefaultRegisterer | Some g \<Rightarrow> g)
      in \<lparr>pr_registerer = registerer, pr_namespace = namespace, pr_registeredListeners = Map.empty,
          pr_registeredGauges = Map.empty\<rparr>)"

definition prom_NewMetricRegistry :: "'g \<Rightarrow> string \<Rightarrow> ('g, 'e) prom_registry" where
  "prom_NewMetricRegistry DefaultRegisterer namespace =
     NewMetricRegistryWithRegisterer DefaultRegisterer namespace (Some DefaultRegisterer)"

type_synonym 'g must_register = "prom_metric \<Rightarrow> 'g \<Rightarrow> 'g option"

definition prom_RegisterDistribution ::
    "'g must_register \<Rightarrow> string \<Rightarrow> string list \<Rightarrow> ('g, 'e) prom_registry \<Rightarrow> (prom_listener \<times> ('g, 'e) prom_registry) option" where
  "prom_RegisterDistribution MustRegister ID tags r =
     (case pr_registeredListeners r ID of
        Some l \<Rightarrow> Some (l, r)
      | None \<Rightarrow>
          let name = sanitizeName ID;
              summary = \<lparr>pm_type = Summary, pm_Namespace = pr_namespace r, pm_Name = name,
                         pm_Help = ''Distribution samples for '' @ ID, pm_ConstLabels = parseTags tags\<rparr>
          in case MustRegister summary (pr_registerer r) of
               None \<Rightarrow> None
             | Some g \<Rightarrow> let l = \<lparr>pl_metric = summary, pl_metricType = 0\<rparr>
                         in Some (l, r\<lparr>pr_registerer := g, pr_registeredListeners := (pr_registeredListeners r)(ID \<mapsto> l)\<rparr>))"

definition prom_RegisterTiming ::
    "'g must_register \<Rightarrow> string \<Rightarrow> string list \<Rightarrow> ('g, 'e) prom_registry \<Rightarrow> (prom_listener \<times> ('g, 'e) prom_registry) option" where
  "prom_RegisterTiming MustRegister ID tags r =
     (case pr_registeredListeners r ID of
        Some l \<Rightarrow> Some (l, r)
      | None \<Rightarrow>
          let name = sanitizeName ID;
              summary = \<lparr>pm_type = Summary, pm_Namespace = pr_namespace r, pm_Name = name @ ''_ms'',
                         pm_Help = ''Timing samples (ms) for '' @ ID, pm_ConstLabels = parseTags tags\<rparr>
          in case MustRegister summary (pr_registerer r) of
               None \<Rightarrow> None
             | Some g \<Rightarrow> let l = \<lparr>pl_metric = summary, pl_metricType = 1\<rparr>
                         in Some (l, r\<lparr>pr_registerer := g, pr_registeredListeners := (pr_registeredListeners r)(ID \<mapsto> l)\<rparr>))"

definition prom_RegisterCount ::
    "'g must_register \<Rightarrow> string \<Rightarrow> string list \<Rightarrow> ('g, 'e) prom_registry \<Rightarrow> (prom_listener \<times> ('g, 'e) prom_registry) option" where
  "prom_RegisterCount MustRegister ID tags r =
     (case pr_registeredListeners r ID of
        Some l \<Rightarrow> Some (l, r)
      | None \<Rightarrow>
          let name = sanitizeName ID;
              cnt = \<lparr>pm_type = Counter, pm_Namespace = pr_namespace r, pm_Name = name @ ''_total'',
                     pm_Help = ''Total count for '' @ ID, pm_ConstLabels = parseTags tags\<rparr>
          in case MustRegister cnt (pr_registerer r) of
               None \<Rightarrow> None
             | Some g \<Rightarrow> let l = \<lparr>pl_metric = cnt, pl_metricType = 2\<rparr>
                         in Some (l, r\<lparr>pr_registerer := g, pr_registeredListeners := (pr_registeredListeners r)(ID \<mapsto> l)\<rparr>))"

definition prom_RegisterGauge ::
    "'g must_register \<Rightarrow> string \<Rightarrow> ('e \<Rightarrow> float64 \<times> bool) \<Rightarrow> string list \<Rightarrow> ('g, 'e) prom_registry
     \<Rightarrow> ('g, 'e) prom_registry option" where
  "prom_RegisterGauge MustRegister ID supplier tags r =
     (case pr_registeredGauges r ID of
        Some g \<Rightarrow> Some r
      | None \<Rightarrow>
          let name = sanitizeName ID;
              gauge = \<lparr>pm_type = GaugeFunc, pm_Namespace = pr_namespace r, pm_Name = name, pm_Help = ''Gauge for '' @ ID,
                       pm_ConstLabels = parseTags tags\<rparr>;
              f = (\<lambda>env. case supplier env of (v, ok) \<Rightarrow> if \<not> ok then lit 0 else v)
          in case MustRegister gauge (pr_registerer r) of
               None \<Rightarrow> None
             | Some g \<Rightarrow> Some (r\<lparr>pr_registerer := g, pr_registeredGauges := (pr_registeredGauges r)(ID \<mapsto> (gauge, f))\<rparr>))"

definition prom_Start :: "('g, 'e) prom_registry \<Rightarrow> ('g, 'e) prom_registry" where "prom_Start r = r"
definition prom_Stop :: "('g, 'e) prom_registry \<Rightarrow> ('g, 'e) prom_registry" where "prom_Stop r = r"

fun prom_register ::
    "'g must_register \<Rightarrow> metric_kind \<Rightarrow> string \<Rightarrow> string list \<Rightarrow> ('g, 'e) prom_registry
     \<Rightarrow> (prom_listener \<times> ('g, 'e) prom_registry) option" where
  "prom_register mr Distribution ID tags r = prom_RegisterDistribution mr ID tags r"
| "prom_register mr Timing ID tags r = prom_RegisterTiming mr ID tags r"
| "prom_register mr _ ID tags r = prom_RegisterCount mr ID tags r"

lemmas prom_register_defs = prom_RegisterDistribution_def prom_RegisterTiming_def prom_RegisterCount_def

interpretation prometheus: listener_registry "prom_register mr" pr_registeredListeners "\<lambda>ID. ID" for mr
proof unfold_locales
  fix s :: "('g, 'e) prom_registry" and ID h kd tags and mr :: "'g must_register"
  assume "pr_registeredListeners s ID = Some h"
  then show "prom_register mr kd ID tags s = Some (h, s)" by (cases kd) (simp_all add: prom_register_defs)
next
  fix s s' :: "('g, 'e) prom_registry" and ID h kd tags and mr :: "'g must_register"
  assume "pr_registeredListeners s ID = None" and "prom_register mr kd ID tags s = Some (h, s')"
  then show "pr_registeredListeners s' = (pr_registeredListeners s)(ID \<mapsto> h)"
    by (cases kd) (auto simp: prom_register_defs Let_def split: option.splits)
qed

text \<open>A tag made of a name without a colon and a value is read back.\<close>

lemma split_colon_pair: "CHR '':'' \<notin> set k \<Longrightarrow> split_colon (k @ CHR '':'' # v) = Some (k, v)"
  by (simp add: split_colon_def dropWhile_append takeWhile_append dropWhile_eq_Nil_conv takeWhile_eq_all_conv)

lemma split_colon_None: "CHR '':'' \<notin> set t \<Longrightarrow> split_colon t = None"
proof -
  assume "CHR '':'' \<notin> set t"
  then have "dropWhile (\<lambda>c. c \<noteq> CHR '':'') t = []" by (auto simp: dropWhile_eq_Nil_conv)
  then show ?thesis unfolding split_colon_def by (simp only: list.case)
qed

lemma parseTags_append: "parseTags (tags @ [t]) = (case split_colon t of None \<Rightarrow> parseTags tags | Some (k, v) \<Rightarrow> (parseTags tags)(k \<mapsto> v))"
  unfolding parseTags_def by simp

text \<open>Labels of the Prometheus registry: a tag \<open>key:value\<close> whose key has no colon sets that label to the whole
  rest, colons included, and the last tag with a key wins; a tag without a colon sets none; and the
  sanitized name of a metric has no dot and is not changed by sanitizing it again.\<close>

theorem prometheus_labels:
  assumes "CHR '':'' \<notin> set k"
  shows "parseTags (tags @ [k @ CHR '':'' # v]) = (parseTags tags)(k \<mapsto> v)
    \<and> parseTags (tags @ [k]) = parseTags tags
    \<and> CHR ''.'' \<notin> set (sanitizeName ident) \<and> sanitizeName (sanitizeName ident) = sanitizeName ident"
proof -
  have nodot: "CHR ''.'' \<notin> set (sanitizeName ident)" by (auto simp: sanitizeName_def)
  then have "trim_dot (sanitizeName ident) = sanitizeName ident"
    by (cases "sanitizeName ident") (auto simp: trim_dot_def)
  then have "sanitizeName (sanitizeName ident) = sanitizeName ident"
    using nodot by (subst sanitizeName_def) (auto intro: map_idI)
  then show ?thesis using nodot split_colon_pair [OF assms] split_colon_None [OF assms] by (simp add: parseTags_append)
qed

theorem prometheus_labels_witness:
  "parseTags ([''a:1''] @ [''partition'' @ CHR '':'' # ''x:y'']) ''partition'' = Some ''x:y''"
  using prometheus_labels [of "''partition''" "[''a:1'']" "''x:y''"] by simp

end
