(* ===== verification/Registry_Lifecycle.thy ===== *)
theory Registry_Lifecycle
  imports Metric_Registry
begin

text \<open>
  The goroutines of the polling registries (\<open>metric_registry/datadog\<close>, \<open>metric_registry/gometrics\<close>): the
  callers of \<open>Start\<close> and \<open>Stop\<close> and the pollers in \<open>run\<close>, with the mutex, the channel \<open>stopper\<close> of
  capacity one and the wait group. The two registries have the same code here; what differs is the
  record, reached through a table of its operations. The poll frequency is taken to be positive: for a negative one, which the
  constructors accept, \<open>time.NewTicker\<close> panics in the first poller, and the program ends.
\<close>

section \<open>Goroutines\<close>

record 'r lifecycle_ops =
  lc_started :: "'r \<Rightarrow> bool"
  lc_Start :: "'r \<Rightarrow> 'r"
  lc_Stop :: "'r \<Rightarrow> 'r"

definition dd_lifecycle :: "'e dd_registry lifecycle_ops" where
  "dd_lifecycle = \<lparr>lc_started = dd_started, lc_Start = dd_Start, lc_Stop = dd_Stop\<rparr>"

definition gm_lifecycle :: "'e gm_registry lifecycle_ops" where
  "gm_lifecycle = \<lparr>lc_started = gm_started, lc_Start = gm_Start, lc_Stop = gm_Stop\<rparr>"

text \<open>
  A poller is in its select, has received a tick and wants the mutex, or has returned. A caller of \<open>Stop\<close> has
  found the registry started and holds the mutex, has sent on the channel and waits for the
  wait group with the mutex held, or has returned.
\<close>

datatype poller = Selecting | Ticked | Ended

datatype stop_caller = StopEntered | StopSent | StopReturned

record 'r poll_world =
  pw_registry :: 'r
  pw_locked :: bool
  pw_stopper :: nat
  pw_pollers :: "poller list"
  pw_stops :: "stop_caller list"
  pw_starts :: nat

inductive poll_step :: "'r lifecycle_ops \<Rightarrow> 'r poll_world \<Rightarrow> 'r poll_world \<Rightarrow> bool"
  for ops :: "'r lifecycle_ops" where
  start: "\<not> pw_locked w \<Longrightarrow> poll_step ops w
    (w\<lparr>pw_registry := lc_Start ops (pw_registry w), pw_starts := Suc (pw_starts w),
       pw_pollers := (if \<not> lc_started ops (pw_registry w) then pw_pollers w @ [Selecting] else pw_pollers w)\<rparr>)"
| tick: "i < length (pw_pollers w) \<Longrightarrow> pw_pollers w ! i = Selecting \<Longrightarrow>
    poll_step ops w (w\<lparr>pw_pollers := (pw_pollers w)[i := Ticked]\<rparr>)"
| poll: "i < length (pw_pollers w) \<Longrightarrow> pw_pollers w ! i = Ticked \<Longrightarrow> \<not> pw_locked w \<Longrightarrow>
    poll_step ops w (w\<lparr>pw_pollers := (pw_pollers w)[i := Selecting]\<rparr>)"
| told: "i < length (pw_pollers w) \<Longrightarrow> pw_pollers w ! i = Selecting \<Longrightarrow> 0 < pw_stopper w \<Longrightarrow>
    poll_step ops w (w\<lparr>pw_pollers := (pw_pollers w)[i := Ended], pw_stopper := pw_stopper w - 1\<rparr>)"
| stop_idle: "\<not> pw_locked w \<Longrightarrow> \<not> lc_started ops (pw_registry w) \<Longrightarrow>
    poll_step ops w (w\<lparr>pw_stops := pw_stops w @ [StopReturned]\<rparr>)"
| stop: "\<not> pw_locked w \<Longrightarrow> lc_started ops (pw_registry w) \<Longrightarrow>
    poll_step ops w (w\<lparr>pw_stops := pw_stops w @ [StopEntered], pw_locked := True\<rparr>)"
| send: "j < length (pw_stops w) \<Longrightarrow> pw_stops w ! j = StopEntered \<Longrightarrow> pw_stopper w < 1 \<Longrightarrow>
    poll_step ops w (w\<lparr>pw_stops := (pw_stops w)[j := StopSent], pw_stopper := Suc (pw_stopper w)\<rparr>)"
| waited: "j < length (pw_stops w) \<Longrightarrow> pw_stops w ! j = StopSent \<Longrightarrow> set (pw_pollers w) \<subseteq> {Ended} \<Longrightarrow>
    poll_step ops w (w\<lparr>pw_stops := (pw_stops w)[j := StopReturned], pw_locked := False,
      pw_registry := lc_Stop ops (pw_registry w)\<rparr>)"

inductive poll_reach :: "'r lifecycle_ops \<Rightarrow> 'r \<Rightarrow> 'r poll_world \<Rightarrow> bool"
  for ops :: "'r lifecycle_ops" and r0 :: 'r where
  start: "poll_reach ops r0 \<lparr>pw_registry = r0, pw_locked = False, pw_stopper = 0, pw_pollers = [], pw_stops = [], pw_starts = 0\<rparr>"
| step: "poll_reach ops r0 w \<Longrightarrow> poll_step ops w w' \<Longrightarrow> poll_reach ops r0 w'"

section \<open>A registry whose Start sets no flag\<close>

locale unflagged =
  fixes ops :: "'r lifecycle_ops" and pollers :: "'r \<Rightarrow> nat"
  assumes start_unflagged: "lc_started ops (lc_Start ops r) = lc_started ops r"
    and start_adds: "\<not> lc_started ops r \<Longrightarrow> pollers (lc_Start ops r) = Suc (pollers r)"
begin

definition never_told :: "'r poll_world \<Rightarrow> bool" where
  "never_told w \<longleftrightarrow> \<not> lc_started ops (pw_registry w) \<and> \<not> pw_locked w \<and> pw_stopper w = 0
     \<and> set (pw_pollers w) \<subseteq> {Selecting, Ticked} \<and> set (pw_stops w) \<subseteq> {StopReturned}
     \<and> length (pw_pollers w) = pw_starts w \<and> pollers (pw_registry w) = pw_starts w"

lemma never_told_step: "poll_step ops w w' \<Longrightarrow> never_told w \<Longrightarrow> never_told w'"
proof (induction rule: poll_step.induct)
  case (start w)
  then show ?case by (auto simp: never_told_def start_unflagged start_adds)
next
  case (tick i w)
  then show ?case using set_update_subset_insert [of "pw_pollers w" i Ticked] by (auto simp: never_told_def)
next
  case (poll i w)
  then show ?case using set_update_subset_insert [of "pw_pollers w" i Selecting] by (auto simp: never_told_def)
next
  case (send j w)
  then show ?case using nth_mem [of j "pw_stops w"] by (auto simp: never_told_def)
next
  case (waited j w)
  then show ?case using nth_mem [of j "pw_stops w"] by (auto simp: never_told_def)
qed (auto simp: never_told_def)

lemma never_told_reach:
  "poll_reach ops r0 w \<Longrightarrow> \<not> lc_started ops r0 \<Longrightarrow> pollers r0 = 0 \<Longrightarrow> never_told w"
  by (induction rule: poll_reach.induct) (simp add: never_told_def, blast intro: never_told_step)

lemma all_alive:
  assumes "poll_reach ops r0 w" and "\<not> lc_started ops r0" and "pollers r0 = 0"
  shows "Ended \<notin> set (pw_pollers w) \<and> length (pw_pollers w) = pw_starts w \<and> pw_stopper w = 0 \<and> \<not> pw_locked w
    \<and> set (pw_stops w) \<subseteq> {StopReturned}"
  using never_told_reach [OF assms] by (auto simp: never_told_def)

end

interpretation dd_unflagged: unflagged dd_lifecycle dd_pollers
  by unfold_locales (simp_all add: dd_lifecycle_def dd_Start_def)

interpretation gm_unflagged: unflagged gm_lifecycle gm_pollers
  by unfold_locales (simp_all add: gm_lifecycle_def gm_Start_def)

section \<open>A registry with the flag\<close>

text \<open>
  Setting the flag in \<open>Start\<close> would not be enough: a \<open>Stop\<close> that waits with the mutex held and a poller that
  has received a tick wait for each other for ever.
\<close>

definition deadlocked :: "nat \<Rightarrow> nat \<Rightarrow> 'r poll_world \<Rightarrow> bool" where
  "deadlocked i j w \<longleftrightarrow> pw_locked w \<and> i < length (pw_pollers w) \<and> pw_pollers w ! i = Ticked
     \<and> j < length (pw_stops w) \<and> pw_stops w ! j = StopSent \<and> StopEntered \<notin> set (pw_stops w)"

lemma deadlocked_step: "poll_step ops w w' \<Longrightarrow> deadlocked i j w \<Longrightarrow> deadlocked i j w'"
proof (induction rule: poll_step.induct)
  case (waited j' w)
  then show ?case using nth_mem [of i "pw_pollers w"] by (auto simp: deadlocked_def)
next
  case (send j' w)
  then show ?case using nth_mem [of j' "pw_stops w"] by (auto simp: deadlocked_def)
qed (auto simp: deadlocked_def nth_list_update)

lemma deadlocked_for_ever:
  "(poll_step ops)\<^sup>*\<^sup>* w w' \<Longrightarrow> deadlocked i j w \<Longrightarrow> pw_stops w' ! j = StopSent \<and> pw_pollers w' ! i = Ticked"
proof (induction rule: rtranclp_induct)
  case (step v v')
  have "deadlocked i j v" using step.hyps(1) step.prems by (induction rule: rtranclp_induct) (auto intro: deadlocked_step)
  then show ?case using deadlocked_step [OF step.hyps(2)] by (auto simp: deadlocked_def)
qed (simp add: deadlocked_def)

section \<open>Properties\<close>

text \<open>C38: \<open>Stop\<close> stops nothing: \<open>Start\<close> does not set the flag that it and \<open>Stop\<close> test. However the callers of
  \<open>Start\<close> and \<open>Stop\<close> and the pollers of a new Datadog or go-metrics registry interleave, there is one poller
  for every \<open>Start\<close>, none of them has ended or has a message to end, and each \<open>Stop\<close> has returned at once.\<close>

theorem registry_never_stops:
  assumes "dd_NewMetricRegistry dialled pre freq = Inr r" and "NewGoMetricsMetricRegistry reg addr pre freq = Inr s"
    and "poll_reach dd_lifecycle r v" and "poll_reach gm_lifecycle s w"
  shows "Ended \<notin> set (pw_pollers v) \<and> length (pw_pollers v) = pw_starts v \<and> pw_stopper v = 0
    \<and> set (pw_stops v) \<subseteq> {StopReturned}
    \<and> Ended \<notin> set (pw_pollers w) \<and> length (pw_pollers w) = pw_starts w \<and> pw_stopper w = 0
    \<and> set (pw_stops w) \<subseteq> {StopReturned}"
proof -
  have "\<not> lc_started dd_lifecycle r" "dd_pollers r = 0" "\<not> lc_started gm_lifecycle s" "gm_pollers s = 0"
    using assms(1,2)
    by (auto simp: dd_NewMetricRegistry_def NewGoMetricsMetricRegistry_def dd_lifecycle_def gm_lifecycle_def Let_def
        split: if_splits)
  then show ?thesis using dd_unflagged.all_alive [OF assms(3)] gm_unflagged.all_alive [OF assms(4)] by blast
qed

theorem registry_never_stops_witness:
  "\<exists>r s v. dd_NewMetricRegistry True [] 0 = Inr (r :: unit dd_registry) \<and> NewGoMetricsMetricRegistry True [] [] 0 = Inr (s :: unit gm_registry)
     \<and> poll_reach dd_lifecycle r v \<and> pw_stops v = [StopReturned] \<and> pw_starts v = 2 \<and> length (pw_pollers v) = 2"
proof -
  obtain r s where r: "dd_NewMetricRegistry True [] 0 = Inr (r :: unit dd_registry)"
    and s: "NewGoMetricsMetricRegistry True [] [] 0 = Inr (s :: unit gm_registry)"
    by (simp add: dd_NewMetricRegistry_def NewGoMetricsMetricRegistry_def Let_def)
  have idle: "\<not> dd_started r" using r by (auto simp: dd_NewMetricRegistry_def Let_def)
  let ?L = "dd_lifecycle :: unit dd_registry lifecycle_ops"
  let ?v0 = "\<lparr>pw_registry = r, pw_locked = False, pw_stopper = 0, pw_pollers = [], pw_stops = [], pw_starts = 0\<rparr>"
  let ?v1 = "?v0\<lparr>pw_registry := dd_Start r, pw_starts := 1, pw_pollers := [Selecting]\<rparr>"
  let ?v2 = "?v1\<lparr>pw_stops := [StopReturned]\<rparr>"
  let ?v3 = "?v2\<lparr>pw_registry := dd_Start (dd_Start r), pw_starts := 2, pw_pollers := [Selecting, Selecting]\<rparr>"
  have started: "\<not> dd_started (dd_Start r)" using idle by (simp add: dd_Start_def)
  have "poll_step ?L ?v0 ?v1" using poll_step.start [of ?v0 ?L] idle by (simp add: dd_lifecycle_def)
  moreover have "poll_step ?L ?v1 ?v2" using poll_step.stop_idle [of ?v1 ?L] started by (simp add: dd_lifecycle_def)
  moreover have "poll_step ?L ?v2 ?v3" using poll_step.start [of ?v2 ?L] started by (simp add: dd_lifecycle_def numeral_2_eq_2)
  ultimately have v: "poll_reach ?L r ?v3" by (blast intro: poll_reach.intros)
  from registry_never_stops [OF r s v poll_reach.start] r s v show ?thesis by fastforce
qed

end
