(* ===== verification/Example_Loading.thy ===== *)
theory Example_Loading
  imports Limiter_Locked Pool Interceptor_Grpc
begin

text \<open>
  \<open>examples/example_concurrent_loading/main.go\<close>: a resource guarded by a blocking limiter over a fixed limit of
  1000, and ten times as many workers that poll it. Log lines are left out; the resource is a parameter
  of the guarded poll, and so is what it draws at random.
\<close>

section \<open>The guarded resource\<close>

definition testContextKey :: ctx_key where
  "testContextKey = OtherKey 0"

text \<open>
  The resource: it counts itself in, reads the job's number from the context, which panics when there is none, and counts
  itself out after the scan, whose duration in nanoseconds is the third component. \<open>Exp\<close> is \<open>math.Exp\<close>.
\<close>

definition resource_poll :: "(float64 \<Rightarrow> float64) \<Rightarrow> int \<Rightarrow> ctx \<Rightarrow> int \<Rightarrow> (bool \<times> string option \<times> int) option \<times> int" where
  "resource_poll Exp numKeys ctx counter =
     (let currentCount = i64 (counter + 1) in
      case Value ctx testContextKey of
        Some (OtherValue n) \<Rightarrow>
          let scanTime = i64 (numKeys + i64 (f2i (Exp (fdiv (f64 numKeys) (lit 100))) * 1000000))
          in (Some (True, None, scanTime), i64 (currentCount - 1))
      | _ \<Rightarrow> (None, currentCount))"

datatype 'e poll_error = ShortCircuited nat | RequestFailed 'e

text \<open>The guarded poll; a limiter that refuses returns no token, so there is none to drop.\<close>

definition protected_poll ::
    "('d, 'k) delegate_ops \<Rightarrow> int \<Rightarrow> rand \<Rightarrow> ctx \<times> (ctx \<Rightarrow> (bool \<times> 'e option) option) \<Rightarrow> 'd
     \<Rightarrow> (bool \<times> 'e poll_error option) called \<times> 'd" where
  "protected_poll dops now rd = (\<lambda>(ctx, external) d.
     case Value ctx testContextKey of
       Some (OtherValue n) \<Rightarrow>
         (case lim_Acquire dops now ctx d of
            (None, d) \<Rightarrow> (Returned (False, Some (ShortCircuited n)), d)
          | (Some token, d) \<Rightarrow>
              (case external ctx of
                 None \<Rightarrow> (CallPanicked, d)
               | Some (_, Some err) \<Rightarrow> (Returned (False, Some (RequestFailed err)), lim_Complete dops rd WasDropped token d)
               | Some (_, None) \<Rightarrow> (Returned (True, None), lim_Complete dops rd Succeeded token d)))
     | _ \<Rightarrow> (CallPanicked, d))"

text \<open>The limiter that \<open>main\<close> makes; without one it ends.\<close>

definition loading_limiter :: "int \<Rightarrow> (fixed, simple) default_limiter blocking option" where
  "loading_limiter now =
     (case NewDefaultLimiter fixed_ops simple_ops now (Some (fst (NewFixedLimit ''initializer_limiter'' 1000 EmptyMetricRegistry [])))
             250000000 500000000 10000000 100 (Some (NewSimpleStrategy 1000)) (Some BuiltinLimitLogger) EmptyMetricRegistry of
        Inl err \<Rightarrow> None
      | Inr l \<Rightarrow> Some (NewBlockingLimiter l 1000000000 (Some BuiltinLimitLogger)))"

section \<open>The wait group\<close>

text \<open>\<open>Done\<close> panics when the counter would become negative.\<close>

definition wg_Add :: "int \<Rightarrow> int \<Rightarrow> int option" where
  "wg_Add n wg = (if wg + n < 0 then None else Some (wg + n))"

definition wg_Done :: "int \<Rightarrow> int option" where
  "wg_Done wg = wg_Add (- 1) wg"

text \<open>
  A worker polls five times and defers \<open>Done\<close> in each round, so that all five calls happen when it ends.
\<close>

fun worker_ends :: "nat \<Rightarrow> int \<Rightarrow> int option" where
  "worker_ends 0 wg = Some wg"
| "worker_ends (Suc n) wg = Option.bind (wg_Done wg) (worker_ends n)"

text \<open>\<open>main\<close> adds one for each of the ten thousand workers; \<open>k\<close> of them have ended.\<close>

primrec workers_end :: "nat \<Rightarrow> int \<Rightarrow> int option" where
  "workers_end 0 wg = Some wg"
| "workers_end (Suc k) wg = Option.bind (worker_ends 5 wg) (workers_end k)"

definition loading_main_wg :: "nat \<Rightarrow> int option" where
  "loading_main_wg k = Option.bind (wg_Add (10 * 1000) 0) (workers_end k)"

lemma worker_ends_result: "0 \<le> wg \<Longrightarrow> worker_ends n wg = (if int n \<le> wg then Some (wg - int n) else None)"
  by (induction n arbitrary: wg) (auto simp: wg_Done_def wg_Add_def)

lemma workers_end_result: "0 \<le> wg \<Longrightarrow> workers_end k wg = (if 5 * int k \<le> wg then Some (wg - 5 * int k) else None)"
  by (induction k arbitrary: wg) (auto simp: worker_ends_result)

text \<open>The program ends with a panic when the worker after the two thousandth ends: \<open>main\<close> counted one per worker, not five.\<close>

theorem loading_wait_group_overrun: "loading_main_wg k = (if k \<le> 2000 then Some (10000 - 5 * int k) else None)"
  by (simp add: loading_main_wg_def wg_Add_def workers_end_result)

section \<open>The capacity\<close>

text \<open>A job of the example is a guarded call: its context holds its number.\<close>

definition job_ctx :: "nat \<times> 'h \<Rightarrow> ctx" where
  "job_ctx x = WithValue [] testContextKey (OtherValue (fst x))"

definition job_class :: "nat \<times> (ctx \<Rightarrow> (bool \<times> 'e option) option) \<Rightarrow> int option" where
  "job_class x = map_option (\<lambda>(_, err). if err \<noteq> None then ResponseTypeDropped else ResponseTypeSuccess) (snd x (job_ctx x))"

interpretation loading_job: guarded_default lops sops
    "\<lambda>now rd x. protected_poll (default_delegate lops sops) now rd (job_ctx x, snd x)" job_ctx job_class for lops sops
  by unfold_locales
     (auto simp: protected_poll_def job_ctx_def job_class_def Value_def WithValue_def complete_as_def response_types
       split: option.splits)

interpretation simple_fixed: limiter_strict simple_ops s_inFlight "\<lambda>s _. s_inFlight s" simple_inv s_limit fixed_ops
    "\<lambda>l. fx_limit l = n" "\<lambda>_. True" n n for n
  by unfold_locales simp_all

lemma simple_fixed_capacity:
  assumes "NewDefaultLimiter fixed_ops simple_ops now (Some lmt) minW maxW thr ws (Some (NewSimpleStrategy m)) lg reg = Inr l0"
    and "limiter_reach fixed_ops simple_ops l0 (l, rs)" and "fx_limit lmt = n" and "1 \<le> n" and "n < 2 ^ 31" and "1 \<le> thr"
  shows "count_reqs holds_token rs \<le> n"
proof -
  note acc = simple_stack.new_limiter [OF assms(1) simple_idle simple_idle(2)]
  have ranged: "simple_fixed.ranged n (l0, [])"
    using simple_fixed.new_ranged [OF assms(1) simple_idle simple_idle(2)] assms(3,6) by simp
  have "s_inFlight (dl_strategy l) \<le> n"
    using simple_fixed.busy_reach [OF assms(2) ranged acc(2) assms(4,5)] by simp
  moreover have "simple_stack.accounted (l, rs)" using simple_stack.accounted_reach [OF assms(2) acc(1)] .
  ultimately show ?thesis by (simp add: simple_stack.accounted_def)
qed

text \<open>Ten thousand workers, or any number below \<open>2 ^ 31\<close>, poll the resource at once: never more than a thousand are inside.\<close>

theorem loading_capacity:
  assumes "loading_limiter now = Some b" and "block_reach (default_delegate fixed_ops simple_ops) b w"
    and "length (w_goroutines w) < 2 ^ 31"
  shows "holding_count w \<le> 1000"
proof -
  let ?lmt = "fst (NewFixedLimit ''initializer_limiter'' 1000 EmptyMetricRegistry [])"
  have lmt: "fx_limit ?lmt = 1000" by (simp add: NewFixedLimit_def Let_def case_prod_beta)
  obtain l0 where new: "NewDefaultLimiter fixed_ops simple_ops now (Some ?lmt) 250000000 500000000 10000000 100
      (Some (NewSimpleStrategy 1000)) (Some BuiltinLimitLogger) EmptyMetricRegistry = Inr l0" and b: "bk_delegate b = l0"
    using assms(1) by (auto simp: loading_limiter_def NewBlockingLimiter_def Let_def split: sum.splits)
  obtain rs where rs: "limiter_reach fixed_ops simple_ops l0 (bk_delegate (w_limiter w), rs)"
    and n: "int (length (filter holds_token rs)) = holding_count w"
    using block_callers [OF assms(2,3)] callers_match_total(1) b by (fastforce simp: callers_reach_def holding_count_def)
  show ?thesis using simple_fixed_capacity [OF new rs lmt] n by (simp add: count_reqs_def)
qed

end
