(* ===== verification/Example_Tickers.thy ===== *)
theory Example_Tickers
  imports Example_Loading
begin

text \<open>
  \<open>examples/example_simple_limit/main.go\<close> and \<open>examples/example_blocking_limit/main.go\<close>: a ticker starts a worker at
  every tick, each worker polls a guarded resource five times, and a timer ends the program, which then waits for
  the workers. The two programs differ in the key of the job's number, in the limiter and in how long the resource takes. The rate
  limiter of the resource is a package outside the repository and so a parameter; log lines are left out.
\<close>

section \<open>The guarded resource\<close>

definition simple_testContextKey :: ctx_key where
  "simple_testContextKey = OtherKey 1"

definition blocking_testContextKey :: ctx_key where
  "blocking_testContextKey = OtherKey 2"

datatype rate_error = RateLimitExceeded nat

text \<open>
  The resource: the job's number is read from the context, which panics when there is none; \<open>allow\<close> is the rate limiter. The last
  component of the result is how long it sleeps, in nanoseconds.
\<close>

definition rated_poll ::
    "ctx_key \<Rightarrow> (rand \<Rightarrow> int) \<Rightarrow> int \<Rightarrow> ('r \<Rightarrow> bool \<times> 'r) \<Rightarrow> rand \<Rightarrow> ctx \<Rightarrow> 'r \<Rightarrow> (bool \<times> rate_error option \<times> int) option \<times> 'r" where
  "rated_poll key work refused allow rd ctx r =
     (case Value ctx key of
        Some (OtherValue n) \<Rightarrow>
          (case allow r of
             (False, r) \<Rightarrow> (Some (False, Some (RateLimitExceeded n), refused), r)
           | (True, r) \<Rightarrow> (Some (True, None, work rd), r))
      | _ \<Rightarrow> (None, r))"

definition simple_resource_poll ::
    "('r \<Rightarrow> bool \<times> 'r) \<Rightarrow> rand \<Rightarrow> ctx \<Rightarrow> 'r \<Rightarrow> (bool \<times> rate_error option \<times> int) option \<times> 'r" where
  "simple_resource_poll = rated_poll simple_testContextKey (\<lambda>rd. 1000000 * (randIntn rd 90 + 10)) (1000000 * 10)"

definition blocking_resource_poll ::
    "('r \<Rightarrow> bool \<times> 'r) \<Rightarrow> rand \<Rightarrow> ctx \<Rightarrow> 'r \<Rightarrow> (bool \<times> rate_error option \<times> int) option \<times> 'r" where
  "blocking_resource_poll = rated_poll blocking_testContextKey (\<lambda>rd. 1000000000 * randIntn rd 2) (1000000 * 10)"

text \<open>The guarded poll; a limiter that refuses returns no token, so there is none to drop.\<close>

definition guarded_poll ::
    "ctx_key \<Rightarrow> ('d, 'k) delegate_ops \<Rightarrow> int \<Rightarrow> rand \<Rightarrow> ctx \<times> (ctx \<Rightarrow> (bool \<times> 'e option) option) \<Rightarrow> 'd
     \<Rightarrow> (bool \<times> 'e poll_error option) called \<times> 'd" where
  "guarded_poll key dops now rd = (\<lambda>(ctx, external) d.
     case Value ctx key of
       Some (OtherValue n) \<Rightarrow>
         (case lim_Acquire dops now ctx d of
            (None, d) \<Rightarrow> (Returned (False, Some (ShortCircuited n)), d)
          | (Some token, d) \<Rightarrow>
              (case external ctx of
                 None \<Rightarrow> (CallPanicked, d)
               | Some (_, Some err) \<Rightarrow> (Returned (False, Some (RequestFailed err)), lim_Complete dops rd WasDropped token d)
               | Some (_, None) \<Rightarrow> (Returned (True, None), lim_Complete dops rd Succeeded token d)))
     | _ \<Rightarrow> (CallPanicked, d))"

definition simple_guarded_poll ::
    "('d, 'k) delegate_ops \<Rightarrow> int \<Rightarrow> rand \<Rightarrow> ctx \<times> (ctx \<Rightarrow> (bool \<times> 'e option) option) \<Rightarrow> 'd
     \<Rightarrow> (bool \<times> 'e poll_error option) called \<times> 'd" where
  "simple_guarded_poll = guarded_poll simple_testContextKey"

definition blocking_guarded_poll ::
    "('d, 'k) delegate_ops \<Rightarrow> int \<Rightarrow> rand \<Rightarrow> ctx \<times> (ctx \<Rightarrow> (bool \<times> 'e option) option) \<Rightarrow> 'd
     \<Rightarrow> (bool \<times> 'e poll_error option) called \<times> 'd" where
  "blocking_guarded_poll = guarded_poll blocking_testContextKey"

lemma loading_guarded_poll: "protected_poll = guarded_poll testContextKey"
  by (simp add: protected_poll_def guarded_poll_def fun_eq_iff)

section \<open>The limiters\<close>

text \<open>Without a limiter \<open>main\<close> ends.\<close>

definition simple_example_limiter ::
    "(float64 \<Rightarrow> float64) \<Rightarrow> int list \<Rightarrow> rand \<Rightarrow> (vegas, simple) default_limiter option" where
  "simple_example_limiter Log10 table rd =
     (case NewDefaultLimiterWithDefaults Log10 table rd simple_ops ''example_single_limit'' (Some (NewSimpleStrategy 10))
             (Some BuiltinLimitLogger) EmptyMetricRegistry [] of
        Inl err \<Rightarrow> None
      | Inr l \<Rightarrow> Some l)"

definition blocking_example_limiter ::
    "(float64 \<Rightarrow> float64) \<Rightarrow> int list \<Rightarrow> rand \<Rightarrow> (vegas, simple) default_limiter blocking option" where
  "blocking_example_limiter Log10 table rd =
     (case NewDefaultLimiterWithDefaults Log10 table rd simple_ops ''example_blocking_limit'' (Some (NewSimpleStrategy 10))
             (Some BuiltinLimitLogger) EmptyMetricRegistry [] of
        Inl err \<Rightarrow> None
      | Inr l \<Rightarrow> Some (NewBlockingLimiter l 0 (Some BuiltinLimitLogger)))"

section \<open>The main loop\<close>

text \<open>
  A worker polls its \<open>i\<close>-th job, number \<open>c + i\<close>, and defers a call of \<open>Done\<close> in each round; the five calls run
  when it ends. \<open>main\<close> selects between the ticker and the timer. \<open>tm_jobs\<close> is a ghost: the numbers polled so far.
\<close>

datatype worker = Polling int nat | Deferred nat

datatype main_phase = Selecting_ticks | Waiting | Main_returned

record ticker_main =
  tm_phase :: main_phase
  tm_wg :: int
  tm_counter :: int
  tm_workers :: "worker list"
  tm_jobs :: "int list"

definition ticker_start :: ticker_main where
  "ticker_start = \<lparr>tm_phase = Selecting_ticks, tm_wg = 0, tm_counter = 0, tm_workers = [], tm_jobs = []\<rparr>"

text \<open>A panic of the wait group would end the program: there is no step for it, and none is needed.\<close>

inductive ticker_step :: "ticker_main \<Rightarrow> ticker_main \<Rightarrow> bool" where
  tick: "tm_phase s = Selecting_ticks \<Longrightarrow> wg_Add 5 (tm_wg s) = Some wg
    \<Longrightarrow> ticker_step s (s\<lparr>tm_wg := wg, tm_counter := i64 (tm_counter s + 5), tm_workers := tm_workers s @ [Polling (tm_counter s) 0]\<rparr>)"
| timer: "tm_phase s = Selecting_ticks \<Longrightarrow> ticker_step s (s\<lparr>tm_phase := Waiting\<rparr>)"
| poll: "k < length (tm_workers s) \<Longrightarrow> tm_workers s ! k = Polling c i \<Longrightarrow> i < 5
    \<Longrightarrow> ticker_step s (s\<lparr>tm_workers := (tm_workers s)[k := Polling c (Suc i)], tm_jobs := tm_jobs s @ [i64 (c + int i)]\<rparr>)"
| polled: "k < length (tm_workers s) \<Longrightarrow> tm_workers s ! k = Polling c 5
    \<Longrightarrow> ticker_step s (s\<lparr>tm_workers := (tm_workers s)[k := Deferred 5]\<rparr>)"
| deferred: "k < length (tm_workers s) \<Longrightarrow> tm_workers s ! k = Deferred (Suc n) \<Longrightarrow> wg_Done (tm_wg s) = Some wg
    \<Longrightarrow> ticker_step s (s\<lparr>tm_wg := wg, tm_workers := (tm_workers s)[k := Deferred n]\<rparr>)"
| waited: "tm_phase s = Waiting \<Longrightarrow> tm_wg s = 0 \<Longrightarrow> ticker_step s (s\<lparr>tm_phase := Main_returned\<rparr>)"

inductive ticker_reach :: "ticker_main \<Rightarrow> bool" where
  start: "ticker_reach ticker_start"
| step: "ticker_reach s \<Longrightarrow> ticker_step s s' \<Longrightarrow> ticker_reach s'"

section \<open>Counting the workers\<close>

fun pending_dones :: "worker \<Rightarrow> nat" where
  "pending_dones (Polling c i) = 5"
| "pending_dones (Deferred n) = n"

fun polled_jobs :: "worker \<Rightarrow> nat" where
  "polled_jobs (Polling c i) = i"
| "polled_jobs (Deferred n) = 5"

fun steps_left :: "worker \<Rightarrow> nat" where
  "steps_left (Polling c i) = 11 - i"
| "steps_left (Deferred n) = n"

lemma sum_list_map_update:
  fixes f :: "'a \<Rightarrow> nat"
  assumes "k < length xs"
  shows "sum_list (map f (xs[k := x])) + f (xs ! k) = sum_list (map f xs) + f x"
proof -
  have "sum_list (map f xs) = sum_list (map f (take k xs @ xs ! k # drop (Suc k) xs))"
    using assms by (simp add: id_take_nth_drop [symmetric])
  then show ?thesis by (simp add: upd_conv_take_nth_drop [OF assms])
qed

text \<open>The wait group counts the calls of \<open>Done\<close> to come, and \<open>main\<close> returns when there are none.\<close>

definition ticker_inv :: "ticker_main \<Rightarrow> bool" where
  "ticker_inv s \<longleftrightarrow> tm_wg s = int (sum_list (map pending_dones (tm_workers s)))
     \<and> (\<forall>w \<in> set (tm_workers s). polled_jobs w \<le> 5)
     \<and> (tm_phase s = Main_returned \<longrightarrow> set (tm_workers s) \<subseteq> {Deferred 0})"

lemma pending_zero: "pending_dones w = 0 \<longleftrightarrow> w = Deferred 0"
  by (cases w) auto

lemma pending_positive:
  "\<lbrakk>ticker_inv s; k < length (tm_workers s); tm_workers s ! k = Deferred (Suc n)\<rbrakk> \<Longrightarrow> 0 < tm_wg s"
  using member_le_sum_list [of "Suc n" "map pending_dones (tm_workers s)"]
  by (force simp: ticker_inv_def in_set_conv_nth)

lemma ticker_inv_update:
  assumes "ticker_inv s" and "k < length (tm_workers s)" and "tm_phase s = Main_returned \<longrightarrow> tm_workers s ! k \<noteq> Deferred 0"
    and "polled_jobs w \<le> 5" and "wg + int (pending_dones (tm_workers s ! k)) = tm_wg s + int (pending_dones w)"
    and "tm_phase s' = tm_phase s" and "tm_workers s' = (tm_workers s)[k := w]" and "tm_wg s' = wg"
  shows "ticker_inv s'"
proof -
  have "tm_phase s \<noteq> Main_returned" using assms(1-3) nth_mem [OF assms(2)] unfolding ticker_inv_def by blast
  moreover have "set (tm_workers s') \<subseteq> insert w (set (tm_workers s))" using assms(7) by (simp add: set_update_subset_insert)
  ultimately show ?thesis
    using assms sum_list_map_update [OF assms(2), of pending_dones w] by (auto simp: ticker_inv_def)
qed

lemma ticker_inv_step: "ticker_step s s' \<Longrightarrow> ticker_inv s \<Longrightarrow> ticker_inv s'"
proof (induction rule: ticker_step.induct)
  case (tick s wg)
  then show ?case by (auto simp: ticker_inv_def wg_Add_def split: if_splits)
next
  case (timer s)
  then show ?case by (simp add: ticker_inv_def)
next
  case (poll k s c i)
  then show ?case by - (rule ticker_inv_update [of s k "Polling c (Suc i)" "tm_wg s"], simp_all)
next
  case (polled k s c)
  then show ?case by - (rule ticker_inv_update [of s k "Deferred 5" "tm_wg s"], simp_all)
next
  case (deferred k s n wg)
  then have "wg = tm_wg s - 1" by (auto simp: wg_Done_def wg_Add_def split: if_splits)
  with deferred show ?case by - (rule ticker_inv_update [of s k "Deferred n" wg], simp_all)
next
  case (waited s)
  then have "sum_list (map pending_dones (tm_workers s)) = 0" by (simp add: ticker_inv_def)
  then have "\<forall>w \<in> set (tm_workers s). pending_dones w = 0" by (simp add: sum_list_eq_0_iff)
  with waited show ?case by (auto simp: ticker_inv_def pending_zero)
qed

lemma ticker_inv_reach: "ticker_reach s \<Longrightarrow> ticker_inv s"
  by (induction rule: ticker_reach.induct) (auto intro: ticker_inv_step, simp add: ticker_inv_def ticker_start_def)

text \<open>The wait group never panics: an addition succeeds, and so does every deferred \<open>Done\<close>.\<close>

theorem ticker_wait_group:
  assumes "ticker_reach s"
  shows "wg_Add 5 (tm_wg s) \<noteq> None \<and> 0 \<le> tm_wg s
    \<and> (\<forall>k < length (tm_workers s). \<forall>n. tm_workers s ! k = Deferred (Suc n) \<longrightarrow> wg_Done (tm_wg s) \<noteq> None)"
proof -
  note inv = ticker_inv_reach [OF assms]
  then have "0 \<le> tm_wg s" by (simp add: ticker_inv_def)
  moreover have "0 < tm_wg s" if "k < length (tm_workers s)" "tm_workers s ! k = Deferred (Suc n)" for k n
    using pending_positive [OF inv that] .
  ultimately show ?thesis by (force simp: wg_Add_def wg_Done_def)
qed

section \<open>The program ends\<close>

definition main_left :: "ticker_main \<Rightarrow> nat" where
  "main_left s = sum_list (map steps_left (tm_workers s)) + (if tm_phase s = Main_returned then 0 else 1)"

text \<open>
  Once the timer has fired, every step brings the end nearer, and the program can only stop with \<open>main\<close> having
  returned: it returns, and not before every worker has made its calls of \<open>Done\<close>.
\<close>

lemma worker_step_left:
  assumes "k < length (tm_workers s)" and "steps_left w < steps_left (tm_workers s ! k)"
    and "tm_workers s' = (tm_workers s)[k := w]" and "tm_phase s' = tm_phase s"
  shows "main_left s' < main_left s"
  using sum_list_map_update [OF assms(1), of steps_left w] assms(2-4) by (simp add: main_left_def)

theorem ticker_main_ends:
  assumes "ticker_reach s" and "tm_phase s \<noteq> Selecting_ticks"
  shows "(\<forall>s'. ticker_step s s' \<longrightarrow> tm_phase s' \<noteq> Selecting_ticks \<and> main_left s' < main_left s)
    \<and> ((\<nexists>s'. ticker_step s s') \<longrightarrow> tm_phase s = Main_returned)
    \<and> (tm_phase s = Main_returned \<longrightarrow> set (tm_workers s) \<subseteq> {Deferred 0})"
proof (intro conjI allI impI)
  fix s' assume "ticker_step s s'"
  then have "tm_phase s \<noteq> Selecting_ticks \<longrightarrow> tm_phase s' \<noteq> Selecting_ticks \<and> main_left s' < main_left s"
  proof (induction rule: ticker_step.induct)
    case (poll k s c i)
    then show ?case using worker_step_left [of k s "Polling c (Suc i)"] by simp
  next
    case (polled k s c)
    then show ?case using worker_step_left [of k s "Deferred 5"] by simp
  next
    case (deferred k s n wg)
    then show ?case using worker_step_left [of k s "Deferred n"] by simp
  qed (simp_all add: main_left_def)
  then show "tm_phase s' \<noteq> Selecting_ticks" and "main_left s' < main_left s" using assms(2) by simp_all
next
  assume stuck: "\<nexists>s'. ticker_step s s'"
  note inv = ticker_inv_reach [OF assms(1)]
  have "tm_workers s ! k = Deferred 0" if k: "k < length (tm_workers s)" for k
  proof (cases "tm_workers s ! k")
    case (Polling c i)
    then have "i \<le> 5" using inv nth_mem [OF k] by (auto simp: ticker_inv_def)
    then show ?thesis using stuck ticker_step.poll [OF k Polling] ticker_step.polled [OF k] Polling
      by (cases "i = 5") auto
  next
    case (Deferred n)
    show ?thesis
    proof (cases n)
      case (Suc m)
      then obtain wg where "wg_Done (tm_wg s) = Some wg" using ticker_wait_group [OF assms(1)] k Deferred by blast
      then show ?thesis using stuck ticker_step.deferred [OF k] Deferred Suc by blast
    qed (simp add: Deferred)
  qed
  then have "set (tm_workers s) \<subseteq> {Deferred 0}" by (auto simp: in_set_conv_nth)
  then have "sum_list (map pending_dones (tm_workers s)) = 0" by (auto simp: sum_list_eq_0_iff)
  then have "tm_wg s = 0" using inv by (simp add: ticker_inv_def)
  then show "tm_phase s = Main_returned" using stuck ticker_step.waited assms(2) by (cases "tm_phase s") auto
next
  assume "tm_phase s = Main_returned"
  then show "set (tm_workers s) \<subseteq> {Deferred 0}" using ticker_inv_reach [OF assms(1)] by (simp add: ticker_inv_def)
qed

section \<open>The jobs\<close>

definition jobs_of :: "worker list \<Rightarrow> int set" where
  "jobs_of ws = {5 * int k + int j | k j. k < length ws \<and> j < polled_jobs (ws ! k)}"

definition jobs_inv :: "ticker_main \<Rightarrow> bool" where
  "jobs_inv s \<longleftrightarrow> tm_counter s = 5 * int (length (tm_workers s))
     \<and> (\<forall>k c i. k < length (tm_workers s) \<and> tm_workers s ! k = Polling c i \<longrightarrow> c = 5 * int k)
     \<and> distinct (tm_jobs s) \<and> set (tm_jobs s) = jobs_of (tm_workers s)"

lemma jobs_of_append: "polled_jobs w = 0 \<Longrightarrow> jobs_of (ws @ [w]) = jobs_of ws"
  by (auto simp: jobs_of_def nth_append less_Suc_eq split: if_splits)

lemma jobs_of_same:
  assumes "polled_jobs w = polled_jobs (ws ! k)"
  shows "jobs_of (ws[k := w]) = jobs_of ws"
proof (cases "k < length ws")
  case True
  then have "polled_jobs (ws[k := w] ! i) = polled_jobs (ws ! i)" for i using assms by (cases "i = k") simp_all
  then show ?thesis by (simp add: jobs_of_def)
qed (simp add: list_update_beyond)

lemma jobs_of_insert:
  assumes "k < length ws" and "polled_jobs w = Suc (polled_jobs (ws ! k))"
  shows "jobs_of (ws[k := w]) = insert (5 * int k + int (polled_jobs (ws ! k))) (jobs_of ws)"
proof -
  have "j < polled_jobs (ws[k := w] ! i) \<longleftrightarrow> j < polled_jobs (ws ! i) \<or> i = k \<and> j = polled_jobs (ws ! k)" for i j
    using assms by (cases "i = k") (simp_all add: less_Suc_eq)
  then show ?thesis using assms(1) by (auto simp: jobs_of_def)
qed

lemma jobs_of_fresh:
  assumes "\<forall>w \<in> set ws. polled_jobs w \<le> 5" and "polled_jobs (ws ! k) < 5"
  shows "5 * int k + int (polled_jobs (ws ! k)) \<notin> jobs_of ws"
proof
  assume "5 * int k + int (polled_jobs (ws ! k)) \<in> jobs_of ws"
  then obtain i j where ij: "i < length ws" "j < polled_jobs (ws ! i)"
    and eq: "5 * int k + int (polled_jobs (ws ! k)) = 5 * int i + int j" by (auto simp: jobs_of_def)
  have "j < 5" using assms(1) ij nth_mem [OF ij(1)] by fastforce
  then have "i = k" using eq assms(2) by linarith
  then show False using ij eq by simp
qed

lemma jobs_inv_step:
  assumes "ticker_step s s'" and "5 * int (length (tm_workers s')) < 2 ^ 63" and "ticker_inv s" and "jobs_inv s"
  shows "jobs_inv s'"
  using assms
proof (induction rule: ticker_step.induct)
  case (tick s wg)
  then have "i64 (tm_counter s + 5) = tm_counter s + 5" by (intro i64_id) (simp add: jobs_inv_def in_i64_def)
  with tick show ?case by (auto simp: jobs_inv_def jobs_of_append nth_append less_Suc_eq split: if_splits)
next
  case (poll k s c i)
  then have c: "c = 5 * int k" and small: "\<forall>w \<in> set (tm_workers s). polled_jobs w \<le> 5"
    by (auto simp: jobs_inv_def ticker_inv_def)
  have "int i < 5" and "int k < int (length (tm_workers s))" using poll(1,3) by simp_all
  moreover have "5 * int (length (tm_workers s)) < 2 ^ 63" using poll(4) by simp
  ultimately have id: "i64 (c + int i) = 5 * int k + int i" unfolding c by (intro i64_id) (simp add: in_i64_def)
  have new: "5 * int k + int i \<notin> jobs_of (tm_workers s)" using jobs_of_fresh [OF small, of k] poll(2,3) by simp
  have more: "jobs_of ((tm_workers s)[k := Polling c (Suc i)]) = insert (5 * int k + int i) (jobs_of (tm_workers s))"
    using jobs_of_insert [OF poll(1), of "Polling c (Suc i)"] poll(2) by simp
  have "d = 5 * int m" if "m < length (tm_workers s)" "(tm_workers s)[k := Polling c (Suc i)] ! m = Polling d j" for m d j
    using that c poll(6) by (cases "m = k") (auto simp: jobs_inv_def)
  then show ?case using poll(6) new by (simp add: jobs_inv_def id more)
next
  case (polled k s c)
  then show ?case
    using jobs_of_same [of "Deferred 5" "tm_workers s" k] by (auto simp: jobs_inv_def nth_list_update split: if_splits)
next
  case (deferred k s n wg)
  then show ?case
    using jobs_of_same [of "Deferred n" "tm_workers s" k] by (auto simp: jobs_inv_def nth_list_update split: if_splits)
qed (simp_all add: jobs_inv_def)

lemma ticker_step_workers: "ticker_step s s' \<Longrightarrow> length (tm_workers s) \<le> length (tm_workers s')"
  by (induction rule: ticker_step.induct) simp_all

lemma jobs_inv_reach: "ticker_reach s \<Longrightarrow> 5 * int (length (tm_workers s)) < 2 ^ 63 \<Longrightarrow> jobs_inv s"
proof (induction rule: ticker_reach.induct)
  case start
  then show ?case by (auto simp: jobs_inv_def ticker_start_def jobs_of_def)
next
  case (step s s')
  then have "5 * int (length (tm_workers s)) < 2 ^ 63" using ticker_step_workers [OF step(2)] by linarith
  then show ?case using step ticker_inv_reach [OF step(1)] by (intro jobs_inv_step [OF step(2)]) simp_all
qed

text \<open>When the program has ended, every job was polled exactly once: five for each tick, numbered from zero.\<close>

theorem ticker_jobs:
  assumes "ticker_reach s" and "5 * int (length (tm_workers s)) < 2 ^ 63" and "tm_phase s = Main_returned"
  shows "distinct (tm_jobs s) \<and> set (tm_jobs s) = {0 ..< 5 * int (length (tm_workers s))}"
proof -
  have "set (tm_workers s) \<subseteq> {Deferred 0}" using ticker_inv_reach [OF assms(1)] assms(3) by (simp add: ticker_inv_def)
  then have "polled_jobs (tm_workers s ! k) = 5" if "k < length (tm_workers s)" for k using nth_mem [OF that] by force
  then have "jobs_of (tm_workers s) = {5 * int k + int j | k j. k < length (tm_workers s) \<and> j < 5}"
    unfolding jobs_of_def by (metis (mono_tags, opaque_lifting))
  also have "\<dots> = {0 ..< 5 * int (length (tm_workers s))}" (is "?a = ?b")
  proof (intro set_eqI iffI)
    fix x assume "x \<in> ?b"
    then have "x = 5 * int (nat (x div 5)) + int (nat (x mod 5))" "nat (x div 5) < length (tm_workers s)" "nat (x mod 5) < 5"
      by auto
    then show "x \<in> ?a" by blast
  qed auto
  finally show ?thesis using jobs_inv_reach [OF assms(1,2)] by (simp add: jobs_inv_def)
qed

section \<open>The polls and the limit\<close>

text \<open>A job of the examples, whose context holds its number, as a guarded call.\<close>

definition example_ctx :: "ctx_key \<Rightarrow> nat \<times> 'h \<Rightarrow> ctx" where
  "example_ctx key x = WithValue [] key (OtherValue (fst x))"

definition example_class :: "ctx_key \<Rightarrow> nat \<times> (ctx \<Rightarrow> (bool \<times> 'e option) option) \<Rightarrow> int option" where
  "example_class key x = map_option (\<lambda>(_, err). if err \<noteq> None then ResponseTypeDropped else ResponseTypeSuccess) (snd x (example_ctx key x))"

interpretation ticker_job: guarded_default lops sops
    "\<lambda>now rd x. guarded_poll key (default_delegate lops sops) now rd (example_ctx key x, snd x)" "example_ctx key" "example_class key"
  for lops sops key
  by unfold_locales
     (auto simp: guarded_poll_def example_ctx_def example_class_def Value_def WithValue_def complete_as_def response_types
       split: option.splits)

text \<open>A poll with its number in the context never panics: it is short-circuited, succeeds, or fails when the resource's own limiter refuses.\<close>

theorem example_poll_outcomes:
  "guarded_poll key dops now rd (example_ctx key (n, h), \<lambda>ctx. map_option (\<lambda>(b, err, t). (b, err)) (fst (rated_poll key work refused allow rd ctx r))) d =
    (case lim_Acquire dops now (example_ctx key (n, h)) d of
       (None, d) \<Rightarrow> (Returned (False, Some (ShortCircuited n)), d)
     | (Some token, d) \<Rightarrow>
         if fst (allow r) then (Returned (True, None), lim_Complete dops rd Succeeded token d)
         else (Returned (False, Some (RequestFailed (RateLimitExceeded n))), lim_Complete dops rd WasDropped token d))"
  by (auto simp: guarded_poll_def rated_poll_def example_ctx_def Value_def WithValue_def split: option.splits prod.splits bool.splits)

text \<open>
  The limit of ten that the programs give to the strategy is overwritten when the limiter is made, by the twenty of the
  Vegas limit; however the polls interleave, at most a thousand are under way.
\<close>

lemma default_simple_limit:
  assumes "NewDefaultLimiterWithDefaults Log10 table rd simple_ops name (Some (NewSimpleStrategy n)) lg reg tags = Inr l0"
  shows "simple_GetLimit (dl_strategy l0) = 20"
proof -
  have "dl_limit l0 = fst (NewDefaultVegasLimit Log10 table rd name lg reg tags)"
    using default_limiter_parts [OF assms] by (auto simp: NewDefaultLimiter_def split: if_splits)
  then have "EstimatedLimit vegas_ops (dl_limit l0) = f2i (f64 20)"
    by (simp add: NewDefaultVegasLimit_def NewVegasLimitWithRegistry_def vegas_ops_def vegas_EstimatedLimit_def Let_def
        case_prod_beta)
  then show ?thesis
    using simple_stack.new_limiter(2) [OF default_limiter_parts [OF assms] simple_idle simple_idle(2)]
    by (simp add: simple_stack.synced_def f2i_f64 i32_def simple_GetLimit_def)
qed

theorem simple_example_capacity:
  assumes "simple_example_limiter Log10 (log10RootLookup Log10 env) rd = Some l0" and "Log10_ok Log10"
    and "locked_reach vegas_ops l0 (l, rs, a)"
  shows "simple_GetLimit (dl_strategy l0) = 20 \<and> simple_GetBusyCount (dl_strategy l) = count_reqs holds_token rs + taken a
    \<and> simple_GetBusyCount (dl_strategy l) \<le> 1000"
proof -
  have new: "NewDefaultLimiterWithDefaults Log10 (log10RootLookup Log10 env) rd simple_ops ''example_single_limit''
      (Some (NewSimpleStrategy 10)) (Some BuiltinLimitLogger) EmptyMetricRegistry [] = Inr l0"
    using assms(1) by (simp add: simple_example_limiter_def split: sum.splits)
  show ?thesis using default_limiter_simple [OF new assms(2,3)] default_simple_limit [OF new] by simp
qed

text \<open>
  The blocking limiter of the second program is made with a timeout of zero, and its callers wait for the wakeups
  of the running ones only.
\<close>

theorem blocking_example_limits:
  assumes "blocking_example_limiter Log10 table rd = Some b"
  shows "simple_GetLimit (dl_strategy (bk_delegate b)) = 20 \<and> bk_patience b = Timeout 0"
  using assms default_simple_limit
  by (auto simp: blocking_example_limiter_def NewBlockingLimiter_def Let_def split: sum.splits)

end
