(* ===== verification/Example_Partitions.thy ===== *)
theory Example_Partitions
  imports Limiter_Partitioned Interceptor_Grpc
begin

text \<open>
  \<open>examples/grpc_partition_strategy/main.go\<close>: two gRPC servers that limit the calls of each method, or of
  each kind of request, by a partitioned strategy under a default limiter with a fixed limit. The network, the flags and the
  log lines are left out; a panic while the limiter is built is \<open>None\<close>.
\<close>

section \<open>Limits per method\<close>

definition pingMethod :: string where
  "pingMethod = ''/main.PingPong/PingPong''"

text \<open>
  \<open>names\<close> are the keys of the map of partitions in the order in which Go happens to iterate over it; the
  partitions are at the addresses 0 and 1, the one for unknown groups at 2.
\<close>

definition lookupFn :: "string list \<Rightarrow> ctx \<Rightarrow> string" where
  "lookupFn names ctx =
     (case Value ctx LookupPartitionContextKey of
        Some (StringValue meth) \<Rightarrow> (if meth \<in> set names then meth else ''default'')
      | _ \<Rightarrow> ''default'')"

definition method_address :: "string \<Rightarrow> nat" where
  "method_address n = (if n = pingMethod then 0 else 1)"

definition newLookupLimiter :: "int \<Rightarrow> string list \<Rightarrow> (fixed, lookup) default_limiter option" where
  "newLookupLimiter now names =
     (case (NewLookupPartitionWithMetricRegistry pingMethod (lit (7 / 10)) 1 EmptyMetricRegistry,
            NewLookupPartitionWithMetricRegistry ''default'' (lit (3 / 10)) 1 EmptyMetricRegistry) of
        (Some (p, e), Some (q, e')) \<Rightarrow>
          (case NewLookupPartitionStrategyWithMetricRegistry (map (\<lambda>n. (n, method_address n)) names) (Some (lookupFn names)) 10
                  EmptyMetricRegistry 2 (\<lambda>r. if r = 0 then p else q) of
             (store, Inr (Some (strat, e''))) \<Rightarrow>
               (case NewDefaultLimiter fixed_ops lookup_ops now
                       (Some (fst (NewFixedLimit ''lookup-partition-limiter'' 10 NilRegistry []))) 1000000 1000000 1000000 100
                       (Some strat) (Some BuiltinLimitLogger) EmptyMetricRegistry of
                  Inl err \<Rightarrow> None
                | Inr l \<Rightarrow> Some l)
           | _ \<Rightarrow> None)
      | _ \<Rightarrow> None)"

text \<open>The interceptor, over any limiter; a refused \<open>Acquire\<close> is answered without the handler.\<close>

definition lookupServerInterceptor ::
    "('x, 'code, 'e) grpc_env \<Rightarrow> ('d, 'k) delegate_ops \<Rightarrow> int \<Rightarrow> rand
     \<Rightarrow> ctx \<times> 'req \<times> string \<times> (ctx \<Rightarrow> 'req \<Rightarrow> ('resp option \<times> 'e option) option) \<Rightarrow> 'd
     \<Rightarrow> ('resp option \<times> 'e option) called \<times> 'd" where
  "lookupServerInterceptor env dops now rd = (\<lambda>(ctx, req, info, handler) d.
     let ctx = WithValue ctx LookupPartitionContextKey (StringValue info) in
     case lim_Acquire dops now ctx d of
       (None, d) \<Rightarrow>
         (Returned (None, Some (ge_Error env (ge_ResourceExhausted env)
            (''concurrency limit exceeded for method '' @ info))), d)
     | (Some token, d) \<Rightarrow>
         (case handler ctx req of
            None \<Rightarrow> (CallPanicked, d)
          | Some (resp, err) \<Rightarrow>
              (Returned (resp, err), lim_Complete dops rd (if err \<noteq> None then WasDropped else Succeeded) token d)))"

section \<open>Limits per kind of request\<close>

definition newPredicateLimiter :: "int \<Rightarrow> (fixed, predicate_strategy) default_limiter option" where
  "newPredicateLimiter now =
     (case (NewPredicatePartitionWithMetricRegistry ''fast'' (lit (7 / 10)) (StringPredicateMatcher ''fast'' False) EmptyMetricRegistry,
            NewPredicatePartitionWithMetricRegistry ''slow'' (lit (3 / 10)) (StringPredicateMatcher ''slow'' False)
              EmptyMetricRegistry) of
        (Some (p, e), Some (q, e')) \<Rightarrow>
          (case NewPredicatePartitionStrategyWithMetricRegistry [0, 1] 10 EmptyMetricRegistry (\<lambda>r. if r = 0 then p else q) of
             (store, Inr (Some (strat, e''))) \<Rightarrow>
               (case NewDefaultLimiter fixed_ops predicate_ops now
                       (Some (fst (NewFixedLimit ''predicate-partition-limiter'' 10 NilRegistry []))) 1000000 1000000 1000000 100
                       (Some strat) (Some BuiltinLimitLogger) EmptyMetricRegistry of
                  Inl err \<Rightarrow> None
                | Inr l \<Rightarrow> Some l)
           | _ \<Rightarrow> None)
      | _ \<Rightarrow> None)"

text \<open>\<open>req\<close> is the message of a \<open>Ping\<close>, or none for a request of another type.\<close>

definition predicateServerInterceptor ::
    "('x, 'code, 'e) grpc_env \<Rightarrow> ('d, 'k) delegate_ops \<Rightarrow> int \<Rightarrow> rand
     \<Rightarrow> ctx \<times> string option \<times> string \<times> (ctx \<Rightarrow> string option \<Rightarrow> ('resp option \<times> 'e option) option) \<Rightarrow> 'd
     \<Rightarrow> ('resp option \<times> 'e option) called \<times> 'd" where
  "predicateServerInterceptor env dops now rd = (\<lambda>(ctx, req, info, handler) d.
     let reqType = (if req = Some ''slow'' then ''slow'' else ''fast'');
         ctx = WithValue ctx StringPredicateContextKey (StringValue reqType) in
     case lim_Acquire dops now ctx d of
       (None, d) \<Rightarrow>
         (Returned (None, Some (ge_Error env (ge_ResourceExhausted env)
            (''concurrency limit exceeded for request type '' @ reqType @ '' on '' @ info))), d)
     | (Some token, d) \<Rightarrow>
         (case handler ctx req of
            None \<Rightarrow> (CallPanicked, d)
          | Some (resp, err) \<Rightarrow>
              (Returned (resp, err), lim_Complete dops rd (if err \<noteq> None then WasDropped else Succeeded) token d)))"

text \<open>The service: it answers a ping with its message, after some work.\<close>

definition server_PingPong :: "ctx \<Rightarrow> string option \<Rightarrow> (string option \<times> 'e option) option" where
  "server_PingPong ctx ping = Some (Some (case ping of None \<Rightarrow> '''' | Some m \<Rightarrow> m), None)"

section \<open>The shares\<close>

text \<open>Seven and three tenths, as doubles, of ten.\<close>

lemma rnd_tenths:
  "rnd (7 / 10) = 3152519739159347 / 4503599627370496" "rnd (3 / 10) = 5404319552844595 / 18014398509481984"
  using rnd_eqI [of "7 / 10" 53 6305039478318694] rnd_eqI [of "3 / 10" 54 5404319552844595] by simp_all

lemma rnd_ten_times:
  "rnd (15762598695796735 / 2251799813685248) = 7" "rnd (27021597764222975 / 9007199254740992) = 3"
  using rnd_eval [of "15762598695796735 / 2251799813685248" 50] rnd_eval [of "27021597764222975 / 9007199254740992" 51]
  by (simp_all add: rne_def Let_def)

lemma rnd_tenths_sum: "rnd (18014398509481983 / 18014398509481984) = 1"
  using rnd_eval [of "18014398509481983 / 18014398509481984" 53] by (simp add: rne_def Let_def)

lemma lit_tenths: "lit (7 / 10) = Fin (rnd (7 / 10))" "lit (3 / 10) = Fin (rnd (3 / 10))"
  by (simp_all add: mk_small rnd_tenths)

lemma example_shares:
  "pt_percent p = lit (7 / 10) \<Longrightarrow> pt_limit (part_UpdateLimit 10 p) = 7"
  "pt_percent p = lit (3 / 10) \<Longrightarrow> pt_limit (part_UpdateLimit 10 p) = 3"
  by (simp_all add: lit_tenths part_UpdateLimit_share(1) [where x = "rnd (7 / 10)"]
      part_UpdateLimit_share(1) [where x = "rnd (3 / 10)"] rnd_tenths rnd_ten_times)

lemma example_sum:
  assumes "pt_percent (store r) = lit (7 / 10)" and "pt_percent (store r') = lit (3 / 10)"
  shows "\<not> fless (lit 1) (sum_percent store [r, r'])" and "\<not> fless (lit 1) (sum_percent store [r', r])"
proof -
  have again: "rnd (3152519739159347 / 4503599627370496) = 3152519739159347 / 4503599627370496"
    "rnd (5404319552844595 / 18014398509481984) = 5404319552844595 / 18014398509481984"
    using rnd_rnd [of "7 / 10"] rnd_rnd [of "3 / 10"] by (simp_all only: rnd_tenths)
  have one: "rnd 1 = 1" using rnd_dyadic [of 1 0] by simp
  show "\<not> fless (lit 1) (sum_percent store [r, r'])" and "\<not> fless (lit 1) (sum_percent store [r', r])"
    using assms by (simp_all add: sum_percent_def part_Percent_def f64_exact mk_small lit_tenths rnd_tenths again rnd_tenths_sum one)
qed

section \<open>What stays the same under a fixed limit\<close>

lemma fixed_limiter_reach:
  assumes "limiter_reach fixed_ops sops l0 st" and "fx_limit (dl_limit l0) = n" and "P (dl_strategy l0)"
    and "\<And>c s. P s \<Longrightarrow> P (fst (snd (TryAcquire sops c s)))" and "\<And>f s. P s \<Longrightarrow> P (ReleaseFunc sops f s)"
    and "\<And>s. P s \<Longrightarrow> P (SetLimit sops n s)"
  shows "fx_limit (dl_limit (fst st)) = n \<and> P (dl_strategy (fst st))"
  using assms(1)
proof induction
  case start
  then show ?case using assms(2,3) by simp
next
  case (step st st')
  obtain l rs l' rs' where st: "st = (l, rs)" "st' = (l', rs')" by (metis prod.exhaust)
  have acq: "TryAcquire sops c s = (x, s', e) \<Longrightarrow> P s \<Longrightarrow> P s'" for c s x s' e using assms(4) [of s c] by simp
  have lmt: "P (SetLimit sops m s)" if "P s" "n = m" for m s using assms(6) that by simp
  have "P (dl_strategy l')"
    using step.hyps(2) step.IH unfolding st
    by (cases rule: limiter_step.cases)
      (auto simp: limiter_Acquire_def listener_count_def listener_free_def listener_measureSuccess_def
        listener_measureDropped_def updateAndGetSample_def listener_updateLimit_def fixed_ops_def fixed_OnSample_def
        fixed_EstimatedLimit_def token_Release_def Let_def
        split: if_splits prod.splits option.splits dest: acq intro: lmt assms(5))
  then show ?case using step st fixed_limit_step [of sops l rs l' rs'] by simp
qed

section \<open>The interceptors as guarded calls\<close>

definition lookup_call_ctx :: "ctx \<times> 'req \<times> string \<times> 'h \<Rightarrow> ctx" where
  "lookup_call_ctx = (\<lambda>(ctx, req, info, handler). WithValue ctx LookupPartitionContextKey (StringValue info))"

definition lookup_call_class :: "ctx \<times> 'req \<times> string \<times> (ctx \<Rightarrow> 'req \<Rightarrow> ('resp option \<times> 'e option) option) \<Rightarrow> int option" where
  "lookup_call_class x = (case x of (ctx, req, info, handler) \<Rightarrow>
     map_option (\<lambda>(resp, err). if err \<noteq> None then ResponseTypeDropped else ResponseTypeSuccess) (handler (lookup_call_ctx x) req))"

interpretation lookup_server: guarded_default lops sops "lookupServerInterceptor env (default_delegate lops sops)" lookup_call_ctx
    lookup_call_class
  for env and lops and sops
  by unfold_locales
     (auto simp: lookupServerInterceptor_def lookup_call_ctx_def lookup_call_class_def complete_as_def response_types Let_def
       split: option.splits prod.splits)

definition predicate_call_ctx :: "ctx \<times> string option \<times> string \<times> 'h \<Rightarrow> ctx" where
  "predicate_call_ctx = (\<lambda>(ctx, req, info, handler).
     WithValue ctx StringPredicateContextKey (StringValue (if req = Some ''slow'' then ''slow'' else ''fast'')))"

definition predicate_call_class ::
    "ctx \<times> string option \<times> string \<times> (ctx \<Rightarrow> string option \<Rightarrow> ('resp option \<times> 'e option) option) \<Rightarrow> int option" where
  "predicate_call_class x = (case x of (ctx, req, info, handler) \<Rightarrow>
     map_option (\<lambda>(resp, err). if err \<noteq> None then ResponseTypeDropped else ResponseTypeSuccess) (handler (predicate_call_ctx x) req))"

interpretation predicate_server: guarded_default lops sops "predicateServerInterceptor env (default_delegate lops sops)" predicate_call_ctx
    predicate_call_class
  for env and lops and sops
  by unfold_locales
     (auto simp: predicateServerInterceptor_def predicate_call_ctx_def predicate_call_class_def complete_as_def response_types Let_def
       split: option.splits prod.splits)

section \<open>The limiter of the methods\<close>

definition method_conf :: "string list \<Rightarrow> lookup \<Rightarrow> bool" where
  "method_conf names s \<longleftrightarrow> lk_partitions s = map (\<lambda>n. (n, method_address n)) names \<and> lk_lookupFunc s = lookupFn names
     \<and> lk_limit s = 10 \<and> pt_limit (lk_store s 0) = 7 \<and> pt_limit (lk_store s 1) = 3"

lemma method_conf_kept:
  assumes "method_conf names s"
  shows "method_conf names (fst (snd (TryAcquire lookup_ops c s)))" and "method_conf names (ReleaseFunc lookup_ops f s)"
    and "method_conf names (SetLimit lookup_ops 10 s)"
  using assms by (auto simp: method_conf_def lookup_ops_def lookup_TryAcquire_def part_Acquire_def lookup_releasePartition_def
      part_Release_def lookup_SetLimit_def i32_def Let_def split: prod.splits)

lemma new_method_limiter:
  assumes "names \<in> {[pingMethod, ''default''], [''default'', pingMethod]}"
  obtains l0 where "newLookupLimiter now names = Some l0" and "method_conf names (dl_strategy l0)"
    and "fx_limit (dl_limit l0) = 10" and "lookup_stack.accounted (l0, [])"
proof -
  let ?parts = "map (\<lambda>n. (n, method_address n)) names"
  have addr: "method_address pingMethod = 0" "method_address ''default'' = 1"
    by (simp_all add: method_address_def pingMethod_def)
  obtain p e q e' where p: "NewLookupPartitionWithMetricRegistry pingMethod (lit (7 / 10)) 1 EmptyMetricRegistry = Some (p, e)"
      "pt_percent p = lit (7 / 10)" "pt_busy p = 0"
    and q: "NewLookupPartitionWithMetricRegistry ''default'' (lit (3 / 10)) 1 EmptyMetricRegistry = Some (q, e')"
      "pt_percent q = lit (3 / 10)" "pt_busy q = 0"
    by (simp add: NewLookupPartitionWithMetricRegistry_def Let_def case_prod_beta)
  let ?store = "\<lambda>r. if r = 0 then p else q"
  have "\<not> fless (lit 1) (sum_percent ?store (map snd ?parts))"
    using assms example_sum [of ?store 0 1] p q addr by auto
  then obtain store s e'' where new: "NewLookupPartitionStrategyWithMetricRegistry ?parts (Some (lookupFn names)) 10
      EmptyMetricRegistry 2 ?store = (store, Inr (Some (s, e'')))"
    using lookup_created [of ?parts ?store "Some (lookupFn names)" 10 2] assms by auto
  note idle = lookup_idle [OF new]
  have mem: "(pingMethod, 0) \<in> set ?parts" "(''default'', 1) \<in> set ?parts" using assms addr by auto
  have share: "pt_limit (lk_store s 0) = 7" "pt_limit (lk_store s 1) = 3"
    using new_lookup_share [OF new _ _ mem(1), of "rnd (7 / 10)"] new_lookup_share [OF new _ _ mem(2), of "rnd (3 / 10)"] p q
    by (simp_all add: part_Limit_def lit_tenths rnd_tenths rnd_ten_times)
  have "method_conf names s" using new share
    by (auto simp: method_conf_def NewLookupPartitionStrategyWithMetricRegistry_def Let_def split: if_splits option.splits prod.splits)
  then have conf: "method_conf names (lookup_SetLimit 10 s)" using method_conf_kept(3) [of names s] by (simp add: lookup_ops_def)
  have fx: "fx_limit (fst (NewFixedLimit ''lookup-partition-limiter'' 10 NilRegistry [])) = 10"
    by (simp add: NewFixedLimit_def Let_def case_prod_beta)
  obtain l0 where l0: "NewDefaultLimiter fixed_ops lookup_ops now (Some (fst (NewFixedLimit ''lookup-partition-limiter'' 10 NilRegistry [])))
      1000000 1000000 1000000 100 (Some s) (Some BuiltinLimitLogger) EmptyMetricRegistry = Inr l0"
    by (simp add: NewDefaultLimiter_def)
  have "pt_busy (?store r) = 0" for r using p q by simp
  then have "lookup_stack.accounted (l0, [])"
    using lookup_stack.new_limiter(1) [OF l0 idle] by blast
  moreover have "newLookupLimiter now names = Some l0" using p q new l0 by (simp add: newLookupLimiter_def)
  moreover have "dl_strategy l0 = lookup_SetLimit 10 s" "fx_limit (dl_limit l0) = 10"
    using l0 fx by (auto simp: NewDefaultLimiter_def fixed_ops_def fixed_EstimatedLimit_def lookup_ops_def)
  ultimately show ?thesis using that conf by simp
qed

lemma method_target:
  assumes "method_conf names s" and "names \<in> {[pingMethod, ''default''], [''default'', pingMethod]}"
  shows "lookup_target (WithValue c LookupPartitionContextKey (StringValue info)) s = (if info = pingMethod then 0 else 1)"
  using assms
  by (auto simp: method_conf_def lookup_target_def lookupFn_def Value_def WithValue_def method_address_def pingMethod_def)

section \<open>The limiter of the kinds of request\<close>

definition kind_conf :: "predicate_strategy \<Rightarrow> bool" where
  "kind_conf s \<longleftrightarrow> pd_partitions s = [0, 1] \<and> pp_predicate (pd_store s 0) = StringPredicateMatcher ''fast'' False
     \<and> pp_predicate (pd_store s 1) = StringPredicateMatcher ''slow'' False
     \<and> pd_limit s = 10 \<and> pt_limit (pd_store s 0) = 7 \<and> pt_limit (pd_store s 1) = 3"

lemma kind_conf_kept:
  assumes "kind_conf s"
  shows "kind_conf (fst (snd (TryAcquire predicate_ops c s)))" and "kind_conf (ReleaseFunc predicate_ops f s)"
    and "kind_conf (SetLimit predicate_ops 10 s)"
  using assms by (auto simp: kind_conf_def predicate_ops_def predicate_TryAcquire_find part_Acquire_def predicate_releasePartition_def
      part_Release_def predicate_SetLimit_def i32_def Let_def split: option.splits)

lemma kind_match:
  assumes "kind_conf s" and "k = ''fast'' \<or> k = ''slow''"
  shows "first_match (WithValue c StringPredicateContextKey (StringValue k)) s = Some (if k = ''fast'' then 0 else 1)"
  using assms by (auto simp: kind_conf_def first_match_def StringPredicateMatcher_def Value_def WithValue_def)

lemma new_kind_limiter:
  obtains l0 where "newPredicateLimiter now = Some l0" and "kind_conf (dl_strategy l0)"
    and "fx_limit (dl_limit l0) = 10" and "predicate_stack.accounted (l0, [])"
proof -
  obtain p e q e' where p: "NewPredicatePartitionWithMetricRegistry ''fast'' (lit (7 / 10)) (StringPredicateMatcher ''fast'' False)
        EmptyMetricRegistry = Some (p, e)" "pt_percent p = lit (7 / 10)" "pt_busy p = 0"
      "pp_predicate p = StringPredicateMatcher ''fast'' False"
    and q: "NewPredicatePartitionWithMetricRegistry ''slow'' (lit (3 / 10)) (StringPredicateMatcher ''slow'' False)
        EmptyMetricRegistry = Some (q, e')" "pt_percent q = lit (3 / 10)" "pt_busy q = 0"
      "pp_predicate q = StringPredicateMatcher ''slow'' False"
    by (simp add: NewPredicatePartitionWithMetricRegistry_def Let_def case_prod_beta)
  let ?store = "\<lambda>r::nat. if r = 0 then p else q"
  let ?s = "\<lparr>pd_partitions = [0, 1], pd_busy = 0, pd_limit = 10, pd_store = update_all 10 [0, 1] ?store\<rparr>"
  have "\<not> fless (lit 1) (sum_percent ?store [0, 1])" using example_sum(1) [of ?store 0 1] p q by simp
  then obtain store e'' where new: "NewPredicatePartitionStrategyWithMetricRegistry [0, 1] 10 EmptyMetricRegistry ?store
      = (store, Inr (Some (?s, e'')))"
    by (simp add: NewPredicatePartitionStrategyWithMetricRegistry_def Let_def)
  have "pp_predicate (part_UpdateLimit n x) = pp_predicate x" for n and x :: ppartition by (simp add: part_UpdateLimit_def)
  then have "kind_conf ?s" using p q by (simp add: kind_conf_def update_all_def example_shares)
  then have conf: "kind_conf (predicate_SetLimit 10 ?s)" using kind_conf_kept(3) [of ?s] by (simp add: predicate_ops_def)
  have busy: "pt_busy (pd_store ?s r) = 0" for r using p q by (simp add: update_all_def)
  then have "predicate_inv ?s" by (auto simp: predicate_inv_def tokens_match_def intro!: exI [of _ "{#}"])
  moreover obtain l0 where l0: "NewDefaultLimiter fixed_ops predicate_ops now
      (Some (fst (NewFixedLimit ''predicate-partition-limiter'' 10 NilRegistry [])))
      1000000 1000000 1000000 100 (Some ?s) (Some BuiltinLimitLogger) EmptyMetricRegistry = Inr l0"
    by (simp add: NewDefaultLimiter_def)
  ultimately have "predicate_stack.accounted (l0, [])" using predicate_stack.new_limiter(1) [OF l0] busy by simp
  moreover have "newPredicateLimiter now = Some l0" using p q new l0 by (simp add: newPredicateLimiter_def)
  moreover have "fx_limit (fst (NewFixedLimit ''predicate-partition-limiter'' 10 NilRegistry [])) = 10"
    by (simp add: NewFixedLimit_def Let_def case_prod_beta)
  then have "dl_strategy l0 = predicate_SetLimit 10 ?s" "fx_limit (dl_limit l0) = 10"
    using l0 by (auto simp: NewDefaultLimiter_def fixed_ops_def fixed_EstimatedLimit_def predicate_ops_def)
  ultimately show ?thesis using that conf by simp
qed

section \<open>Properties\<close>

text \<open>C10: The server of the example keeps its promise per method, whatever the order in which Go iterates over the
  partitions and whatever other calls do meanwhile (fewer than \<open>2 ^ 31\<close> of them): a call of the ping method
  is turned away, with the error and without its handler, exactly when at least ten calls run and at least seven of them are pings, a
  call of another method exactly when at least ten run and at least three of them are of other methods. A call that is let in gets what its
  handler returns, and its token is back then; only a handler that panics keeps it.\<close>

theorem method_limits_served:
  assumes "names \<in> {[pingMethod, ''default''], [''default'', pingMethod]}" and "newLookupLimiter now0 names = Some l0"
    and "limiter_reach fixed_ops lookup_ops l0 (l, rs)" and "length rs < 2 ^ 31 - 1"
    and "(part, share) = (if info = pingMethod then (0, 7) else (1, 3))"
    and "lookupServerInterceptor env (default_delegate fixed_ops lookup_ops) now rd (c, req, info, handler) l = (res, l')"
  shows "if 10 \<le> count_reqs holds_token rs \<and> share \<le> count_reqs (\<lambda>r. req_func r = Some part) rs
    then res = Returned (None, Some (ge_Error env (ge_ResourceExhausted env) (''concurrency limit exceeded for method '' @ info))) \<and> l' = l
    else case handler (WithValue c LookupPartitionContextKey (StringValue info)) req of
        None \<Rightarrow> res = CallPanicked \<and> (\<exists>ls. (limiter_step fixed_ops lookup_ops)\<^sup>*\<^sup>* (l, rs) (l', rs @ [Running ls]))
      | Some x \<Rightarrow> res = Returned x \<and> (limiter_step fixed_ops lookup_ops)\<^sup>*\<^sup>* (l, rs) (l', rs @ [Finished])"
proof -
  let ?x = "(c, req, info, handler)" and ?c = "WithValue c LookupPartitionContextKey (StringValue info)"
  have fixed: "method_conf names (dl_strategy l0)" "fx_limit (dl_limit l0) = 10" "lookup_stack.accounted (l0, [])"
    using assms(2) new_method_limiter [OF assms(1), of now0] by (metis option.inject)+
  have conf: "method_conf names (dl_strategy l)"
    using fixed_limiter_reach [OF assms(3) fixed(2), of "method_conf names"] fixed(1) method_conf_kept by simp
  have acc: "lookup_stack.accounted (l, rs)" using lookup_stack.accounted_reach [OF assms(3) fixed(3)] .
  have target: "lookup_target ?c (dl_strategy l) = part" using method_target [OF conf assms(1)] assms(5) by (simp split: if_splits)
  have full: "lookup_full ?c l \<longleftrightarrow> 10 \<le> count_reqs holds_token rs \<and> share \<le> count_reqs (\<lambda>r. req_func r = Some part) rs"
    using acc conf assms(5) target
    by (auto simp: lookup_full_def lookup_stack.accounted_def method_conf_def part_IsLimitExceeded_def split: if_splits)
  have room: "length (filter holds_token rs) < 2 ^ 31 - 1" using assms(4) length_filter_le order_le_less_trans by blast
  note steps = lookup_server.call_steps [of rs fixed_ops lookup_ops l env now rd ?x, OF room]
  show ?thesis
  proof (cases "lookup_full ?c l")
    case True
    then show ?thesis using lookup_refuses [of ?c l now] assms(6) full
      by (auto simp: lookupServerInterceptor_def default_delegate_def)
  next
    case False
    then obtain ls d e where "limiter_Acquire lookup_ops now ?c l = (Some ls, d, e)"
      using lookup_refuses [of ?c l now] by (cases "limiter_Acquire lookup_ops now ?c l") auto
    then show ?thesis using steps assms(6) full False
      by (auto simp: lookupServerInterceptor_def default_delegate_def lookup_call_ctx_def lookup_call_class_def request_after_simps
          split: option.splits)
  qed
qed

theorem method_limits_served_witness:
  "\<exists>l0 l' res. newLookupLimiter 0 [''default'', pingMethod] = Some l0
     \<and> lookupServerInterceptor (undefined :: (unit, unit, string) grpc_env) (default_delegate fixed_ops lookup_ops) 1 undefined
         ([], Some ''slow'', pingMethod, server_PingPong) l0 = (res, l')
     \<and> res = Returned (Some ''slow'', None) \<and> (limiter_step fixed_ops lookup_ops)\<^sup>*\<^sup>* (l0, []) (l', [Finished])"
proof -
  obtain l0 where l0: "newLookupLimiter 0 [''default'', pingMethod] = Some l0"
    by (rule new_method_limiter [of "[''default'', pingMethod]" 0]) simp_all
  obtain res l' where call: "lookupServerInterceptor (undefined :: (unit, unit, string) grpc_env) (default_delegate fixed_ops lookup_ops) 1 undefined
         ([], Some ''slow'', pingMethod, server_PingPong) l0 = (res, l')" by (metis prod.exhaust)
  show ?thesis
    using method_limits_served [OF _ l0 limiter_reach.start _ _ call, of 0 7] l0 call
    by (simp add: count_reqs_def server_PingPong_def)
qed

text \<open>The same for the kinds of request: a request whose message is \<open>slow\<close> is turned away exactly when ten calls run
  and three of them are slow ones, any other request exactly when ten run and seven of them are not slow.\<close>

theorem kind_limits_served:
  assumes "newPredicateLimiter now0 = Some l0"
    and "limiter_reach fixed_ops predicate_ops l0 (l, rs)" and "length rs < 2 ^ 31 - 1"
    and "(kind, part, share) = (if req = Some ''slow'' then (''slow'', 1, 3) else (''fast'', 0, 7))"
    and "predicateServerInterceptor env (default_delegate fixed_ops predicate_ops) now rd (c, req, info, handler) l = (res, l')"
  shows "if 10 \<le> count_reqs holds_token rs \<and> share \<le> count_reqs (\<lambda>r. req_func r = Some part) rs
    then res = Returned (None, Some (ge_Error env (ge_ResourceExhausted env)
        (''concurrency limit exceeded for request type '' @ kind @ '' on '' @ info))) \<and> l' = l
    else case handler (WithValue c StringPredicateContextKey (StringValue kind)) req of
        None \<Rightarrow> res = CallPanicked \<and> (\<exists>ls. (limiter_step fixed_ops predicate_ops)\<^sup>*\<^sup>* (l, rs) (l', rs @ [Running ls]))
      | Some x \<Rightarrow> res = Returned x \<and> (limiter_step fixed_ops predicate_ops)\<^sup>*\<^sup>* (l, rs) (l', rs @ [Finished])"
proof -
  let ?x = "(c, req, info, handler)" and ?c = "WithValue c StringPredicateContextKey (StringValue kind)"
  have fixed: "kind_conf (dl_strategy l0)" "fx_limit (dl_limit l0) = 10" "predicate_stack.accounted (l0, [])"
    using assms(1) new_kind_limiter [of now0] by (metis option.inject)+
  have conf: "kind_conf (dl_strategy l)"
    using fixed_limiter_reach [OF assms(2) fixed(2), of kind_conf] fixed(1) kind_conf_kept by simp
  have acc: "predicate_stack.accounted (l, rs)" using predicate_stack.accounted_reach [OF assms(2) fixed(3)] .
  have kind: "kind = (if req = Some ''slow'' then ''slow'' else ''fast'')" using assms(4) by (simp split: if_splits)
  have "first_match ?c (dl_strategy l) = Some part" using kind_match [OF conf, of kind c] assms(4) by (simp split: if_splits)
  then have full: "predicate_full ?c l \<longleftrightarrow> 10 \<le> count_reqs holds_token rs \<and> share \<le> count_reqs (\<lambda>r. req_func r = Some part) rs"
    using acc conf assms(4)
    by (auto simp: predicate_full_def predicate_stack.accounted_def kind_conf_def part_IsLimitExceeded_def split: if_splits)
  have room: "length (filter holds_token rs) < 2 ^ 31 - 1" using assms(3) length_filter_le order_le_less_trans by blast
  note steps = predicate_server.call_steps [of rs fixed_ops predicate_ops l env now rd ?x, OF room]
  show ?thesis
  proof (cases "predicate_full ?c l")
    case True
    then show ?thesis using predicate_refuses [of ?c l now] assms(5) full
      by (auto simp: predicateServerInterceptor_def default_delegate_def kind [symmetric])
  next
    case False
    then obtain ls d e where "limiter_Acquire predicate_ops now ?c l = (Some ls, d, e)"
      using predicate_refuses [of ?c l now] by (cases "limiter_Acquire predicate_ops now ?c l") auto
    then show ?thesis using steps assms(5) full False
      by (auto simp: predicateServerInterceptor_def default_delegate_def predicate_call_ctx_def predicate_call_class_def
          request_after_simps kind [symmetric] split: option.splits)
  qed
qed

theorem kind_limits_served_witness:
  "\<exists>l0 l' res. newPredicateLimiter 0 = Some l0
     \<and> predicateServerInterceptor (undefined :: (unit, unit, string) grpc_env) (default_delegate fixed_ops predicate_ops) 1 undefined
         ([], Some ''slow'', pingMethod, server_PingPong) l0 = (res, l')
     \<and> res = Returned (Some ''slow'', None) \<and> (limiter_step fixed_ops predicate_ops)\<^sup>*\<^sup>* (l0, []) (l', [Finished])"
proof -
  obtain l0 where l0: "newPredicateLimiter 0 = Some l0" by (rule new_kind_limiter [of 0])
  obtain res l' where call: "predicateServerInterceptor (undefined :: (unit, unit, string) grpc_env) (default_delegate fixed_ops predicate_ops) 1 undefined
         ([], Some ''slow'', pingMethod, server_PingPong) l0 = (res, l')" by (metis prod.exhaust)
  show ?thesis
    using kind_limits_served [OF l0 limiter_reach.start _ _ call, of "''slow''" 1 3] l0 call
    by (simp add: count_reqs_def server_PingPong_def)
qed

end
