(* ===== verification/Example_Servers.thy ===== *)
theory Example_Servers
  imports Example_Loading
begin

text \<open>
  The servers of \<open>examples/grpc_unary/main.go\<close> and \<open>examples/grpc_streaming/main.go\<close>: the limiters and
  options that \<open>runServer\<close> makes and the handlers they guard. The network, the clients, the flags and the log lines are left out; a
  panic while a limiter is made is \<open>None\<close>.
\<close>

section \<open>Unary calls\<close>

definition unary_server_limiter :: "int \<Rightarrow> (fixed, simple) default_limiter option" where
  "unary_server_limiter now =
     (case NewDefaultLimiter fixed_ops simple_ops now (Some (fst (NewFixedLimit ''server-fixed-limit'' 10 NilRegistry [])))
             1 1000 1000000 100 (Some (NewSimpleStrategy 10)) (Some BuiltinLimitLogger) NilRegistry of
        Inl err \<Rightarrow> None
      | Inr l \<Rightarrow> Some l)"

definition unary_server_opts :: "'d \<Rightarrow> ('d, 'req, 'resp, 'code, 'e) grpc_option list" where
  "unary_server_opts serverLimiter = [grpc_WithName ''grpc-unary-server'', grpc_WithLimiter (GrpcCustom serverLimiter)]"

section \<open>Streams\<close>

definition stream_server_limiters :: "int \<Rightarrow> (fixed, simple) default_limiter stream_limiters option" where
  "stream_server_limiters now =
     (case NewDefaultLimiter fixed_ops simple_ops now (Some (fst (NewFixedLimit ''server-fixed-limit-send'' 1000 NilRegistry [])))
             1000 10000 100000 1000 (Some (NewSimpleStrategy 1000)) (Some BuiltinLimitLogger) NilRegistry of
        Inl err \<Rightarrow> None
      | Inr send \<Rightarrow>
          (case NewDefaultLimiter fixed_ops simple_ops now (Some (fst (NewFixedLimit ''server-fixed-limit-recv'' 10 NilRegistry [])))
                  1000 10000 100000 1000 (Some (NewSimpleStrategy 10)) (Some BuiltinLimitLogger) NilRegistry of
             Inl err \<Rightarrow> None
           | Inr recv \<Rightarrow> Some \<lparr>sl_recv = recv, sl_send = send\<rparr>))"

definition stream_server_opts :: "'d stream_limiters \<Rightarrow> ('d, 'm, 'code, 'e) stream_option list" where
  "stream_server_opts s =
     [WithStreamSendName ''grpc-stream-server-send'', WithStreamRecvName ''grpc-stream-server-recv'',
      WithStreamSendLimiter (GrpcCustom (sl_send s)), WithStreamRecvLimiter (GrpcCustom (sl_recv s))]"

text \<open>The handler: it reads a ping, and unless that failed sends the pong that answers it; it never returns an error.\<close>

definition stream_PingPong :: "'m \<Rightarrow> ('m \<Rightarrow> 'm) \<Rightarrow> ('m, 'e) stream_handler" where
  "stream_PingPong empty_ping pong =
     HandlerRecv empty_ping (\<lambda>(err, ping). if err \<noteq> None then HandlerReturn None
       else HandlerSend (pong ping) (\<lambda>_. HandlerReturn None))"

section \<open>Ten at once\<close>

text \<open>However its calls interleave, the unary server works on at most ten.\<close>

theorem unary_server_capacity:
  assumes "unary_server_limiter now = Some l0" and "limiter_reach fixed_ops simple_ops l0 (l, rs)"
  shows "count_reqs holds_token rs \<le> 10"
proof -
  have lmt: "fx_limit (fst (NewFixedLimit ''server-fixed-limit'' 10 NilRegistry [])) = 10"
    by (simp add: NewFixedLimit_def Let_def case_prod_beta)
  from assms(1) show ?thesis using simple_fixed_capacity [OF _ assms(2) lmt]
    by (auto simp: unary_server_limiter_def split: sum.splits)
qed

text \<open>
  A stream of the streaming server: the outbound limiter of a thousand is never asked, whatever happens. The
  handler ends without an error, or panics with the stream, and all its tokens are of the inbound limiter of ten.
\<close>

theorem stream_server_one_limiter:
  assumes "stream_server_limiters now = Some s0" and "length (filter holds_token rs) < 2 ^ 31 - 1"
    and "StreamServerInterceptor env (default_delegate fixed_ops simple_ops) (stream_server_opts s0) (st, ss) info
      (stream_PingPong ping0 pong) clock s = (res, s')"
  shows "sl_send s' = sl_send s
    \<and> (\<exists>rs'. (limiter_step fixed_ops simple_ops)\<^sup>*\<^sup>* (sl_recv s, rs) (sl_recv s', rs @ rs') \<and> tokens_kept res rs')"
proof -
  have cfg: "types_answered (stream_new_config env (stream_server_opts s0))"
    by (simp add: stream_new_config_def stream_server_opts_def WithStreamSendName_def WithStreamRecvName_def
        WithStreamSendLimiter_def WithStreamRecvLimiter_def streamDefaults_def types_answered_def default_answers_types Let_def)
  have "stream_ok fixed_ops simple_ops s rs (res, s')" and "sl_send s' = sl_send s"
    using run_handler_ok [OF assms(2) cfg, of fixed_ops simple_ops s env info ss clock "stream_PingPong ping0 pong" 0 st] assms(3)
      run_handler_send [of env "default_delegate fixed_ops simple_ops" "stream_new_config env (stream_server_opts s0)" info ss clock
        "stream_PingPong ping0 pong" 0 st s]
    by (simp_all add: StreamServerInterceptor_def)
  then show ?thesis unfolding stream_ok_def by auto
qed

end
