(* ===== verification/Debug_Strings.thy ===== *)
theory Debug_Strings
  imports Limit_AIMD Limit_Gradient Limit_Windowed Limiter_Queue Limiter_Blocking Interceptor_Http Interceptor_Grpc
    "HOL-Library.List_Lexorder" "HOL-Library.Char_ord"
begin

text \<open>
  The \<open>String\<close> methods of the library and the printing they rest on: decimal numbers as \<open>fmt\<close>
  writes them, floats with a fixed number of decimals, durations, slices and maps. A string is the
  list of its bytes. The lemmas read the printed numbers back: a printed value tells the number it was
  made of.
\<close>

section \<open>Printing\<close>

definition digit :: "nat \<Rightarrow> char" where
  "digit n = char_of (48 + n)"

fun show_nat :: "nat \<Rightarrow> string" where
  "show_nat n = (if n < 10 then [digit n] else show_nat (n div 10) @ [digit (n mod 10)])"

declare show_nat.simps [simp del]

text \<open>\<open>%d\<close> and \<open>%t\<close>.\<close>

definition show_int :: "int \<Rightarrow> string" where
  "show_int i = (if i < 0 then ''-'' @ show_nat (nat (- i)) else show_nat (nat i))"

definition show_bool :: "bool \<Rightarrow> string" where
  "show_bool b = (if b then ''true'' else ''false'')"

text \<open>
  \<open>%.<k>f\<close>: the exact value, rounded to \<open>k\<close> decimals, ties to even; \<open>%f\<close> has six of them. A negative
  number that rounds to zero keeps its sign.
\<close>

fun last_digits :: "nat \<Rightarrow> nat \<Rightarrow> string" where
  "last_digits 0 n = ''''"
| "last_digits (Suc k) n = last_digits k (n div 10) @ [digit (n mod 10)]"

fun show_fixed :: "nat \<Rightarrow> float64 \<Rightarrow> string" where
  "show_fixed k NaN = ''NaN''"
| "show_fixed k PInf = ''+Inf''"
| "show_fixed k NInf = ''-Inf''"
| "show_fixed k (Fin x) =
     (let n = nat (rne (\<bar>x\<bar> * 10 ^ k))
      in (if x < 0 then ''-'' else '''') @ show_nat (n div 10 ^ k) @ (if k = 0 then '''' else ''.'' @ last_digits k (n mod 10 ^ k)))"

text \<open>
  \<open>time.Duration.String\<close>: below a second in the largest unit that gives a whole part, else as hours, minutes
  and seconds; the fraction loses its trailing zeros. The micro sign is two bytes.
\<close>

fun drop_zeros :: "string \<Rightarrow> string" where
  "drop_zeros s = rev (dropWhile (\<lambda>c. c = CHR ''0'') (rev s))"

definition show_frac :: "nat \<Rightarrow> nat \<Rightarrow> string" where
  "show_frac k n = (let s = drop_zeros (last_digits k (n mod 10 ^ k)) in if s = '''' then '''' else ''.'' @ s)"

definition show_duration :: "int \<Rightarrow> string" where
  "show_duration d =
     (let u = nat \<bar>d\<bar>;
          s = (if u = 0 then ''0s''
               else if u < 1000 then show_nat u @ ''ns''
               else if u < 1000000 then show_nat (u div 1000) @ show_frac 3 u @ [CHR 0xC2, CHR 0xB5] @ ''s''
               else if u < 1000000000 then show_nat (u div 1000000) @ show_frac 6 u @ ''ms''
               else let seconds = u div 1000000000; minutes = seconds div 60; hours = minutes div 60
                    in (if hours > 0 then show_nat hours @ ''h'' else '''')
                       @ (if minutes > 0 then show_nat (minutes mod 60) @ ''m'' else '''')
                       @ show_nat (seconds mod 60) @ show_frac 9 u @ ''s'')
      in (if d < 0 then ''-'' else '''') @ s)"

text \<open>\<open>%v\<close> of a slice and of a map, whose keys come in increasing order.\<close>

fun spaced :: "string list \<Rightarrow> string" where
  "spaced [] = ''''"
| "spaced [x] = x"
| "spaced (x # xs) = x @ '' '' @ spaced xs"

definition show_slice :: "('a \<Rightarrow> string) \<Rightarrow> 'a list \<Rightarrow> string" where
  "show_slice f xs = ''['' @ spaced (map f xs) @ '']''"

definition show_map :: "('a \<Rightarrow> string) \<Rightarrow> (string \<times> 'a) list \<Rightarrow> string" where
  "show_map f m = ''map['' @ spaced (map (\<lambda>(k, v). k @ '':'' @ f v) (sort_key fst m)) @ '']''"

section \<open>Measurements and the sample window\<close>

definition expavg_String :: "expavg \<Rightarrow> string" where
  "expavg_String m =
     ''ExponentialAverageMeasurement{value='' @ show_fixed 5 (ea_value m) @ '', count='' @ show_int (ea_count m)
     @ '', window='' @ show_int (ea_window m) @ '', warmupWindow='' @ show_int (ea_warmupWindow m) @ ''}''"

definition minimum_String :: "minimum \<Rightarrow> string" where
  "minimum_String m = ''MinimumMeasurement{value='' @ show_fixed 5 (mn_value m) @ ''}''"

definition single_String :: "single \<Rightarrow> string" where
  "single_String m = ''SingleMeasurement{value='' @ show_fixed 5 (sg_value m) @ ''}''"

definition window_String :: "sample_window \<Rightarrow> string" where
  "window_String s =
     ''ImmutableSampleWindow{minRTT='' @ show_int (sw_minRTT s) @ '', averageRTT='' @ show_int (AverageRTTNanoseconds s)
     @ '', maxInFlight='' @ show_int (sw_maxInFlight s) @ '', sampleCount='' @ show_int (sw_sampleCount s)
     @ '', didDrop='' @ show_bool (sw_didDrop s) @ ''}''"

section \<open>Strategies\<close>

definition precise_String :: "precise \<Rightarrow> string" where
  "precise_String s = ''PreciseStrategy{inFlight='' @ show_int (p_inFlight s) @ '', limit='' @ show_int (p_limit s) @ ''}''"

text \<open>The second operand is the pointer \<open>s.limit\<close>, so \<open>%d\<close> prints the address \<open>limit_addr\<close> of the limit.\<close>

definition simple_String :: "nat \<Rightarrow> simple \<Rightarrow> string" where
  "simple_String limit_addr s =
     ''SimpleStrategy{inFlight='' @ show_int (s_inFlight s) @ '', limit='' @ show_nat limit_addr @ ''}''"

definition lookup_partition_String :: "partition \<Rightarrow> string" where
  "lookup_partition_String p =
     ''LookupPartition{name='' @ pt_name p @ '', percent='' @ show_fixed 6 (pt_percent p)
     @ '', limit='' @ show_int (pt_limit p) @ '', busy='' @ show_int (pt_busy p) @ ''}''"

definition lookup_String :: "lookup \<Rightarrow> string" where
  "lookup_String s =
     ''LookupPartitionStrategy{partitions='' @ show_map (lookup_partition_String \<circ> lk_store s) (lk_partitions s)
     @ '', unknownPartition='' @ lookup_partition_String (lk_store s (lk_unknown s))
     @ '', limit='' @ show_int (lk_limit s) @ '', busy='' @ show_int (lk_busy s) @ ''}''"

definition predicate_partition_String :: "ppartition \<Rightarrow> string" where
  "predicate_partition_String p =
     ''PredicatePartition{name='' @ pt_name p @ '', percent='' @ show_fixed 6 (pt_percent p)
     @ '', limit='' @ show_int (pt_limit p) @ '', busy='' @ show_int (pt_busy p) @ ''}''"

text \<open>At most ten partitions are printed.\<close>

definition predicate_String :: "predicate_strategy \<Rightarrow> string" where
  "predicate_String s =
     (let l = min 10 (length (pd_partitions s))
      in ''PredicatePartitionStrategy{partitions=''
         @ show_slice (predicate_partition_String \<circ> pd_store s) (take l (pd_partitions s))
         @ '', limit='' @ show_int (pd_limit s) @ '', busy='' @ show_int (pd_busy s) @ ''}'')"

section \<open>Limits\<close>

definition fixed_String :: "fixed \<Rightarrow> string" where
  "fixed_String l = ''FixedLimit{limit='' @ show_int (fx_limit l) @ ''}''"

definition settable_String :: "settable \<Rightarrow> string" where
  "settable_String l = ''SettableLimit{limit='' @ show_int (st_limit l) @ ''}''"

definition aimd_String :: "aimd \<Rightarrow> string" where
  "aimd_String l =
     ''AIMDLimit{limit='' @ show_int (aimd_EstimatedLimit l) @ '', backOffRatio='' @ show_fixed 4 (aimd_BackOffRatio l) @ ''}''"

definition gradient_String :: "gradient \<Rightarrow> string" where
  "gradient_String l =
     ''GradientLimit{limit='' @ show_int (gradient_EstimatedLimit l)
     @ '', rttNoLoad='' @ show_int (quot64 (gradient_RTTNoLoad l) 1000000) @ '' ms}''"

definition gradient2_String :: "gradient2 \<Rightarrow> string" where
  "gradient2_String l = ''Gradient2Limit{limit='' @ show_int (f2i (g2_estimatedLimit l)) @ ''}''"

text \<open>Unlike the gradient limit, the Vegas limit does not divide the nanoseconds it calls milliseconds.\<close>

definition vegas_String :: "vegas \<Rightarrow> string" where
  "vegas_String l =
     ''VegasLimit{limit='' @ show_int (vegas_EstimatedLimit l) @ '', rttNoLoad='' @ show_int (vegas_RTTNoLoad l) @ '' ms}''"

text \<open>The format lacks the closing brace.\<close>

definition windowed_String :: "('l \<Rightarrow> string) \<Rightarrow> 'l windowed \<Rightarrow> string" where
  "windowed_String show_limit l =
     ''WindowedLimit{minWindowTime='' @ show_int (wd_minWindowTime l) @ '', maxWindowTime='' @ show_int (wd_maxWindowTime l)
     @ '', minRTTThreshold='' @ show_int (wd_minRTTThreshold l) @ '', windowSize='' @ show_int (wd_windowSize l)
     @ '', delegate='' @ show_limit (wd_delegate l)"

fun logger_String :: "logger \<Rightarrow> string" where
  "logger_String NoopLimitLogger = ''NoopLimitLogger{}''"
| "logger_String BuiltinLimitLogger = ''BuiltinLimitLogger{}''"

definition traced_String :: "('l \<Rightarrow> string) \<Rightarrow> 'l traced \<Rightarrow> string" where
  "traced_String show_limit l =
     ''TracedLimit{limit='' @ show_limit (tr_limit l) @ '', logger='' @ logger_String (tr_logger l) @ ''}''"

section \<open>Limiters\<close>

text \<open>
  The sample of the default limiter is never nil. \<open>l.inFlight\<close> is a pointer, so \<open>%d\<close> prints its address, and
  the candidate is in microseconds.
\<close>

definition default_String ::
    "('l \<Rightarrow> string) \<Rightarrow> ('s \<Rightarrow> string) \<Rightarrow> nat \<Rightarrow> ('l, 's) default_limiter \<Rightarrow> string" where
  "default_String show_limit show_strategy inFlight_addr l =
     ''DefaultLimiter{RTTCandidate='' @ show_int (quot64 (CandidateRTTNanoseconds (dl_sample l)) 1000)
     @ '' ms, maxInFlight='' @ show_nat inFlight_addr @ '', limit='' @ show_limit (dl_limit l)
     @ '', strategy='' @ show_strategy (dl_strategy l) @ ''}''"

definition blocking_String :: "('d \<Rightarrow> string) \<Rightarrow> 'd blocking \<Rightarrow> string" where
  "blocking_String show_delegate l = ''BlockingLimiter{delegate='' @ show_delegate (bk_delegate l) @ ''}''"

definition deadline_String :: "('d \<Rightarrow> string) \<Rightarrow> 'd blocking \<Rightarrow> string" where
  "deadline_String show_delegate l = ''DeadlineLimiter{delegate='' @ show_delegate (bk_delegate l) @ ''}''"

definition queue_String :: "('d \<Rightarrow> string) \<Rightarrow> 'd queue_limiter \<Rightarrow> string" where
  "queue_String show_delegate l =
     ''QueueBlockingLimiter{delegate='' @ show_delegate (ql_delegate l) @ '', maxBacklogSize='' @ show_int (ql_maxBacklogSize l)
     @ '', maxBacklogTimeout='' @ show_duration (ql_maxBacklogTimeout l)
     @ '', ordering='' @ q_ordering (ql_backlog l) @ ''}''"

text \<open>What an interceptor prints of its limiter, and the error of the HTTP client.\<close>

definition shown_default :: "nat \<Rightarrow> nat \<Rightarrow> (vegas, simple) default_limiter \<Rightarrow> string" where
  "shown_default inFlight_addr limit_addr = default_String vegas_String (simple_String limit_addr) inFlight_addr"

fun http_shown :: "nat \<Rightarrow> nat \<Rightarrow> ('d \<Rightarrow> string) \<Rightarrow> 'd http_limiter \<Rightarrow> string" where
  "http_shown a b f (DefaultLimiter l) = shown_default a b l"
| "http_shown a b f (CustomLimiter d) = f d"
| "http_shown a b f NilLimiter = ''<nil>''"

definition limitExceeded_Error :: "('d http_limiter \<Rightarrow> string) \<Rightarrow> 'd http_limiter \<Rightarrow> string" where
  "limitExceeded_Error show_limiter l = ''concurrency limit exceeded for limiter='' @ show_limiter l"

fun grpc_shown :: "nat \<Rightarrow> nat \<Rightarrow> ('d \<Rightarrow> string) \<Rightarrow> 'd grpc_limiter \<Rightarrow> string" where
  "grpc_shown a b f (GrpcDefault l) = shown_default a b l"
| "grpc_shown a b f (GrpcCustom d) = f d"
| "grpc_shown a b f GrpcNil = ''<nil>''"

section \<open>Reading numbers back\<close>

definition is_digit :: "char \<Rightarrow> bool" where
  "is_digit c \<longleftrightarrow> 48 \<le> (of_char c :: nat) \<and> (of_char c :: nat) \<le> 57"

definition is_num :: "char \<Rightarrow> bool" where
  "is_num c \<longleftrightarrow> c = CHR ''-'' \<or> is_digit c"

definition read_nat :: "string \<Rightarrow> nat" where
  "read_nat s = foldl (\<lambda>n c. 10 * n + (of_char c - 48)) 0 s"

definition read_int :: "string \<Rightarrow> int" where
  "read_int s = (case s of c # s' \<Rightarrow> (if c = CHR ''-'' then - int (read_nat s') else int (read_nat s)) | [] \<Rightarrow> 0)"

lemma of_char_digit [simp]: "n < 10 \<Longrightarrow> (of_char (digit n) :: nat) = 48 + n"
  by (simp add: digit_def of_char_mod_256)

lemma digit_digit [simp]: "n < 10 \<Longrightarrow> is_digit (digit n)"
  by (simp add: is_digit_def)

lemma read_nat_append: "read_nat (s @ t) = foldl (\<lambda>n c. 10 * n + (of_char c - 48)) (read_nat s) t"
  by (simp add: read_nat_def)

lemma read_show_nat [simp]: "read_nat (show_nat n) = n"
proof (induction n rule: show_nat.induct)
  case (1 n)
  then show ?case by (subst show_nat.simps) (auto simp: read_nat_append, simp add: read_nat_def)
qed

lemma show_nat_digits: "\<forall>c \<in> set (show_nat n). is_digit c"
proof (induction n rule: show_nat.induct)
  case (1 n)
  then show ?case by (subst show_nat.simps) auto
qed

lemma show_nat_not_Nil [simp]: "show_nat n \<noteq> []"
  by (subst show_nat.simps) simp

lemma minus_not_digit [simp]: "\<not> is_digit (CHR ''-'')"
  by (simp add: is_digit_def)

lemma show_nat_hd: "show_nat n = c # s \<Longrightarrow> c \<noteq> CHR ''-''"
  using show_nat_digits [of n] by auto

lemma read_show_int [simp]: "read_int (show_int i) = i"
proof (cases "i < 0")
  case True
  then show ?thesis by (simp add: show_int_def read_int_def)
next
  case False
  then show ?thesis using show_nat_hd [of "nat i"] read_show_nat [of "nat i"]
    by (cases "show_nat (nat i)") (auto simp: show_int_def read_int_def simp del: read_show_nat)
qed

lemma show_inj [simp]: "show_nat m = show_nat n \<longleftrightarrow> m = n" "show_int i = show_int j \<longleftrightarrow> i = j"
  by (metis read_show_nat, metis read_show_int)

lemma show_num: "c \<in> set (show_nat n) \<Longrightarrow> is_num c" "c \<in> set (show_int i) \<Longrightarrow> is_num c"
  using show_nat_digits by (auto simp: show_int_def is_num_def split: if_splits)

text \<open>A number is told from what follows it, when that does not begin with a digit or a minus.\<close>

lemma append_num_eq:
  assumes "\<forall>c \<in> set s. is_num c" and "\<forall>c \<in> set t. is_num c" and "\<not> is_num c" and "\<not> is_num d"
  shows "s @ c # r = t @ d # q \<longleftrightarrow> s = t \<and> c = d \<and> r = q"
proof
  assume eq: "s @ c # r = t @ d # q"
  have "takeWhile is_num (s @ c # r) = s" and "takeWhile is_num (t @ d # q) = t"
    using assms by (simp_all add: takeWhile_append2)
  then have "s = t" using eq by simp
  then show "s = t \<and> c = d \<and> r = q" using eq by simp
qed simp

lemma show_append_eq [simp]:
  "\<not> is_num c \<Longrightarrow> \<not> is_num d \<Longrightarrow> show_int i @ c # r = show_int j @ d # q \<longleftrightarrow> i = j \<and> c = d \<and> r = q"
  "\<not> is_num c \<Longrightarrow> \<not> is_num d \<Longrightarrow> show_nat m @ c # r = show_nat n @ d # q \<longleftrightarrow> m = n \<and> c = d \<and> r = q"
  by (subst append_num_eq; auto intro: show_num)+

lemma not_num [simp]: "\<not> is_num (CHR '','')" "\<not> is_num (CHR ''}'')" "\<not> is_num (CHR '' '')"
  by (simp_all add: is_num_def is_digit_def)

subsection \<open>Decimals\<close>

lemma last_digits_digits: "\<forall>c \<in> set (last_digits k n). is_digit c"
  by (induction k arbitrary: n) auto

lemma read_last_digits: "n < 10 ^ k \<Longrightarrow> read_nat (s @ last_digits k n) = read_nat s * 10 ^ k + n"
proof (induction k arbitrary: n)
  case (Suc k)
  then have "n div 10 < 10 ^ k" by (simp add: less_mult_imp_div_less mult.commute)
  with Suc.IH have "read_nat ((s @ last_digits k (n div 10)) @ [digit (n mod 10)])
      = 10 * (read_nat s * 10 ^ k + n div 10) + n mod 10"
    by (subst read_nat_append) simp
  then show ?case by (simp add: algebra_simps)
qed simp

lemma show_fixed_digits: "read_nat (filter is_digit (show_fixed k (Fin x))) = nat (rne (\<bar>x\<bar> * 10 ^ k))"
proof -
  have d: "filter is_digit (show_nat n) = show_nat n" "filter is_digit (last_digits j n) = last_digits j n" for j n
    using show_nat_digits last_digits_digits by (simp_all add: filter_id_conv)
  have dot: "\<not> is_digit (CHR ''.'')" by (simp add: is_digit_def)
  have "read_nat (show_nat (n div 10 ^ k) @ last_digits k (n mod 10 ^ k)) = n" for n
    using div_mult_mod_eq [of n "10 ^ k"] by (simp only: read_last_digits read_show_nat mod_less_divisor zero_less_power zero_less_numeral)
  then show ?thesis by (cases "k = 0") (auto simp: d dot Let_def)
qed

text \<open>The decimal written is within half a unit of the last place of the value.\<close>

lemma show_fixed_accuracy:
  "\<bar>real (read_nat (filter is_digit (show_fixed k (Fin x)))) / 10 ^ k - \<bar>x\<bar>\<bar> \<le> 1 / (2 * 10 ^ k)"
proof -
  let ?y = "\<bar>x\<bar> * 10 ^ k"
  have "0 \<le> rne ?y" using rne_mono [of 0 ?y] rne_of_int [of 0] by simp
  then have n: "real (nat (rne ?y)) = of_int (rne ?y)" by simp
  have "of_int (rne ?y) / 10 ^ k - \<bar>x\<bar> = (of_int (rne ?y) - ?y) / 10 ^ k" by (simp add: diff_divide_distrib)
  then have "\<bar>of_int (rne ?y) / 10 ^ k - \<bar>x\<bar>\<bar> = \<bar>of_int (rne ?y) - ?y\<bar> / 10 ^ k"
    by (simp only: abs_divide) simp
  also have "\<dots> \<le> (1 / 2) / 10 ^ k" using rne_error [of ?y] by (intro divide_right_mono) auto
  finally show ?thesis by (simp only: show_fixed_digits n divide_divide_eq_left)
qed

section \<open>What the strings tell\<close>

text \<open>The printed precise strategy determines the counts, and the printed window its aggregates.\<close>

theorem precise_String_determines:
  "precise_String s = precise_String s' \<longleftrightarrow> p_inFlight s = p_inFlight s' \<and> p_limit s = p_limit s'"
  by (auto simp: precise_String_def)

theorem window_String_determines:
  "window_String s = window_String s' \<longleftrightarrow> sw_minRTT s = sw_minRTT s' \<and> AverageRTTNanoseconds s = AverageRTTNanoseconds s'
     \<and> sw_maxInFlight s = sw_maxInFlight s' \<and> sw_sampleCount s = sw_sampleCount s' \<and> sw_didDrop s = sw_didDrop s'"
  by (auto simp: window_String_def show_bool_def)

text \<open>The printed simple strategy says nothing of its limit: setting another one prints the same.\<close>

theorem simple_String_hides_limit: "simple_String a (simple_SetLimit n s) = simple_String a s"
  by (simp add: simple_String_def simple_SetLimit_def Let_def)

text \<open>Nor does the default limiter say how many requests are in flight.\<close>

theorem default_String_hides_inFlight:
  "default_String f g a (l\<lparr>dl_inFlight := n\<rparr>) = default_String f g a l"
  by (simp add: default_String_def)

text \<open>The printed lookup strategy does not depend on the order in which Go iterates over its map.\<close>

theorem lookup_String_iteration:
  assumes "mset m = mset (lk_partitions s)" and "distinct (map fst (lk_partitions s))"
  shows "lookup_String (s\<lparr>lk_partitions := m\<rparr>) = lookup_String s"
proof -
  have "set m = set (lk_partitions s)" using assms(1) by (rule mset_eq_setD)
  then have "inj_on fst (set m)" using assms(2) by (simp add: distinct_map)
  then have "sort_key fst m = sort_key fst (lk_partitions s)"
    using assms(1) by (intro sort_key_inj_key_eq) simp_all
  then show ?thesis by (simp add: lookup_String_def show_map_def)
qed

text \<open>The text with which the HTTP server refuses is the error that the client gives.\<close>

lemma http_refusal_text:
  "defaultLimitExceededHandler env w r l = he_Error env w (limitExceeded_Error (he_show env) l) 503"
  by (simp add: defaultLimitExceededHandler_def limitExceeded_Error_def)

section \<open>The log lines\<close>

text \<open>
  What \<open>BuiltinLimitLogger.Debugf\<close> gives to \<open>log.Printf\<close>, with the verbs the limits use; \<open>None\<close> when \<open>fmt\<close> would complain
  in the line, of a verb that does not fit its operand or of operands missing or left over.
\<close>

function log_line :: "string \<Rightarrow> log_arg list \<Rightarrow> string option" where
  "log_line [] params = (if params = [] then Some '''' else None)"
| "log_line (c # s) params =
     (if c \<noteq> CHR ''%'' then map_option ((#) c) (log_line s params)
      else case params of
        [] \<Rightarrow> None
      | LogInt i # rest \<Rightarrow>
          (if take 1 s = ''d'' then map_option ((@) (show_int i)) (log_line (drop 1 s) rest) else None)
      | LogBool b # rest \<Rightarrow>
          (if take 1 s = ''t'' then map_option ((@) (show_bool b)) (log_line (drop 1 s) rest) else None)
      | LogFloat x # rest \<Rightarrow>
          (if take 4 s = ''0.2f'' then map_option ((@) (show_fixed 2 x)) (log_line (drop 4 s) rest)
           else if take 4 s = ''0.4f'' then map_option ((@) (show_fixed 4 x)) (log_line (drop 4 s) rest)
           else None))"
  by pat_completeness auto
termination by (relation "measure (length \<circ> fst)") auto

fun logs_cleanly :: "effect \<Rightarrow> bool" where
  "logs_cleanly (Debugf msg params) = (log_line msg params \<noteq> None)"
| "logs_cleanly _ = True"

lemma AddSample_logs [simp]: "list_all logs_cleanly (AddSample s v)"
  by (cases s) auto

lemma Sample_logs [simp]: "list_all logs_cleanly (Sample s rtt infl d)"
  by (cases s) auto

lemma notify_logs [simp]: "list_all logs_cleanly (notify_all ls n)"
  by (simp add: notify_all_def list_all_iff)

lemma logger_logs [simp]: "list_all logs_cleanly (logger_Debugf g msg params) \<longleftrightarrow> g = NoopLimitLogger \<or> log_line msg params \<noteq> None"
  by (cases g) auto

text \<open>Every line that a limit logs while it takes a sample is well formed.\<close>

theorem traced_logs:
  assumes "list_all logs_cleanly (snd (OnSample ops rd startTime rtt infl d (tr_limit l)))"
  shows "list_all logs_cleanly (snd (traced_OnSample ops rd startTime rtt infl d l))
    \<and> list_all logs_cleanly (snd (traced_EstimatedLimit ops l))"
  using assms by (auto simp: traced_OnSample_def traced_EstimatedLimit_def Let_def split: prod.splits)

theorem vegas_logs:
  assumes "vegas_OnSample rd startTime rtt infl d l = Some (l', e)"
  shows "list_all logs_cleanly e"
  using assms
  by (auto simp: vegas_OnSample_def vegas_updateEstimatedLimit_def vegas_notifyListeners_def Let_def
      split: if_splits option.splits)

theorem gradient_logs:
  assumes "gradient_OnSample rd startTime rtt infl d l = Some (l', e)"
  shows "list_all logs_cleanly e"
  using assms
  by (auto simp: gradient_OnSample_def gradient_update_def gradient_notifyListeners_def Let_def
      split: if_splits option.splits prod.splits)

theorem gradient2_logs:
  assumes "gradient2_OnSample startTime rtt infl d l = Some (l', e)"
  shows "list_all logs_cleanly e"
  using assms
  by (auto simp: gradient2_OnSample_def gradient2_notifyListeners_def Let_def
      split: if_splits option.splits prod.splits)

text \<open>Durations as the limiters of the examples and the defaults of the queue print them.\<close>

lemma show_nat_steps: "n < 10 \<Longrightarrow> show_nat n = [digit n]" "10 \<le> n \<Longrightarrow> show_nat n = show_nat (n div 10) @ [digit (n mod 10)]"
  by (simp_all add: show_nat.simps [of n])

lemma digits:
  "digit (Suc 0) = CHR ''1''" "digit 0 = CHR ''0''" "digit 1 = CHR ''1''" "digit 2 = CHR ''2''" "digit 3 = CHR ''3''" "digit 4 = CHR ''4''"
  "digit 5 = CHR ''5''" "digit 6 = CHR ''6''" "digit 7 = CHR ''7''" "digit 8 = CHR ''8''" "digit 9 = CHR ''9''"
  by code_simp+

lemma last_digits_numeral:
  "last_digits (numeral k) n = last_digits (pred_numeral k) (n div 10) @ [digit (n mod 10)]"
  by (simp only: numeral_eq_Suc [of k] last_digits.simps)

lemma durations_printed:
  "show_duration 1000000000 = ''1s''" "show_duration 250000000 = ''250ms''" "show_duration 1500000 = ''1.5ms''"
  "show_duration 5400000000000 = ''1h30m0s''" "show_duration (- 7) = ''-7ns''" "show_duration 0 = ''0s''"
  by (simp_all add: show_duration_def show_frac_def Let_def show_nat_steps digits last_digits_numeral)

lemma queue_defaults_printed:
  "queue_String show_delegate (fst (NewFifoBlockingLimiterWithDefaults d)) =
     ''QueueBlockingLimiter{delegate='' @ show_delegate d @ '', maxBacklogSize=100, maxBacklogTimeout=1s, ordering=fifo}''"
proof -
  have "show_int 100 = ''100''" by (simp add: show_int_def show_nat_steps digits)
  then show ?thesis
    by (simp add: queue_String_def NewFifoBlockingLimiterWithDefaults_def NewFifoBlockingLimiter_def
        NewQueueBlockingLimiterFromConfig_def ApplyDefaults_def empty_config_def OrderingFIFO_def u64_def Let_def
        durations_printed)
qed

end
