(* ===== verification/Example_Programs.thy ===== *)
theory Example_Programs
  imports Example_Partitions Example_Servers Debug_Strings
begin

text \<open>
  The programs around the servers of \<open>examples/grpc_unary/main.go\<close>, \<open>examples/grpc_streaming/main.go\<close> and
  \<open>examples/grpc_partition_strategy/main.go\<close>: the check of the options, the choice of mode, the order in which a server listens,
  makes its limiter and serves, and the clients. The network is a parameter, and so are the results of the remote calls;
  the flag package fills in the options.
\<close>

section \<open>Programs\<close>

text \<open>A listener that fails gives an error; \<open>Serve\<close> need not return.\<close>

record ('e, 'srv, 'conn) network =
  net_Listen :: "string \<Rightarrow> 'e option"
  net_Serve :: "'srv \<Rightarrow> 'e option option"
  net_Dial :: "string \<Rightarrow> 'e + 'conn"

datatype 'e go_panic = PanicError 'e | PanicLimiter | PanicText string | PanicNil | PanicWaitGroup

datatype 'e program = Ends | Blocks | Panics "'e go_panic"

record example_options =
  eo_mode :: string
  eo_port :: int
  eo_numThreads :: int

record partition_options = example_options +
  eo_strategyType :: string

definition example_default_options :: example_options where
  "example_default_options = \<lparr>eo_mode = ''server'', eo_port = 8080, eo_numThreads = 105\<rparr>"

definition partition_default_options :: partition_options where
  "partition_default_options = \<lparr>eo_mode = ''server'', eo_port = 8080, eo_numThreads = 20, eo_strategyType = ''lookup''\<rparr>"

definition quoted :: "string \<Rightarrow> string" where
  "quoted s = [CHR 0x27] @ s @ [CHR 0x27]"

definition checkOptions :: "'a example_options_scheme \<Rightarrow> 'e go_panic option" where
  "checkOptions opts =
     (if eo_mode opts = ''client'' \<or> eo_mode opts = ''server'' then None
      else Some (PanicText (''invalid mode specified: '' @ quoted (eo_mode opts))))"

definition example_main :: "'e program \<Rightarrow> 'e program \<Rightarrow> 'a example_options_scheme \<Rightarrow> 'e program" where
  "example_main runServer runClient opts =
     (case checkOptions opts of
        Some p \<Rightarrow> Panics p
      | None \<Rightarrow> (if eo_mode opts = ''server'' then runServer else if eo_mode opts = ''client'' then runClient else Ends))"

section \<open>Unary calls\<close>

text \<open>When \<open>Serve\<close> fails, the program panics with nil instead of the error.\<close>

definition unary_runServer ::
    "('e, ((fixed, simple) default_limiter, 'req, 'resp, 'code, 'e) grpc_config, 'conn) network
     \<Rightarrow> ((fixed, simple) default_limiter, 'code, 'e) grpc_env \<Rightarrow> int \<Rightarrow> 'a example_options_scheme \<Rightarrow> 'e program" where
  "unary_runServer net env now opts =
     (case net_Listen net ('':'' @ show_int (eo_port opts)) of
        Some err \<Rightarrow> Panics (PanicError err)
      | None \<Rightarrow>
          (case unary_server_limiter now of
             None \<Rightarrow> Panics PanicLimiter
           | Some l \<Rightarrow>
               (case net_Serve net (grpc_new_config env (unary_server_opts l)) of
                  None \<Rightarrow> Blocks
                | Some None \<Rightarrow> Ends
                | Some (Some err) \<Rightarrow> Panics PanicNil)))"

text \<open>The workers loop for ever and never call \<open>Done\<close>, so \<open>Wait\<close> returns only when there are none.\<close>

definition await_endless_workers :: "int \<Rightarrow> 'e program" where
  "await_endless_workers numThreads =
     (case wg_Add numThreads 0 of
        None \<Rightarrow> Panics PanicWaitGroup
      | Some wg \<Rightarrow> (if wg = 0 then Ends else Blocks))"

definition unary_runClient :: "('e, 'srv, 'conn) network \<Rightarrow> 'a example_options_scheme \<Rightarrow> 'e program" where
  "unary_runClient net opts =
     (case net_Dial net (''localhost:'' @ show_int (eo_port opts)) of
        Inl err \<Rightarrow> Panics (PanicError err)
      | Inr conn \<Rightarrow> await_endless_workers (eo_numThreads opts))"

definition hello_message :: "int \<Rightarrow> int \<Rightarrow> string" where
  "hello_message i workerID = ''hello '' @ show_int i @ '' from '' @ show_int workerID"

text \<open>The line that a query logs.\<close>

definition query_line :: "('e \<Rightarrow> string) \<Rightarrow> int \<Rightarrow> int \<Rightarrow> 'e + string \<Rightarrow> string" where
  "query_line show_err workerID i r =
     (case r of Inl err \<Rightarrow> ''[failed]('' | Inr m \<Rightarrow> ''[pass]('') @ show_int workerID @ '' - '' @ show_int i @ '')'' @ [CHR 0x09] @ '' - ''
       @ (case r of Inl err \<Rightarrow> show_err err | Inr m \<Rightarrow> m)"

definition unary_queryServer :: "('e \<Rightarrow> string) \<Rightarrow> (string \<Rightarrow> 'e + string) \<Rightarrow> int \<Rightarrow> int \<Rightarrow> string" where
  "unary_queryServer show_err call workerID i = query_line show_err workerID i (call (hello_message i workerID))"

section \<open>Streams\<close>

definition stream_runServer ::
    "('e, ((fixed, simple) default_limiter, 'm, 'code, 'e) stream_config, 'conn) network
     \<Rightarrow> ((fixed, simple) default_limiter, 'code, 'e) grpc_env \<Rightarrow> int \<Rightarrow> 'a example_options_scheme \<Rightarrow> 'e program" where
  "stream_runServer net env now opts =
     (case net_Listen net ('':'' @ show_int (eo_port opts)) of
        Some err \<Rightarrow> Panics (PanicError err)
      | None \<Rightarrow>
          (case stream_server_limiters now of
             None \<Rightarrow> Panics PanicLimiter
           | Some s \<Rightarrow>
               (case net_Serve net (stream_new_config env (stream_server_opts s)) of
                  None \<Rightarrow> Blocks
                | Some None \<Rightarrow> Ends
                | Some (Some err) \<Rightarrow> Panics PanicNil)))"

text \<open>A client's stream: sending and receiving change its state.\<close>

record ('e, 'c) stream_client =
  cl_Send :: "string \<Rightarrow> 'c \<Rightarrow> 'e option \<times> 'c"
  cl_Recv :: "'c \<Rightarrow> ('e + string) \<times> 'c"

text \<open>Dialling and opening the stream both panic when they fail; \<open>open\<close> is the remote call.\<close>

definition resetConnection :: "('e, 'srv, 'conn) network \<Rightarrow> ('conn \<Rightarrow> 'e + 'c) \<Rightarrow> 'a example_options_scheme \<Rightarrow> 'e go_panic + 'conn \<times> 'c" where
  "resetConnection net PingPong opts =
     (case net_Dial net (''localhost:'' @ show_int (eo_port opts)) of
        Inl err \<Rightarrow> Inl (PanicError err)
      | Inr conn \<Rightarrow> (case PingPong conn of Inl err \<Rightarrow> Inl (PanicError err) | Inr client \<Rightarrow> Inr (conn, client)))"

definition stream_queryServer ::
    "('e \<Rightarrow> string) \<Rightarrow> ('e, 'c) stream_client \<Rightarrow> int \<Rightarrow> int \<Rightarrow> 'c \<Rightarrow> 'e option \<times> string \<times> 'c" where
  "stream_queryServer show_err ops workerID i c =
     (case cl_Send ops (hello_message i workerID) c of
        (Some err, c) \<Rightarrow> (Some err, query_line show_err workerID i (Inl err), c)
      | (None, c) \<Rightarrow>
          (case cl_Recv ops c of
             (Inl err, c) \<Rightarrow> (Some err, query_line show_err workerID i (Inl err), c)
           | (Inr pong, c) \<Rightarrow> (None, query_line show_err workerID i (Inr pong), c)))"

text \<open>
  One round of a worker: after an error it takes a new connection, and in either case goes on with the next number. \<open>reset j\<close> is what
  \<open>resetConnection\<close> gives in round \<open>j\<close>; the results of closing the old stream and connection are not looked at.
\<close>

definition stream_worker_round ::
    "('e \<Rightarrow> string) \<Rightarrow> ('e, 'c) stream_client \<Rightarrow> (int \<Rightarrow> 'e go_panic + 'conn \<times> 'c) \<Rightarrow> int \<Rightarrow> 'c \<times> int \<times> string list
     \<Rightarrow> 'e go_panic + 'c \<times> int \<times> string list" where
  "stream_worker_round show_err ops reset workerID = (\<lambda>(c, j, lines).
     case stream_queryServer show_err ops workerID j c of
       (None, line, c) \<Rightarrow> Inr (c, i64 (j + 1), lines @ [line])
     | (Some err, line, c) \<Rightarrow>
         (case reset j of
            Inl p \<Rightarrow> Inl p
          | Inr (conn, c) \<Rightarrow> Inr (c, i64 (j + 1), lines @ [line])))"

primrec stream_worker_rounds ::
    "('e \<Rightarrow> string) \<Rightarrow> ('e, 'c) stream_client \<Rightarrow> (int \<Rightarrow> 'e go_panic + 'conn \<times> 'c) \<Rightarrow> int \<Rightarrow> nat \<Rightarrow> 'c \<times> int \<times> string list
     \<Rightarrow> 'e go_panic + 'c \<times> int \<times> string list" where
  "stream_worker_rounds show_err ops reset workerID 0 s = Inr s"
| "stream_worker_rounds show_err ops reset workerID (Suc n) s =
     (case stream_worker_rounds show_err ops reset workerID n s of
        Inl p \<Rightarrow> Inl p
      | Inr s \<Rightarrow> stream_worker_round show_err ops reset workerID s)"

definition stream_worker ::
    "('e, 'srv, 'conn) network \<Rightarrow> ('conn \<Rightarrow> 'e + 'c) \<Rightarrow> 'a example_options_scheme \<Rightarrow> ('e \<Rightarrow> string) \<Rightarrow> ('e, 'c) stream_client
     \<Rightarrow> (int \<Rightarrow> 'e go_panic + 'conn \<times> 'c) \<Rightarrow> int \<Rightarrow> nat \<Rightarrow> 'e go_panic + 'c \<times> int \<times> string list" where
  "stream_worker net PingPong opts show_err ops reset workerID n =
     (case resetConnection net PingPong opts of
        Inl p \<Rightarrow> Inl p
      | Inr (conn, client) \<Rightarrow> stream_worker_rounds show_err ops reset workerID n (client, 0, []))"

text \<open>\<open>worker_panic\<close>: the first panic of a worker, if any has one; it ends the program.\<close>

definition stream_runClient :: "'e go_panic option \<Rightarrow> 'a example_options_scheme \<Rightarrow> 'e program" where
  "stream_runClient worker_panic opts =
     (case (await_endless_workers (eo_numThreads opts), worker_panic) of
        (Blocks, Some p) \<Rightarrow> Panics p
      | (r, _) \<Rightarrow> r)"

section \<open>Partitions\<close>

datatype partition_server =
    LookupServer "(fixed, lookup) default_limiter"
  | PredicateServer "(fixed, predicate_strategy) default_limiter"

text \<open>Any strategy type but \<open>predicate\<close> is taken for \<open>lookup\<close>; \<open>names\<close> is the iteration order of the map of partitions.\<close>

definition partition_runServer ::
    "('e, partition_server, 'conn) network \<Rightarrow> string list \<Rightarrow> int \<Rightarrow> 'a partition_options_scheme \<Rightarrow> 'e program" where
  "partition_runServer net names now opts =
     (case net_Listen net ('':'' @ show_int (eo_port opts)) of
        Some err \<Rightarrow> Panics (PanicError err)
      | None \<Rightarrow>
          (case (if eo_strategyType opts = ''predicate'' then map_option PredicateServer (newPredicateLimiter now)
                 else map_option LookupServer (newLookupLimiter now names)) of
             None \<Rightarrow> Panics PanicLimiter
           | Some interceptor \<Rightarrow>
               (case net_Serve net interceptor of
                  None \<Rightarrow> Blocks
                | Some None \<Rightarrow> Ends
                | Some (Some err) \<Rightarrow> Panics (PanicError err))))"

definition partition_main :: "'e program \<Rightarrow> 'e program \<Rightarrow> 'a example_options_scheme \<Rightarrow> 'e program" where
  "partition_main runServer runClient opts =
     (if eo_mode opts = ''server'' then runServer
      else if eo_mode opts = ''client'' then runClient
      else Panics (PanicText (''invalid mode: '' @ quoted (eo_mode opts))))"

text \<open>A worker of the client sends five messages, logs what came of each, and calls \<open>Done\<close> once.\<close>

definition client_message :: "nat \<Rightarrow> string" where
  "client_message j = (if j mod 3 = 0 then ''slow'' else ''fast'')"

definition client_line :: "('e \<Rightarrow> string) \<Rightarrow> int \<Rightarrow> nat \<Rightarrow> 'e + string \<Rightarrow> string" where
  "client_line show_err worker j r =
     ''[worker '' @ show_int worker @ '' req '' @ show_nat j @ ''] '' @
       (case r of Inl err \<Rightarrow> ''error: '' @ show_err err | Inr m \<Rightarrow> ''ok: '' @ m)"

definition client_worker :: "('e \<Rightarrow> string) \<Rightarrow> (nat \<Rightarrow> string \<Rightarrow> 'e + string) \<Rightarrow> int \<Rightarrow> string list" where
  "client_worker show_err call worker = map (\<lambda>j. client_line show_err worker j (call j (client_message j))) [0 ..< 5]"

text \<open>The wait group after \<open>k\<close> workers have ended.\<close>

primrec client_workers_done :: "nat \<Rightarrow> int \<Rightarrow> int option" where
  "client_workers_done 0 wg = Some wg"
| "client_workers_done (Suc k) wg = Option.bind (client_workers_done k wg) wg_Done"

definition partition_runClient :: "('e, 'srv, 'conn) network \<Rightarrow> 'a example_options_scheme \<Rightarrow> nat \<Rightarrow> 'e program" where
  "partition_runClient net opts k =
     (case net_Dial net (''localhost:'' @ show_int (eo_port opts)) of
        Inl err \<Rightarrow> Panics (PanicError err)
      | Inr conn \<Rightarrow>
          (case Option.bind (wg_Add (eo_numThreads opts) 0) (client_workers_done k) of
             None \<Rightarrow> Panics PanicWaitGroup
           | Some wg \<Rightarrow> (if wg = 0 then Ends else Blocks)))"

section \<open>What the programs do\<close>

text \<open>The messages of the clients tell the worker and its query.\<close>

lemma hello_message_eq: "hello_message i w = hello_message j v \<longleftrightarrow> i = j \<and> w = v"
  by (auto simp: hello_message_def)

text \<open>Every number is tried once, also after an error: a query that failed is not repeated.\<close>

lemma stream_worker_numbers:
  assumes "stream_worker_rounds show_err ops reset workerID n (c, 0, []) = Inr (c', j, lines)" and "n < 2 ^ 63"
  shows "j = int n \<and> length lines = n \<and> (\<forall>i < n. \<exists>r. lines ! i = query_line show_err workerID (int i) r)"
  using assms
proof (induction n arbitrary: c' j lines)
  case (Suc n)
  then obtain c1 j1 lines1 where run: "stream_worker_rounds show_err ops reset workerID n (c, 0, []) = Inr (c1, j1, lines1)"
    and last_round: "stream_worker_round show_err ops reset workerID (c1, j1, lines1) = Inr (c', j, lines)"
    by (auto split: sum.splits)
  have IH: "j1 = int n" "length lines1 = n" "\<forall>i < n. \<exists>r. lines1 ! i = query_line show_err workerID (int i) r"
    using Suc.IH [OF run] Suc.prems(2) by simp_all
  have id: "i64 (int n + 1) = int n + 1" using Suc.prems(2) by (intro i64_id) (simp add: in_i64_def)
  obtain r where "lines = lines1 @ [query_line show_err workerID j1 r]" and "j = i64 (j1 + 1)"
    using last_round by (auto simp: stream_worker_round_def stream_queryServer_def split: option.splits sum.splits prod.splits)
  then show ?case using IH id by (auto simp: nth_append less_Suc_eq)
qed simp

text \<open>
  When serving fails, the programs for unary calls and streams lose the error: they panic with nil; the one for partitions panics with the error.
\<close>

theorem serve_errors:
  assumes "\<And>addr. net_Listen net addr = None" and "\<And>addr. net_Listen net' addr = None"
    and "\<And>srv. net_Serve net srv = Some (Some err)" and "\<And>srv. net_Serve net' srv = Some (Some err)"
    and "unary_server_limiter now = Some l"
    and "newPredicateLimiter now = Some l'" and "eo_strategyType opts' = ''predicate''"
  shows "unary_runServer net env now opts = Panics PanicNil \<and> partition_runServer net' names now opts' = Panics (PanicError err)"
  using assms by (simp add: unary_runServer_def partition_runServer_def)

text \<open>With the default options the clients of the first two programs never end, and the one for partitions ends when its workers have.\<close>

lemma client_workers_done_count: "int k \<le> wg \<Longrightarrow> client_workers_done k wg = Some (wg - int k)"
  by (induction k) (simp_all add: wg_Done_def wg_Add_def)

theorem clients_end:
  assumes "net_Dial net (''localhost:'' @ show_int (eo_port opts)) = Inr conn" and "0 < eo_numThreads opts"
    and "int k \<le> eo_numThreads opts"
  shows "unary_runClient net opts = Blocks \<and> (partition_runClient net opts k = Ends \<longleftrightarrow> int k = eo_numThreads opts)"
  using assms client_workers_done_count [OF assms(3)]
  by (auto simp: unary_runClient_def await_endless_workers_def partition_runClient_def wg_Add_def)

text \<open>Two of the five messages of a worker are slow ones, for which three of the ten slots are reserved.\<close>

lemma client_messages: "map client_message [0 ..< 5] = [''slow'', ''fast'', ''fast'', ''slow'', ''fast'']"
  by (simp add: client_message_def upt_rec)

end
