(* ===== verification/Limit_Vegas_Control.thy ===== *)
theory Limit_Vegas_Control
  imports Limit_Vegas
begin

text \<open>
  The control loop of the Vegas limit (\<open>limit/vegas.go\<close>) in front of a saturated resource: the queue size it computes in
  floating point is the number of requests that wait, up to one; with its default functions it moves like a loop on
  integers, which comes to rest where the queue size is between three and six logarithms of the limit, and climbs on after each probe.
\<close>

section \<open>The queue size\<close>

lemma rnd_error_pow2:
  assumes "\<bar>x\<bar> < 2 powi (k + 53)" and "- 1074 \<le> k"
  shows "\<bar>rnd x - x\<bar> \<le> 2 powi (k - 1)"
proof (cases "x = 0")
  case False
  have "quantum_exp x \<le> k" by (rule quantum_exp_le [OF False assms])
  then have "(2::real) powi (quantum_exp x - 1) \<le> 2 powi (k - 1)" by (intro power_int_increasing) simp_all
  then show ?thesis using rnd_error [of x] by linarith
qed simp

lemma rnd_error_unit:
  assumes "\<bar>x\<bar> < 2"
  shows "\<bar>rnd x - x\<bar> \<le> 1 / 2 ^ 20"
proof -
  have "\<bar>rnd x - x\<bar> \<le> 2 powi (- 52 - 1)" by (rule rnd_error_pow2) (use assms in \<open>simp_all add: power_int_def\<close>)
  also have "\<dots> \<le> 2 powi (- 20)" by (rule power_int_increasing) simp_all
  also have "\<dots> = 1 / 2 ^ 20" by (simp only: power_int_minus power_int_numeral divide_inverse mult_1)
  finally show ?thesis .
qed

lemma rnd_error_1024:
  assumes "\<bar>x\<bar> < 2 ^ 11"
  shows "\<bar>rnd x - x\<bar> \<le> 1 / 4"
proof -
  have "\<bar>rnd x - x\<bar> \<le> 2 powi (- 42 - 1)" by (rule rnd_error_pow2) (use assms in \<open>simp_all add: power_int_def\<close>)
  also have "\<dots> \<le> 2 powi (- 2)" by (rule power_int_increasing) simp_all
  also have "\<dots> = 1 / 2 ^ 2" by (simp only: power_int_minus power_int_numeral divide_inverse mult_1)
  finally show ?thesis by simp
qed

text \<open>
  With \<open>L\<close> requests at a resource that serves \<open>C\<close> of them at once in \<open>m * C\<close> nanoseconds, a request takes
  \<open>m * max C L\<close>, and \<open>L - C\<close> of them wait.
\<close>

lemma queue_estimate:
  assumes "1 \<le> L" and "L \<le> 1000" and "1 \<le> C" and "1 \<le> m" and "m * max C L \<le> 2 ^ 53"
    and "meas_Get (vg_rttNoLoad l) = Fin (of_int (m * C))" and "vg_estimatedLimit l = Fin (of_int L)"
  shows "L \<le> C \<Longrightarrow> vegas_queueSize (m * max C L) l = 0"
    and "C < L \<Longrightarrow> L - C \<le> vegas_queueSize (m * max C L) l \<and> vegas_queueSize (m * max C L) l \<le> L - C + 1"
proof -
  let ?r = "m * max C L"
  have "0 < ?r" using assms(3,4) by (simp add: zero_less_mult_iff less_max_iff_disj)
  then have r: "f64 ?r = Fin (of_int ?r)" using assms(5) by (intro f64_exact) simp
  have r0: "(of_int ?r :: real) \<noteq> 0" using \<open>0 < ?r\<close> by (simp only: of_int_eq_0_iff)
  have q: "vegas_queueSize ?r l = f2i (fceil (fmul (Fin (of_int L)) (fsub (Fin 1) (mk (of_int (m * C) / of_int ?r)))))"
    using assms(6,7) r r0 by (simp add: vegas_queueSize_def del: of_int_mult)
  show "vegas_queueSize ?r l = 0" if "L \<le> C"
  proof -
    have one: "(of_int (m * C) :: real) / of_int ?r = 1" using r0 that by (simp add: max_def)
    show ?thesis unfolding q one by (simp add: in_i64_def trunc_def)
  qed
  assume CL: "C < L"
  define x :: real where "x = of_int C / of_int L"
  have x: "of_int (m * C) / of_int ?r = x" using CL assms(4) by (simp add: x_def max_def)
  have x01: "0 \<le> x" "x < 1" using CL assms(3) by (simp_all add: x_def)
  have Lx: "of_int L * (1 - x) = of_int (L - C)" using assms(1) by (simp add: x_def algebra_simps)
  have d: "\<bar>rnd x - x\<bar> \<le> 1 / 2 ^ 20" "0 \<le> rnd x" "rnd x \<le> 1"
    using x01 rnd_error_unit [of x] rnd_nonneg [of x] rnd_le [of 1 x] representable_of_int [of 1] by simp_all
  have s: "\<bar>rnd (1 - rnd x) - (1 - rnd x)\<bar> \<le> 1 / 2 ^ 20" "0 \<le> rnd (1 - rnd x)" "rnd (1 - rnd x) \<le> 1"
    using d(2,3) rnd_error_unit [of "1 - rnd x"] rnd_nonneg [of "1 - rnd x"] rnd_le [of 1 "1 - rnd x"] representable_of_int [of 1]
    by simp_all
  let ?s = "rnd (1 - rnd x)"
  have Lr: "0 \<le> (of_int L :: real)" "(of_int L :: real) \<le> 1000" using assms(1,2) by simp_all
  have Ls: "0 \<le> of_int L * ?s" "of_int L * ?s \<le> 1000"
    using mult_mono [of "of_int L" 1000 ?s 1] Lr s(2,3) by simp_all
  have mks: "mk x = Fin (rnd x)" "mk (1 - rnd x) = Fin ?s" "mk (of_int L * ?s) = Fin (rnd (of_int L * ?s))"
    using x01 d(2,3) Ls by (auto intro!: mk_le_pow2 [of _ 10])
  have p: "\<bar>rnd (of_int L * ?s) - of_int L * ?s\<bar> \<le> 1 / 4" using Ls by (intro rnd_error_1024) simp
  have "\<bar>?s - (1 - x)\<bar> \<le> 2 / 2 ^ 20" using d(1) s(1) by linarith
  then have "of_int L * \<bar>?s - (1 - x)\<bar> \<le> 1000 * (2 / 2 ^ 20)" using Lr by (intro mult_mono) simp_all
  moreover have quarter: "1000 * (2 / 2 ^ 20) \<le> (1 / 4 :: real)" by simp
  moreover have "\<bar>of_int L * ?s - of_int (L - C)\<bar> = of_int L * \<bar>?s - (1 - x)\<bar>"
    unfolding Lx [symmetric] right_diff_distrib [symmetric] using Lr by (simp only: abs_mult abs_of_nonneg)
  ultimately have near: "\<bar>rnd (of_int L * ?s) - of_int (L - C)\<bar> \<le> 1 / 2" using p quarter by linarith
  have ceil: "k \<le> \<lceil>z\<rceil> \<and> \<lceil>z\<rceil> \<le> k + 1" if "\<bar>z - of_int k\<bar> \<le> 1 / 2" for z :: real and k
  proof -
    have "z - of_int k \<le> 1 / 2" and "of_int k - z \<le> 1 / 2" using that by (simp_all only: abs_le_iff minus_diff_eq)
    then show ?thesis by (simp add: le_ceiling_iff ceiling_le_iff)
  qed
  have c: "L - C \<le> \<lceil>rnd (of_int L * ?s)\<rceil>" "\<lceil>rnd (of_int L * ?s)\<rceil> \<le> L - C + 1"
    using ceil [OF near] by simp_all
  have "in_i64 z" if "L - C \<le> z" "z \<le> L - C + 1" for z using that assms(2,3) CL by (simp add: in_i64_def)
  then have "f2i (Fin (of_int \<lceil>rnd (of_int L * ?s)\<rceil>)) = \<lceil>rnd (of_int L * ?s)\<rceil>" using c by (intro f2i_of_int)
  then have "vegas_queueSize ?r l = \<lceil>rnd (of_int L * ?s)\<rceil>"
    unfolding q x by (simp add: mks del: f2i.simps)
  then show "L - C \<le> vegas_queueSize ?r l \<and> vegas_queueSize ?r l \<le> L - C + 1" using c by simp
qed

section \<open>The loop on integers\<close>

text \<open>
  One update: \<open>g\<close> is the step that depends on the limit, \<open>Q\<close> the queue size. Below one step the limit makes six steps up,
  below three one step up, above six one step down.
\<close>

definition control_step :: "(int \<Rightarrow> int) \<Rightarrow> (int \<Rightarrow> int) \<Rightarrow> int \<Rightarrow> int" where
  "control_step g Q L =
     (if Q L < g L then L + 6 * g L else if Q L < 3 * g L then L + g L else if 6 * g L < Q L then L - g L else L)"

definition control_ok :: "int \<Rightarrow> (int \<Rightarrow> int) \<Rightarrow> (int \<Rightarrow> int) \<Rightarrow> bool" where
  "control_ok C g Q \<longleftrightarrow>
     (\<forall>L. 1 \<le> L \<and> L < 1000 \<longrightarrow> 1 \<le> g L \<and> g L \<le> 16 \<and> (L \<le> C \<longrightarrow> Q L = 0) \<and> (C < L \<longrightarrow> L - C \<le> Q L \<and> Q L \<le> L - C + 1))
     \<and> (\<forall>L L'. 1 \<le> L \<and> L \<le> L' \<and> L' < 1000 \<longrightarrow> g L \<le> g L')"

lemma control_okD:
  assumes "control_ok C g Q" and "1 \<le> L" and "L < 1000"
  shows "1 \<le> g L" "g L \<le> 16" "L \<le> C \<Longrightarrow> Q L = 0" "C < L \<Longrightarrow> L - C \<le> Q L" "C < L \<Longrightarrow> Q L \<le> L - C + 1"
  using assms by (auto simp: control_ok_def)

lemma control_mono: "control_ok C g Q \<Longrightarrow> 1 \<le> L \<Longrightarrow> L \<le> L' \<Longrightarrow> L' < 1000 \<Longrightarrow> g L \<le> g L'"
  by (simp add: control_ok_def)

definition at_rest :: "(int \<Rightarrow> int) \<Rightarrow> (int \<Rightarrow> int) \<Rightarrow> int \<Rightarrow> bool" where
  "at_rest g Q L \<longleftrightarrow> 3 * g L \<le> Q L \<and> Q L \<le> 6 * g L"

text \<open>From below the limit rises, six at a time up to the capacity; it overshoots by less than seven steps, and then one step down is enough.\<close>

lemma control_up:
  assumes "control_ok C g Q" and "1 \<le> L" and "L \<le> C + 112" and "C \<le> 800" and "1 \<le> C" and "Q L < 3 * g L"
  shows "L + 1 \<le> control_step g Q L" and "L \<le> C \<Longrightarrow> L + 6 \<le> control_step g Q L"
    and "control_step g Q L \<le> C + 7 * g L - 1" and "L \<le> C + 3 * g L - 1" and "g L \<le> 16"
proof -
  note g = control_okD [OF assms(1,2)]
  have L: "L < 1000" using assms(3,4) by simp
  have d: "L - C \<le> max 0 (Q L)" using g(3,4) [OF L] by (cases "L \<le> C") auto
  show "g L \<le> 16" using g(2) [OF L] .
  show "L + 1 \<le> control_step g Q L" and "L \<le> C \<Longrightarrow> L + 6 \<le> control_step g Q L"
    using g(1,3) [OF L] assms(6) by (auto simp: control_step_def)
  show "control_step g Q L \<le> C + 7 * g L - 1" and "L \<le> C + 3 * g L - 1"
    using d g(1) [OF L] assms(6) by (auto simp: control_step_def max_def split: if_splits)
qed

lemma control_rest: "1 \<le> g L \<Longrightarrow> at_rest g Q L \<Longrightarrow> control_step g Q L = L"
  by (auto simp: control_step_def at_rest_def)

lemma control_down:
  assumes "control_ok C g Q" and "1 \<le> L" and "L \<le> C + 112" and "C \<le> 800" and "1 \<le> C" and "Q L < 3 * g L"
    and "L' = control_step g Q L" and "6 * g L' < Q L'"
  shows "at_rest g Q (control_step g Q L')" and "L < control_step g Q L'" and "control_step g Q L' \<le> L'"
proof -
  note up = control_up [OF assms(1-6), folded assms(7)]
  have L': "1 \<le> L'" "L' < 1000" "L \<le> L'" using up assms(2,4) by simp_all
  note g = control_okD [OF assms(1) L'(1,2)]
  have gL: "1 \<le> g L" "g L \<le> g L'"
    using control_okD(1) [OF assms(1,2)] control_mono [OF assms(1,2) L'(3,2)] assms(3,4) by simp_all
  have "C < L'" using g(1,3) assms(8) by (cases "L' \<le> C") auto
  then have d: "6 * g L' \<le> L' - C" using g(5) assms(8) by simp
  have eq: "control_step g Q L' = L' - g L'" using g(1) assms(8) by (simp add: control_step_def)
  have low: "C < control_step g Q L'" using eq d g(1) by simp
  show less: "L < control_step g Q L'" using eq d up(4) gL g(1) by simp
  show le: "control_step g Q L' \<le> L'" using eq g(1) by simp
  have r: "1 \<le> control_step g Q L'" "control_step g Q L' < 1000" using low assms(5) le L'(2) by simp_all
  note h = control_okD [OF assms(1) r]
  have "g (control_step g Q L') \<le> g L'" using control_mono [OF assms(1) r(1) le L'(2)] .
  moreover have "g L \<le> g (control_step g Q L')" using control_mono [OF assms(1,2) less_imp_le [OF less] r(2)] .
  ultimately show "at_rest g Q (control_step g Q L')"
    using h(1,4,5) low eq d up(3) gL(2) by (simp add: at_rest_def)
qed

text \<open>How many updates upwards there can be.\<close>

definition climb_rank :: "int \<Rightarrow> int \<Rightarrow> int" where
  "climb_rank C L = (if L \<le> C then (C - L) div 6 + 48 else C + 48 - L)"

lemma climb_rank_less:
  assumes "L < L'" and "L \<le> C \<Longrightarrow> L + 6 \<le> L'"
  shows "climb_rank C L' < climb_rank C L"
proof -
  have "(C - L') div 6 < (C - L) div 6" if "L + 6 \<le> L'" using that by presburger
  moreover have "0 \<le> (C - L) div 6" if "L \<le> C" using that by (simp add: pos_imp_zdiv_nonneg_iff)
  ultimately show ?thesis using assms by (auto simp: climb_rank_def)
qed

lemma control_climbs:
  assumes "control_ok C g Q" and "1 \<le> n" and "n \<le> C" and "C \<le> 800"
    and "\<forall>j<k. Q ((control_step g Q ^^ j) n) < 3 * g ((control_step g Q ^^ j) n)"
  shows "n + int k \<le> (control_step g Q ^^ k) n \<and> (control_step g Q ^^ k) n \<le> C + 112
    \<and> int k + climb_rank C ((control_step g Q ^^ k) n) \<le> climb_rank C n"
  using assms(5)
proof (induction k)
  case 0
  then show ?case using assms(3) by simp
next
  case (Suc k)
  let ?L = "(control_step g Q ^^ k) n"
  have L: "1 \<le> ?L" "?L \<le> C + 112" "1 \<le> C" "Q ?L < 3 * g ?L" using Suc assms(2,3) by simp_all
  note up = control_up [OF assms(1) L(1,2) assms(4) L(3,4)]
  have "climb_rank C (control_step g Q ?L) < climb_rank C ?L"
    using up(1,2) by (intro climb_rank_less) simp_all
  then show ?case using up(1,3,5) Suc by simp
qed

text \<open>
  The loop reaches the rest after at most one update for six of the missing requests and 49 more, and after no more updates than the
  limit grows by, and one more.
\<close>

lemma control_settles:
  assumes "control_ok C g Q" and "1 \<le> n" and "n \<le> C" and "C \<le> 800"
  obtains L K where "\<forall>k. K \<le> k \<longrightarrow> (control_step g Q ^^ k) n = L" and "at_rest g Q L" and "1 \<le> L" and "L \<le> C + 112"
    and "int K \<le> (C - n) div 6 + 49" and "int K \<le> L - n + 1"
    and "\<forall>j. j < K \<longrightarrow> n + int j \<le> (control_step g Q ^^ j) n \<and> (control_step g Q ^^ j) n \<le> C + 112"
proof -
  let ?f = "control_step g Q"
  let ?up = "\<lambda>j. Q ((?f ^^ j) n) < 3 * g ((?f ^^ j) n)"
  note climb = control_climbs [OF assms]
  have C: "1 \<le> C" using assms(2,3) by simp
  have rank: "int (Suc j) \<le> climb_rank C n" if "\<forall>i<Suc j. ?up i" for j
  proof -
    let ?L = "(?f ^^ j) n"
    have c: "n + int j \<le> ?L" "?L \<le> C + 112" "int j + climb_rank C ?L \<le> climb_rank C n" using climb [of j] that by simp_all
    then have "1 \<le> ?L" "?up j" using assms(2) that by simp_all
    note up = control_up [OF assms(1) this(1) c(2) assms(4) C this(2)]
    have "0 \<le> (C - ?L) div 6" if "?L \<le> C" using that by (simp add: pos_imp_zdiv_nonneg_iff)
    then have "1 \<le> climb_rank C ?L" using up(4,5) by (auto simp: climb_rank_def)
    then show ?thesis using c(3) by simp
  qed
  have n_rank: "climb_rank C n = (C - n) div 6 + 48" using assms(3) by (simp add: climb_rank_def)
  have ex: "\<exists>j. \<not> ?up j"
  proof (rule ccontr)
    assume "\<nexists>j. \<not> ?up j"
    then have "int (Suc (nat (climb_rank C n))) \<le> climb_rank C n" by (intro rank) blast
    then show False by linarith
  qed
  define m where "m = (LEAST j. \<not> ?up j)"
  have m: "\<not> ?up m" "\<And>j. j < m \<Longrightarrow> ?up j" unfolding m_def using LeastI_ex [OF ex] not_less_Least by blast+
  have "?up 0" using control_okD(1,3) [OF assms(1,2)] assms(3,4) by simp
  then obtain p where p: "m = Suc p" using m(1) by (cases m) auto
  let ?P = "(?f ^^ p) n" and ?M = "(?f ^^ m) n"
  have P: "n + int p \<le> ?P" "?P \<le> C + 112" "?up p" using climb [of p] m(2) p by simp_all
  have M: "n + int m \<le> ?M" "?M \<le> C + 112" using climb [of m] m(2) by simp_all
  have m_le: "int m \<le> (C - n) div 6 + 48" using rank [of p] m(2) p n_rank by simp
  have low: "n + int j \<le> (?f ^^ j) n \<and> (?f ^^ j) n \<le> C + 112" if "j \<le> m" for j using climb [of j] m(2) that by simp
  have fixed_point: "(?f ^^ k) n = L" if "(?f ^^ K) n = L" "at_rest g Q L" "1 \<le> L" "L \<le> C + 112" "K \<le> k" for k K L
  proof -
    have "?f L = L" using control_rest [OF control_okD(1) [OF assms(1) that(3)] that(2)] that(4) assms(4) by simp
    then have "(?f ^^ j) L = L" for j by (induction j) simp_all
    moreover have "(?f ^^ k) n = (?f ^^ (k - K)) ((?f ^^ K) n)" using that(5) by (simp flip: funpow_add o_apply [of "?f ^^ (k - K)"])
    ultimately show ?thesis using that(1) by simp
  qed
  consider (rest) "at_rest g Q ?M" | (down) "6 * g ?M < Q ?M" using m(1) by (cases "6 * g ?M < Q ?M") (simp_all add: at_rest_def)
  then show thesis
  proof cases
    case rest
    have M1: "1 \<le> ?M" using M(1) assms(2) by simp
    have "\<forall>k. m \<le> k \<longrightarrow> (?f ^^ k) n = ?M" using fixed_point [OF refl rest M1 M(2)] by blast
    moreover have "\<forall>j. j < m \<longrightarrow> n + int j \<le> (?f ^^ j) n \<and> (?f ^^ j) n \<le> C + 112" using low by simp
    moreover have "int m \<le> (C - n) div 6 + 49" "int m \<le> ?M - n + 1" using m_le M(1) by simp_all
    ultimately show thesis using that [OF _ rest M1 M(2)] by blast
  next
    case down
    have P1: "1 \<le> ?P" using P(1) assms(2) by simp
    have "?M = ?f ?P" using p by simp
    note d = control_down [OF assms(1) P1 P(2) assms(4) C P(3) this down]
    have D: "1 \<le> ?f ?M" "?f ?M \<le> C + 112" using d(2,3) P1 M(2) by simp_all
    have "(?f ^^ Suc m) n = ?f ?M" by simp
    then have "\<forall>k. Suc m \<le> k \<longrightarrow> (?f ^^ k) n = ?f ?M" using fixed_point [OF _ d(1) D] by blast
    moreover have "\<forall>j. j < Suc m \<longrightarrow> n + int j \<le> (?f ^^ j) n \<and> (?f ^^ j) n \<le> C + 112" using low by simp
    moreover have "int (Suc m) \<le> (C - n) div 6 + 49" "int (Suc m) \<le> ?f ?M - n + 1" using m_le d(2) P(1) p by simp_all
    ultimately show thesis using that [OF _ d(1) D] by blast
  qed
qed

section \<open>The limit is the loop\<close>

text \<open>What the argument needs of \<open>math.Log10\<close> besides its range: it does not decrease.\<close>

definition Log10_mono :: "(float64 \<Rightarrow> float64) \<Rightarrow> bool" where
  "Log10_mono Log10 \<longleftrightarrow>
     (\<forall>x y. representable x \<and> representable y \<and> 1 \<le> x \<and> x \<le> y \<and> y \<le> 2 ^ 53 \<longrightarrow> fle (Log10 (Fin x)) (Log10 (Fin y)))"

lemma Log10_rounded_mono: "Log10_mono Log10_rounded"
proof -
  have "fle (Log10_rounded (Fin x)) (Log10_rounded (Fin y))" if "1 \<le> x" "x \<le> y" "y \<le> 2 ^ 53" for x y
  proof -
    have "log 10 z \<le> 16 \<and> 0 \<le> log 10 z" if "1 \<le> z" "z \<le> 2 ^ 53" for z :: real
    proof -
      have "log 10 z \<le> log 10 (10 ^ 16)" using that by (subst log_le_cancel_iff) simp_all
      moreover have "log 10 (10 ^ 16) = (16 :: real)" by (subst log_nat_power) simp_all
      ultimately have "log 10 z \<le> 16" by (simp only:)
      then show ?thesis using that by (simp add: zero_le_log_cancel_iff)
    qed
    then have "mk (log 10 z) = Fin (rnd (log 10 z))" if "1 \<le> z" "z \<le> 2 ^ 53" for z :: real
      using that by (intro mk_le_pow2 [of _ 4]) simp_all
    moreover have "log 10 x \<le> log 10 y" using that by simp
    ultimately show ?thesis using that by (simp add: rnd_mono)
  qed
  then show ?thesis by (simp add: Log10_mono_def)
qed

text \<open>The entry of the table at a limit.\<close>

definition table_at :: "int list \<Rightarrow> int \<Rightarrow> int" where
  "table_at table L = (case index table L of Some v \<Rightarrow> v | None \<Rightarrow> 0)"

lemma table_at_log10:
  assumes "Log10_ok Log10" and "1 \<le> L" and "L < 1000"
  shows "index (log10RootLookup Log10 env) L = Some (table_at (log10RootLookup Log10 env) L)"
    and "table_at (log10RootLookup Log10 env) L = max 1 (f2i (Log10 (f64 L)))"
    and "1 \<le> table_at (log10RootLookup Log10 env) L" and "table_at (log10RootLookup Log10 env) L \<le> 16"
proof -
  have L: "1 \<le> L" "L \<le> 2 ^ 52" "L < table_size env" using assms(2,3) table_size_ge [of env] by simp_all
  obtain u where u: "f2i (Log10 (f64 L)) = u" "0 \<le> u" "u \<le> 16" "index (log10RootLookup Log10 env) L = Some (max 1 u)"
    using Log10_index [OF assms(1) L(1,2), of env] L(3) by metis
  then show "index (log10RootLookup Log10 env) L = Some (table_at (log10RootLookup Log10 env) L)"
    and "table_at (log10RootLookup Log10 env) L = max 1 (f2i (Log10 (f64 L)))"
    and "1 \<le> table_at (log10RootLookup Log10 env) L" and "table_at (log10RootLookup Log10 env) L \<le> 16"
    by (simp_all add: table_at_def)
qed

lemma table_at_mono:
  assumes "Log10_ok Log10" and "Log10_mono Log10" and "1 \<le> L" and "L \<le> L'" and "L' < 1000"
  shows "table_at (log10RootLookup Log10 env) L \<le> table_at (log10RootLookup Log10 env) L'"
proof -
  have f: "f64 L = Fin (of_int L)" "f64 L' = Fin (of_int L')" using assms(3-5) by (simp_all add: f64_exact)
  have r: "representable (of_int L)" "representable (of_int L')" using assms(3-5) by (simp_all add: representable_of_int)
  have le: "(of_int L' :: real) \<le> 2 ^ 53" "1 \<le> (of_int L :: real)" "(of_int L :: real) \<le> of_int L'" using assms(3-5) by simp_all
  obtain x where x: "Log10 (Fin (of_int L)) = Fin x" "0 \<le> x" "x \<le> 16" using assms(1) r(1) le by (auto simp: Log10_ok_def)
  obtain y where y: "Log10 (Fin (of_int L')) = Fin y" "0 \<le> y" "y \<le> 16" using assms(1) r(2) le by (auto simp: Log10_ok_def)
  have "x \<le> y" using assms(2) r le x(1) y(1) by (fastforce simp: Log10_mono_def)
  then have "trunc x \<le> trunc y" "in_i64 (trunc x)" "in_i64 (trunc y)"
    using trunc_mono [of x y] trunc_mono [of 0 x] trunc_mono [of x 16] trunc_mono [of 0 y] trunc_mono [of y 16]
      trunc_of_int [of 0] trunc_of_int [of 16] x(2,3) y(2,3) by (simp_all add: in_i64_def)
  then show ?thesis
    using table_at_log10(2) [OF assms(1), of L env] table_at_log10(2) [OF assms(1), of L' env] assms(3-5) f x(1) y(1)
    by (simp add: max.coboundedI2)
qed

definition queue_of :: "int \<Rightarrow> int \<Rightarrow> int \<Rightarrow> int" where
  "queue_of m C L =
     f2i (fceil (fmul (Fin (of_int L)) (fsub (lit 1) (fdiv (Fin (of_int (m * C))) (f64 (m * max C L))))))"

lemma vegas_control_ok:
  assumes "Log10_ok Log10" and "Log10_mono Log10" and "1 \<le> C" and "C \<le> 800" and "1 \<le> m" and "m * 1000 \<le> 2 ^ 53"
  shows "control_ok C (table_at (log10RootLookup Log10 env)) (queue_of m C)"
proof -
  have q: "(L \<le> C \<longrightarrow> queue_of m C L = 0) \<and> (C < L \<longrightarrow> L - C \<le> queue_of m C L \<and> queue_of m C L \<le> L - C + 1)"
    if L: "1 \<le> L" "L < 1000" for L
  proof -
    have "m * max C L \<le> m * 1000" using L assms(4,5) by (intro mult_left_mono) simp_all
    then have le: "m * max C L \<le> 2 ^ 53" using assms(6) by linarith
    let ?l = "undefined \<lparr>vg_rttNoLoad := Single \<lparr>sg_value = Fin (of_int (m * C))\<rparr>, vg_estimatedLimit := Fin (of_int L)\<rparr>"
    have l: "meas_Get (vg_rttNoLoad ?l) = Fin (of_int (m * C))" "vg_estimatedLimit ?l = Fin (of_int L)"
      by (simp_all add: single_Get_def)
    have e: "vegas_queueSize (m * max C L) ?l = queue_of m C L" unfolding vegas_queueSize_def queue_of_def l ..
    have "L \<le> 1000" using L(2) by simp
    from queue_estimate [OF L(1) this assms(3,5) le l, unfolded e] show ?thesis by simp
  qed
  show ?thesis unfolding control_ok_def
    using q table_at_log10(3,4) [OF assms(1)] table_at_mono [OF assms(1,2)] by blast
qed

text \<open>
  The limit in front of the saturated resource: as many requests are in flight as it allows. \<open>rds\<close> are the random
  numbers of the samples.
\<close>

primrec vegas_saturated :: "(nat \<Rightarrow> rand) \<Rightarrow> int \<Rightarrow> int \<Rightarrow> nat \<Rightarrow> vegas \<Rightarrow> vegas option" where
  "vegas_saturated rds m C 0 l = Some l"
| "vegas_saturated rds m C (Suc k) l =
     (case vegas_saturated rds m C k l of
        None \<Rightarrow> None
      | Some l \<Rightarrow> (let L = vegas_EstimatedLimit l
                   in map_option fst (vegas_OnSample (rds k) 0 (m * max C L) L False l)))"

text \<open>The state between the samples; \<open>base\<close> is the value of the measured minimum.\<close>

definition vegas_at :: "(float64 \<Rightarrow> float64) \<Rightarrow> int list \<Rightarrow> int \<Rightarrow> int \<Rightarrow> int \<Rightarrow> vegas \<Rightarrow> bool" where
  "vegas_at Log10 table base L count l \<longleftrightarrow>
     vg_estimatedLimit l = Fin (of_int L) \<and> vg_maxLimit l = 1000 \<and> vg_smoothing l = Fin 1
     \<and> vg_alphaFunc l = (\<lambda>l. map_option (\<lambda>v. i64 (3 * v)) (Log10RootFunction Log10 table 0 l))
     \<and> vg_betaFunc l = (\<lambda>l. map_option (\<lambda>v. i64 (6 * v)) (Log10RootFunction Log10 table 0 l))
     \<and> vg_thresholdFunc l = Log10RootFunction Log10 table 0
     \<and> vg_increaseFunc l = (\<lambda>l. map_option (fadd l) (Log10RootFloatFunction Log10 table (Fin 0) l))
     \<and> vg_decreaseFunc l = (\<lambda>l. map_option (fsub l) (Log10RootFloatFunction Log10 table (Fin 0) l))
     \<and> vg_probeMultipler l = 30 \<and> (\<exists>j. vg_probeJitter l = Fin j \<and> 1 / 2 \<le> j \<and> j \<le> 1)
     \<and> vg_probeCount l = count \<and> vg_rttNoLoad l = Minimum \<lparr>mn_value = Fin (of_int base)\<rparr>"

lemma small_floats:
  assumes "0 \<le> n" and "n \<le> 2000"
  shows "mk (of_int n) = Fin (of_int n)" and "f2i (Fin (of_int n)) = n" and "f64 n = Fin (of_int n)" and "is_float (Fin (of_int n))"
proof -
  show mk: "mk (of_int n) = Fin (of_int n)" using assms by (intro mk_of_int) simp
  show "f2i (Fin (of_int n)) = n" using assms by (intro f2i_of_int in_i64_nonneg) simp_all
  show "f64 n = Fin (of_int n)" using assms by (intro f64_exact) simp
  show "is_float (Fin (of_int n))" using is_float_mk [of "of_int n"] mk by simp
qed

text \<open>The limit does not probe while fewer samples have passed than fifteen times its value.\<close>

lemma vegas_no_probe:
  assumes "vegas_at Log10 table base L count l" and "1 \<le> L" and "L \<le> 1000" and "count < 15 * L"
  shows "\<not> vegas_shouldProbe l"
proof -
  obtain j where j: "vg_probeJitter l = Fin j" "1 / 2 \<le> j" "j \<le> 1" using assms(1) by (auto simp: vegas_at_def)
  have a: "15 \<le> rnd (j * 30)" "rnd (j * 30) \<le> 30"
    using j rnd_ge [of 15 "j * 30"] rnd_le [of 30 "j * 30"] representable_of_int [of 15] representable_of_int [of 30] by simp_all
  have mk1: "mk (j * 30) = Fin (rnd (j * 30))" using j by (intro mk_le_pow2 [of _ 5]) simp_all
  have L: "1 \<le> (of_int L :: real)" "(of_int L :: real) \<le> 1000" using assms(2,3) by simp_all
  have b: "15 * of_int L \<le> rnd (j * 30) * of_int L" "rnd (j * 30) * of_int L \<le> 30 * 1000"
    using mult_mono [of "rnd (j * 30)" 30 "of_int L" 1000] mult_right_mono [of 15 "rnd (j * 30)" "of_int L"] a L by simp_all
  have mk2: "mk (rnd (j * 30) * of_int L) = Fin (rnd (rnd (j * 30) * of_int L))" using b L by (intro mk_le_pow2 [of _ 15]) simp_all
  have c: "of_int (15 * L) \<le> rnd (rnd (j * 30) * of_int L)" "rnd (rnd (j * 30) * of_int L) \<le> of_int 30000"
    using b assms(2,3) rnd_ge [of "of_int (15 * L)" "rnd (j * 30) * of_int L"] rnd_le [of "of_int 30000" "rnd (j * 30) * of_int L"]
      representable_of_int [of "15 * L"] representable_of_int [of 30000] by simp_all
  have "15 * L \<le> f2i (Fin (rnd (rnd (j * 30) * of_int L)))"
    using f2i_between(1) [OF c] assms(2,3) by (simp add: in_i64_def del: f2i.simps)
  moreover have "f64 30 = Fin 30" using f64_exact [of 30] by simp
  ultimately show ?thesis
    using assms(1,4) j(1) mk1 mk2 by (simp add: vegas_at_def vegas_shouldProbe_def del: f2i.simps)
qed

text \<open>The limit probes at the latest when thirty times as many samples have passed as its value.\<close>

lemma vegas_probes:
  assumes "vegas_at Log10 table base L count l" and "1 \<le> L" and "L \<le> 1000" and "30 * L \<le> count"
  shows "vegas_shouldProbe l"
proof -
  obtain j where j: "vg_probeJitter l = Fin j" "1 / 2 \<le> j" "j \<le> 1" using assms(1) by (auto simp: vegas_at_def)
  have a: "0 \<le> rnd (j * 30)" "rnd (j * 30) \<le> 30"
    using j rnd_nonneg [of "j * 30"] rnd_le [of 30 "j * 30"] representable_of_int [of 30] by simp_all
  have mk1: "mk (j * 30) = Fin (rnd (j * 30))" using j by (intro mk_le_pow2 [of _ 5]) simp_all
  have L: "1 \<le> (of_int L :: real)" "(of_int L :: real) \<le> 1000" using assms(2,3) by simp_all
  have b: "0 \<le> rnd (j * 30) * of_int L" "rnd (j * 30) * of_int L \<le> 30 * of_int L"
    using mult_right_mono [of "rnd (j * 30)" 30 "of_int L"] a L by simp_all
  have "30 * of_int L \<le> (2 ^ 15 :: real)" using L(2) by simp
  then have "rnd (j * 30) * of_int L \<le> 2 ^ 15" using b(2) by (rule order_trans [rotated])
  then have mk2: "mk (rnd (j * 30) * of_int L) = Fin (rnd (rnd (j * 30) * of_int L))" by (rule mk_le_pow2 [OF b(1)]) simp
  have c: "of_int 0 \<le> rnd (rnd (j * 30) * of_int L)" "rnd (rnd (j * 30) * of_int L) \<le> of_int (30 * L)"
    using b assms(2,3) rnd_nonneg [OF b(1)] rnd_le [of "of_int (30 * L)" "rnd (j * 30) * of_int L"] representable_of_int [of "30 * L"]
    by simp_all
  have "f2i (Fin (rnd (rnd (j * 30) * of_int L))) \<le> 30 * L"
    using f2i_between(2) [OF c] assms(2,3) by (simp add: in_i64_def del: f2i.simps)
  moreover have "f64 30 = Fin 30" using f64_exact [of 30] by simp
  ultimately show ?thesis
    using assms(1,4) j(1) mk1 mk2 by (simp add: vegas_at_def vegas_shouldProbe_def del: f2i.simps)
qed

text \<open>An update of the estimate is an update of the loop.\<close>

lemma vegas_update_control:
  assumes "vegas_at Log10 (log10RootLookup Log10 env) base L count l" and "Log10_ok Log10" and "1 \<le> L" and "L < 1000"
    and "1 \<le> control_step (table_at (log10RootLookup Log10 env)) (\<lambda>_. vegas_queueSize rtt l) L"
    and "control_step (table_at (log10RootLookup Log10 env)) (\<lambda>_. vegas_queueSize rtt l) L \<le> 1000"
  shows "\<exists>l' e. vegas_updateEstimatedLimit st rtt L False l = Some (l', e)
    \<and> vegas_at Log10 (log10RootLookup Log10 env) base (control_step (table_at (log10RootLookup Log10 env)) (\<lambda>_. vegas_queueSize rtt l) L) count l'"
proof -
  let ?t = "log10RootLookup Log10 env"
  let ?g = "table_at ?t L" and ?q = "vegas_queueSize rtt l" and ?L' = "control_step (table_at ?t) (\<lambda>_. vegas_queueSize rtt l) L"
  note g = table_at_log10(1,3,4) [OF assms(2-4), of env]
  have size: "L < int (length ?t)" using assms(4) table_size_ge [of env] by (simp add: length_log10RootLookup)
  have i: "i64 ?g = ?g" "i64 (3 * ?g) = 3 * ?g" "i64 (6 * ?g) = 6 * ?g" using g(2,3) by (simp_all add: i64_id in_i64_def)
  have f: "f64 L = Fin (of_int L)" "f2i (Fin (of_int L)) = L" "f64 ?g = Fin (of_int ?g)" "f64 (6 * ?g) = Fin (of_int (6 * ?g))"
    using assms(3,4) g(2,3) by (simp_all only: small_floats)
  have fl: "Log10RootFunction Log10 ?t 0 L = Some ?g"
    using size g(1) i(1) by (simp add: Log10RootFunction_def)
  have ff: "Log10RootFloatFunction Log10 ?t (Fin 0) (Fin (of_int L)) = Some (Fin (of_int ?g))"
    using size g f small_floats(1) [of ?g] by (simp add: Log10RootFloatFunction_def del: f2i.simps)
  have "\<not> fless (fmul (f64 L) (lit 2)) (Fin (of_int L))"
    using f(1) assms(3,4) mk_of_int [of 2] mk_of_int [of "L * 2"] by simp
  then have new: "vegas_newLimit ?q L False l = Some (if ?L' = L \<and> \<not> ?q < ?g \<and> \<not> ?q < 3 * ?g \<and> \<not> 6 * ?g < ?q then None else Some (mk (of_int ?L')))"
    using assms(1) f fl ff i g(2)
    by (simp add: vegas_newLimit_def vegas_at_def control_step_def del: f2i.simps)
  have small: "mk (of_int ?L') = Fin (of_int ?L')" "is_float (Fin (of_int ?L'))" using assms(5,6) by (simp_all only: small_floats)
  have "f64 1000 = Fin 1000" using f64_exact [of 1000] by simp
  then have clamp: "fmax (lit 1) (fmin (f64 1000) (Fin (of_int ?L'))) = Fin (of_int ?L')" using assms(5,6) by (simp add: max_def min_def)
  have one: "fadd (fmul (fsub (lit 1) (Fin 1)) (Fin (of_int L))) (fmul (Fin 1) (Fin (of_int ?L'))) = Fin (of_int ?L')"
    using fmix_1 [OF small(2), of "of_int L"] by (simp only: fmix_def lit_1)
  show ?thesis
  proof (cases "?L' = L \<and> \<not> ?q < ?g \<and> \<not> ?q < 3 * ?g \<and> \<not> 6 * ?g < ?q")
    case True
    then have "vegas_updateEstimatedLimit st rtt L False l = Some (l, [])" using new by (simp add: vegas_updateEstimatedLimit_def)
    then show ?thesis using assms(1) True by simp
  next
    case False
    have est: "vg_estimatedLimit l = Fin (of_int L)" "vg_maxLimit l = 1000" "vg_smoothing l = Fin 1"
      using assms(1) by (simp_all add: vegas_at_def)
    have "\<exists>e. vegas_updateEstimatedLimit st rtt L False l = Some (l\<lparr>vg_estimatedLimit := Fin (of_int ?L')\<rparr>, e)"
      using False new unfolding vegas_updateEstimatedLimit_def Let_def
      by (simp only: est small(1) clamp one if_False option.case) simp
    then show ?thesis using assms(1) by (auto simp: vegas_at_def)
  qed
qed

lemma vegas_OnSample_control:
  assumes "vegas_at Log10 (log10RootLookup Log10 env) (m * C) L count l" and "Log10_ok Log10" and "1 \<le> L" and "L < 1000"
    and "1 \<le> m" and "1 \<le> C" and "m * max C L \<le> 2 ^ 53" and "0 \<le> count" and "count < 30000"
    and "\<not> vegas_shouldProbe (l\<lparr>vg_probeCount := i64 (vg_probeCount l + 1)\<rparr>)"
    and "1 \<le> control_step (table_at (log10RootLookup Log10 env)) (queue_of m C) L"
    and "control_step (table_at (log10RootLookup Log10 env)) (queue_of m C) L \<le> 1000"
  shows "count + 1 < 30000" and "\<exists>l' e. vegas_OnSample rd st (m * max C L) L False l = Some (l', e)
    \<and> vegas_at Log10 (log10RootLookup Log10 env) (m * C)
        (control_step (table_at (log10RootLookup Log10 env)) (queue_of m C) L) (count + 1) l'"
proof -
  let ?l = "l\<lparr>vg_probeCount := i64 (vg_probeCount l + 1)\<rparr>" and ?r = "m * max C L"
  note probe = assms(10)
  have "i64 (count + 1) = count + 1" using assms(8,9) by (intro i64_id in_i64_nonneg) simp_all
  then have at': "vegas_at Log10 (log10RootLookup Log10 env) (m * C) L (count + 1) ?l" using assms(1) by (simp add: vegas_at_def)
  then show "count + 1 < 30000" using vegas_probes [OF at' assms(3)] assms(4) probe by linarith
  have get: "meas_Get (vg_rttNoLoad ?l) = Fin (of_int (m * C))" using at' by (simp add: vegas_at_def minimum_Get_def)
  have "m * C \<le> ?r" "0 < m * C" using assms(5,6) by (simp_all add: mult_left_mono)
  moreover have "f64 ?r = Fin (of_int ?r)" using calculation assms(7) by (intro f64_exact) linarith
  ultimately have keep: "\<not> (feq (meas_Get (vg_rttNoLoad ?l)) (lit 0) \<or> fless (f64 ?r) (meas_Get (vg_rttNoLoad ?l)))"
    using assms(5,6) unfolding get by (auto simp del: of_int_mult)
  have q: "vegas_queueSize ?r ?l = queue_of m C L"
    using at' unfolding vegas_queueSize_def queue_of_def get by (simp add: vegas_at_def)
  have "control_step (table_at (log10RootLookup Log10 env)) (\<lambda>_. vegas_queueSize ?r ?l) L
      = control_step (table_at (log10RootLookup Log10 env)) (queue_of m C) L"
    by (simp add: control_step_def q)
  then obtain l' e where u: "vegas_updateEstimatedLimit st ?r L False ?l = Some (l', e)"
    "vegas_at Log10 (log10RootLookup Log10 env) (m * C)
        (control_step (table_at (log10RootLookup Log10 env)) (queue_of m C) L) (count + 1) l'"
    using vegas_update_control [OF at' assms(2-4), of ?r st] assms(11,12) by auto
  then show "\<exists>l' e. vegas_OnSample rd st ?r L False l = Some (l', e)
    \<and> vegas_at Log10 (log10RootLookup Log10 env) (m * C)
        (control_step (table_at (log10RootLookup Log10 env)) (queue_of m C) L) (count + 1) l'" using probe keep by (auto simp: vegas_OnSample_def Let_def)
qed

lemma newProbeJitter_range:
  assumes "rand_ok rd"
  shows "\<exists>j. newProbeJitter rd = Fin j \<and> 1 / 2 \<le> j \<and> j \<le> 1"
proof -
  obtain x where x: "randFloat64 rd = Fin x" "0 \<le> x" "x < 1" "representable x" using assms by (auto simp: rand_ok_def)
  have two: "mk 2 = Fin 2" using mk_of_int [of 2] by simp
  have h: "0 \<le> rnd (x / 2)" "rnd (x / 2) \<le> 1 / 2"
    using x rnd_nonneg [of "x / 2"] rnd_mono [of "x / 2" "1 / 2"] mk_eq_Fin [OF lit_half] by simp_all
  have "newProbeJitter rd = Fin (rnd (rnd (x / 2) + 1 / 2))"
    using x two h mk_le_pow2 [of "x / 2" 1] mk_le_pow2 [of "rnd (x / 2) + 1 / 2" 1] by (simp add: newProbeJitter_def lit_half)
  moreover have "1 / 2 \<le> rnd (rnd (x / 2) + 1 / 2)" "rnd (rnd (x / 2) + 1 / 2) \<le> 1"
    using h rnd_mono [of "1 / 2" "rnd (x / 2) + 1 / 2"] mk_eq_Fin [OF lit_half] rnd_le [of 1 "rnd (x / 2) + 1 / 2"]
      representable_of_int [of 1] by simp_all
  ultimately show ?thesis by blast
qed

text \<open>The next sample of the saturated limit probes for a new reference time.\<close>

definition vegas_probes_at :: "(nat \<Rightarrow> rand) \<Rightarrow> int \<Rightarrow> int \<Rightarrow> nat \<Rightarrow> vegas \<Rightarrow> bool" where
  "vegas_probes_at rds m C k l \<longleftrightarrow>
     (case vegas_saturated rds m C k l of
        None \<Rightarrow> False
      | Some l' \<Rightarrow> vegas_shouldProbe (l'\<lparr>vg_probeCount := i64 (vg_probeCount l' + 1)\<rparr>))"

text \<open>The first sample of a new limit measures the time of an unloaded request; the state after it.\<close>

lemma vegas_first_sample:
  assumes "NewDefaultVegasLimitWithLimit Log10 (log10RootLookup Log10 env) rd name n lg reg tags = (l, e)" and "rand_ok rd"
    and "1 \<le> n" and "n \<le> C" and "C < 1000" and "1 \<le> m" and "m * C \<le> 2 ^ 53"
  shows "\<not> vegas_probes_at rds m C 0 l
    \<and> (\<exists>l'. vegas_saturated rds m C (Suc 0) l = Some l' \<and> vegas_at Log10 (log10RootLookup Log10 env) (m * C) n 1 l')"
proof -
  have "mk (- 1) = Fin (- 1)" using mk_of_int [of "- 1"] by simp
  then have new: "NewVegasLimitWithRegistry Log10 (log10RootLookup Log10 env) rd name n None 1000 (Fin 1)
      None None None None None (- 1) lg reg tags = (l, e)"
    using assms(1) by (simp add: NewDefaultVegasLimitWithLimit_def NewVegasLimitWithRegistry_def)
  note f = vegas_new_fields [OF new assms(3)]
  note jitter = newProbeJitter_range [OF assms(2)]
  have start: "vegas_at Log10 (log10RootLookup Log10 env) 0 n 0 l"
    using f assms(3-5) new jitter small_floats(3) [of n]
    by (auto simp: vegas_at_def NewVegasLimitWithRegistry_def minimum_zero_def Let_def split: prod.splits)
  let ?l = "l\<lparr>vg_probeCount := i64 (vg_probeCount l + 1)\<rparr>"
  have one: "vegas_at Log10 (log10RootLookup Log10 env) 0 n 1 ?l" using start by (simp add: vegas_at_def i64_def)
  then have probe: "\<not> vegas_shouldProbe ?l" by (rule vegas_no_probe) (use assms(3-5) in simp_all)
  have est: "vegas_EstimatedLimit l = n"
    using start small_floats(2) [of n] assms(3-5) by (simp add: vegas_at_def vegas_EstimatedLimit_def del: f2i.simps)
  have r: "m * max C n = m * C" "f64 (m * C) = Fin (of_int (m * C))" using assms(4,6,7) assms(3) by (simp_all add: max_def f64_exact)
  show ?thesis
    using one probe by (simp add: vegas_probes_at_def est r vegas_OnSample_def Let_def vegas_at_def minimum_Get_def minimum_Add_def lift_Add_def)
qed

section \<open>The limit settles\<close>

lemma vegas_saturated_append:
  "vegas_saturated rds m B (j + k) l
    = Option.bind (vegas_saturated rds m B j l) (vegas_saturated (\<lambda>i. rds (j + i)) m B k)"
proof (cases "vegas_saturated rds m B j l")
  case None
  then show ?thesis by (induction k) simp_all
next
  case (Some l1)
  then show ?thesis by (induction k) simp_all
qed

lemma vegas_probes_append:
  "vegas_saturated rds m B j l = Some l1 \<Longrightarrow> vegas_probes_at rds m B (j + k) l = vegas_probes_at (\<lambda>i. rds (j + i)) m B k l1"
  by (simp add: vegas_probes_at_def vegas_saturated_append)

text \<open>
  From a state in which the resource's time for \<open>C\<close> requests is known, the estimate moves like the loop until it probes. The resource may
  have a smaller capacity \<open>B\<close> when the limit starts at \<open>C\<close>: then the known time is the one of \<open>C\<close> requests that wait for each other.
\<close>

lemma control_bounds:
  assumes "control_ok C g Q" and "1 \<le> n" and "n \<le> C" and "C \<le> 800"
  shows "n \<le> (control_step g Q ^^ k) n \<and> (control_step g Q ^^ k) n \<le> C + 112"
proof -
  let ?f = "control_step g Q"
  obtain L K where LK: "\<forall>k. K \<le> k \<longrightarrow> (?f ^^ k) n = L" "L \<le> C + 112" "int K \<le> L - n + 1"
    "\<forall>j. j < K \<longrightarrow> n + int j \<le> (?f ^^ j) n \<and> (?f ^^ j) n \<le> C + 112"
    by (rule control_settles [OF assms])
  have "n \<le> L" using spec [OF LK(1), of 0] LK(3) by (cases K) simp_all
  then show ?thesis using spec [OF LK(1), of k] LK(2) spec [OF LK(4), of k] by (cases "K \<le> k") simp_all
qed

lemma vegas_saturated_loop:
  assumes "vegas_at Log10 (log10RootLookup Log10 env) (m * C) n c l" and "0 \<le> c" and "c < 30000"
    and "Log10_ok Log10" and "Log10_mono Log10" and "1 \<le> n" and "n \<le> C" and "C \<le> 800" and "1 \<le> m" and "m * 1000 \<le> 2 ^ 53"
    and "B = C \<or> n = C \<and> B \<le> C" and "\<forall>j<k. \<not> vegas_probes_at rds m B j l"
  shows "c + int k < 30000 \<and> (\<exists>l'. vegas_saturated rds m B k l = Some l' \<and> vegas_at Log10 (log10RootLookup Log10 env) (m * C)
      ((control_step (table_at (log10RootLookup Log10 env)) (queue_of m C) ^^ k) n) (c + int k) l')"
  using assms(12)
proof (induction k)
  case (Suc k)
  let ?g = "table_at (log10RootLookup Log10 env)" and ?Q = "queue_of m C"
  let ?L = "(control_step ?g ?Q ^^ k) n"
  have C: "1 \<le> C" using assms(6,7) by simp
  obtain l1 where l1: "c + int k < 30000" "vegas_saturated rds m B k l = Some l1"
      "vegas_at Log10 (log10RootLookup Log10 env) (m * C) ?L (c + int k) l1"
    using Suc.IH Suc.prems by auto
  have probe: "\<not> vegas_shouldProbe (l1\<lparr>vg_probeCount := i64 (vg_probeCount l1 + 1)\<rparr>)"
    using Suc.prems l1(2) by (auto simp: vegas_probes_at_def dest: spec [of _ k])
  note bounds = control_bounds [OF vegas_control_ok [OF assms(4,5) C assms(8-10), of env] assms(6-8)]
  have L: "1 \<le> ?L" "?L < 1000" "n \<le> ?L" using bounds [of k] assms(6,8) by simp_all
  have L': "1 \<le> control_step ?g ?Q ?L" "control_step ?g ?Q ?L \<le> 1000" using bounds [of "Suc k"] assms(6,8) by simp_all
  have "m * max C ?L \<le> m * 1000" using L(2) assms(8,9) by (intro mult_left_mono) simp_all
  then have le: "m * max C ?L \<le> 2 ^ 53" using assms(10) by linarith
  have est: "vegas_EstimatedLimit l1 = ?L"
    using l1(3) small_floats(2) [of ?L] L by (simp add: vegas_at_def vegas_EstimatedLimit_def del: f2i.simps)
  have B: "max B ?L = max C ?L" using assms(11) L(3) by auto
  have pos: "0 \<le> c + int k" using assms(2) by simp
  note step = vegas_OnSample_control [OF l1(3) assms(4) L(1,2) assms(9) C le pos l1(1) probe L']
  obtain l2 e2 where "vegas_OnSample (rds k) 0 (m * max C ?L) ?L False l1 = Some (l2, e2)"
      "vegas_at Log10 (log10RootLookup Log10 env) (m * C) (control_step ?g ?Q ?L) (c + int k + 1) l2"
    using step(2) [of "rds k" 0] by blast
  then show ?case using step(1) l1(2) est B by (simp add: Let_def ac_simps)
qed (use assms(1,3) in simp)

lemma vegas_comes_to_rest:
  assumes "vegas_at Log10 (log10RootLookup Log10 env) (m * C) n c l" and "0 \<le> c" and "c \<le> 1"
    and "Log10_ok Log10" and "Log10_mono Log10" and "1 \<le> n" and "n \<le> C" and "C \<le> 800" and "1 \<le> m" and "m * 1000 \<le> 2 ^ 53"
    and "B = C \<or> n = C \<and> B \<le> C"
  obtains L v K where "index (log10RootLookup Log10 env) L = Some v" and "1 \<le> v" and "C + 3 * v - 1 \<le> L" and "L \<le> C + 6 * v"
    and "int K \<le> (C - n) div 6 + 49" and "int K \<le> L - n + 1"
    and "\<forall>k rds. c + int k + 1 < 15 * L \<longrightarrow> \<not> vegas_probes_at rds m B k l"
    and "\<forall>k rds. (\<forall>j<k. \<not> vegas_probes_at rds m B j l)
        \<longrightarrow> (\<exists>l'. vegas_saturated rds m B k l = Some l' \<and> (K \<le> k \<longrightarrow> vegas_EstimatedLimit l' = L))"
proof -
  let ?g = "table_at (log10RootLookup Log10 env)" and ?Q = "queue_of m C"
  let ?f = "control_step ?g ?Q"
  have C: "1 \<le> C" and c30: "c < 30000" using assms(3,6,7) by simp_all
  note ok = vegas_control_ok [OF assms(4,5) C assms(8-10), of env]
  note loop = vegas_saturated_loop [OF assms(1,2) c30 assms(4-11)]
  obtain L K where L: "\<forall>k. K \<le> k \<longrightarrow> (?f ^^ k) n = L" "at_rest ?g ?Q L" "1 \<le> L" "L \<le> C + 112"
      and K: "int K \<le> (C - n) div 6 + 49" "int K \<le> L - n + 1"
      and low: "\<forall>j. j < K \<longrightarrow> n + int j \<le> (?f ^^ j) n \<and> (?f ^^ j) n \<le> C + 112"
    by (rule control_settles [OF ok assms(6-8)])
  have L1000: "L < 1000" using L(4) assms(8) by simp
  note g = control_okD [OF ok L(3) L1000]
  have "C < L" using g(1,3) L(2) by (cases "L \<le> C") (auto simp: at_rest_def)
  then have range: "C + 3 * ?g L - 1 \<le> L" "L \<le> C + 6 * ?g L" using g(4,5) L(2) by (simp_all add: at_rest_def)
  have quiet: "\<not> vegas_probes_at rds m B k l" if "c + int k + 1 < 15 * L" for k rds
    using that
  proof (induction k rule: less_induct)
    case (less k)
    let ?L = "(?f ^^ k) n"
    have "\<forall>j<k. \<not> vegas_probes_at rds m B j l" using less by simp
    then obtain l1 where l1: "c + int k < 30000" "vegas_saturated rds m B k l = Some l1"
        "vegas_at Log10 (log10RootLookup Log10 env) (m * C) ?L (c + int k) l1"
      using loop [of k rds] by blast
    have bound: "1 \<le> ?L" "?L \<le> 1000" "c + int k + 1 < 15 * ?L"
      using spec [OF L(1), of k] L(3) L1000 spec [OF low, of k] less.prems assms(3,6,8) by (cases "K \<le> k"; simp)+
    have "i64 (c + int k + 1) = c + int k + 1" using assms(2) l1(1) by (intro i64_id in_i64_nonneg) simp_all
    then have "vegas_at Log10 (log10RootLookup Log10 env) (m * C) ?L (c + int k + 1) (l1\<lparr>vg_probeCount := i64 (vg_probeCount l1 + 1)\<rparr>)"
      using l1(3) by (simp add: vegas_at_def)
    from vegas_no_probe [OF this bound] show ?case using l1(2) by (simp add: vegas_probes_at_def)
  qed
  have "\<exists>l'. vegas_saturated rds m B k l = Some l' \<and> (K \<le> k \<longrightarrow> vegas_EstimatedLimit l' = L)"
    if "\<forall>j<k. \<not> vegas_probes_at rds m B j l" for k rds
    using loop [OF that] spec [OF L(1), of k] small_floats(2) [of L] L(3) L1000
    by (auto simp: vegas_at_def vegas_EstimatedLimit_def simp del: f2i.simps)
  then show thesis using that [OF table_at_log10(1) [OF assms(4) L(3) L1000, of env] g(1) range K] quiet by blast
qed



section \<open>Probing under load\<close>

text \<open>
  A probe takes the time of a request that waits in the queue for the time without load: from a limit at rest at \<open>L\<close> above the
  capacity \<open>C\<close>, the next probe starts a new climb, to at least two above \<open>L\<close>. Nothing brings the limit back: the
  reference time only falls when a request is faster than it.
\<close>

theorem vegas_probe_ratchets:
  assumes "vegas_at Log10 (log10RootLookup Log10 env) base L c l" and "30 * L \<le> c + 1" and "c < 2 ^ 53" and "rand_ok (rds 0)"
    and "Log10_ok Log10" and "Log10_mono Log10" and "1 \<le> C" and "C \<le> L" and "L \<le> 800" and "1 \<le> m" and "m * 1000 \<le> 2 ^ 53"
    and "50 \<le> k" and "int k < 15 * L"
  shows "\<exists>l'. vegas_saturated rds m C k l = Some l' \<and> L + 2 \<le> vegas_EstimatedLimit l'"
proof -
  have "m * L \<le> m * 1000" using assms(9,10) by (intro mult_left_mono) simp_all
  then have le: "m * L \<le> 2 ^ 53" using assms(11) by linarith
  let ?l = "l\<lparr>vg_probeCount := i64 (vg_probeCount l + 1)\<rparr>"
  let ?l1 = "?l\<lparr>vg_probeJitter := newProbeJitter (rds 0), vg_probeCount := 0, vg_rttNoLoad := snd (meas_Add (f64 (m * L)) (Minimum minimum_zero))\<rparr>"
  have "i64 (c + 1) = c + 1" using assms(2,3,7,8) by (intro i64_id in_i64_nonneg) simp_all
  then have one: "vegas_at Log10 (log10RootLookup Log10 env) base L (c + 1) ?l" using assms(1) by (simp add: vegas_at_def)
  then have probe: "vegas_shouldProbe ?l" by (rule vegas_probes) (use assms(2,7-9) in simp_all)
  have est: "vegas_EstimatedLimit l = L"
    using assms(1,7-9) small_floats(2) [of L] by (simp add: vegas_at_def vegas_EstimatedLimit_def del: f2i.simps)
  have sat: "vegas_saturated rds m C (Suc 0) l = Some ?l1"
    using probe assms(8) by (simp add: est vegas_OnSample_def Let_def max_def)
  have "f64 (m * L) = Fin (of_int (m * L))" using le assms(7,8,10) by (intro f64_exact) simp
  then have l1: "vegas_at Log10 (log10RootLookup Log10 env) (m * L) L 0 ?l1"
    using one newProbeJitter_range [OF assms(4)] by (simp add: vegas_at_def minimum_Add_def minimum_zero_def lift_Add_def)
  have L1: "(0::int) \<le> 0" "(0::int) \<le> 1" "1 \<le> L" using assms(7,8) by simp_all
  obtain L' v K where "index (log10RootLookup Log10 env) L' = Some v" and Lv: "1 \<le> v" "L + 3 * v - 1 \<le> L'" and "L' \<le> L + 6 * v"
    and K: "int K \<le> (L - L) div 6 + 49" and "int K \<le> L' - L + 1"
    and quiet: "\<forall>k rds. 0 + int k + 1 < 15 * L' \<longrightarrow> \<not> vegas_probes_at rds m C k ?l1"
    and rest: "\<forall>k rds. (\<forall>j<k. \<not> vegas_probes_at rds m C j ?l1)
        \<longrightarrow> (\<exists>l'. vegas_saturated rds m C k ?l1 = Some l' \<and> (K \<le> k \<longrightarrow> vegas_EstimatedLimit l' = L'))"
    by (rule vegas_comes_to_rest [OF l1 L1(1,2) assms(5,6) L1(3) order.refl assms(9-11) disjI2 [OF conjI [OF refl assms(8)]]])
  obtain j where j: "k = Suc 0 + j" using assms(12) by (cases k) simp_all
  let ?rds = "\<lambda>i. rds (Suc 0 + i)"
  have "\<forall>i<j. \<not> vegas_probes_at ?rds m C i ?l1" using quiet Lv assms(13) unfolding j by auto
  then have "\<exists>l'. vegas_saturated ?rds m C j ?l1 = Some l' \<and> (K \<le> j \<longrightarrow> vegas_EstimatedLimit l' = L')" using rest by blast
  then show ?thesis using sat Lv K assms(12) unfolding j vegas_saturated_append by auto
qed

end
