(* ===== verification/Spec2Isabelle.thy ===== *)
theory Spec2Isabelle
  imports Limiter_Locked Limit_Gradient Limit_Windowed Queue_Partitioned Interceptor_Http Interceptor_Grpc Metric_Prometheus Registry_Lifecycle
    Example_Tickers Example_Programs Limit_Vegas_Control
begin

text \<open>
  Concurrency limits: a verification of \<open>go-concurrency-limits\<close>.

  \<^bold>\<open>The program.\<close> A \<open>Limiter\<close> grants a listener per request or refuses it. The default limiter
  (\<open>limiter/default.go\<close>) asks a strategy (\<open>strategy\<close>) for a token, measures each completed request
  in a sample window (\<open>measurements\<close>), gives the window to a limit algorithm (\<open>limit\<close>) and sets the
  algorithm's new estimate as the strategy's limit. Other limiters wrap one: they block the caller,
  give up at a deadline, or queue callers (\<open>limiter/blocking.go\<close>, \<open>deadline.go\<close>, \<open>queue_blocking.go\<close>);
  pools (\<open>patterns/pool\<close>) assemble such a stack, HTTP and gRPC interceptors (\<open>http\<close>, \<open>grpc\<close>)
  guard calls with a limiter, and registries (\<open>metric_registry\<close>) report metrics.

  \<^bold>\<open>How the code is modelled.\<close> A struct is a record, with a field prefix per type; a method is a
  function from the state to its results and the new state, of the same name (prefixed by the
  type where several types share it: \<open>precise_TryAcquire\<close>, \<open>aimd_OnSample\<close>). Errors are values of sum types,
  panics are \<open>None\<close> or a constructor. Integers are \<open>int\<close> with \<open>i32\<close>, \<open>i64\<close>, \<open>u64\<close> where the source
  converts or can wrap. Calls that leave the state (metrics, callbacks, log lines) are returned as
  effects. The clock and the random numbers an operation reads are arguments.

  \<^bold>\<open>The theories.\<close>
  \<^item> \<open>Prelude\<close>: fixed-width integers, Go's division, lists. \<open>Float64\<close>: IEEE-754 doubles as rounded
    reals with infinities and NaN, with the comparison, conversion and bounds lemmas the limits need.
  \<^item> \<open>Core\<close> (\<open>core\<close>): metrics, tokens, contexts, the interfaces \<open>Limit\<close> and \<open>Strategy\<close> as
    records of operations, and the locales that state their contracts (\<open>strategy_contract\<close>,
    \<open>limited_strategy\<close>, \<open>strict_strategy\<close>, \<open>bounded_limit\<close>).
  \<^item> \<open>Strategy_Precise\<close>, \<open>Strategy_Simple\<close>, \<open>Partition\<close>, \<open>Strategy_Lookup\<close>, \<open>Strategy_Predicate\<close>
    (\<open>strategy\<close>): admission on every branch, the limit as a bound, accounting per partition,
    refinement of the precise strategy by the simple one, and the race of the simple one, whose
    check and increment are two steps. Partitions live in a store, since strategies and tokens share them;
    the locale \<open>managed_strategy\<close> interleaves their additions and removals with the other operations.
  \<^item> \<open>Limit_Functions\<close>, \<open>Limit_Basic\<close>, \<open>Limit_AIMD\<close>, \<open>Limit_Vegas\<close>, \<open>Limit_Gradient\<close>,
    \<open>Limit_Gradient2\<close>, \<open>Limit_Windowed\<close> (\<open>limit\<close>): what a sample does, and that the estimate stays in its range
    under rounding. \<open>math.Log10\<close> is a parameter of the Vegas limit with the hypothesis \<open>Log10_ok\<close>. In front of a saturated
    resource the AIMD limit finds the capacity and keeps probing it, and the Vegas limit comes to rest above it until it probes
    (\<open>Limit_Vegas_Control\<close>, where \<open>math.Log10\<close> must also not decrease). What the windowed limit hands to its delegate is specified on lists
    of samples (\<open>windows\<close>).
  \<^item> \<open>Measurements\<close>, \<open>Sample_Window\<close> (\<open>measurements\<close>): the measurements and the aggregates of a window.
  \<^item> \<open>Limiter_Default\<close>: the default limiter, polymorphic in the algorithm and the strategy, and a
    step relation in which each critical section of its callers is one step. The locales \<open>limiter_stack\<close>,
    \<open>limiter_bounded\<close> and \<open>limiter_strict\<close> lift the contracts to every reachable state.
    \<open>Limiter_Locked\<close>: the simple strategy under the limiter's mutex, with each atomic operation of an
    acquisition a step (locale \<open>locked_limiter\<close>): the mutex hides the strategy's race.
  \<^item> \<open>Limiter_Delegate\<close>, \<open>Limiter_Blocking\<close>, \<open>Limiter_Queue\<close>: the wrappers as step relations over any number of
    goroutines; a completion at the delegate is one step there, and the delegate's state is shown reachable in
    the finer model. A notification channel is its generation, a backlog element the number of its push.
    The locale \<open>blocking_delegate\<close> states what the wake-up argument needs of a delegate, \<open>fair_run\<close> which infinite runs are fair;
    \<open>discipline\<close> is what an ordering of the backlog is, and \<open>served_next\<close> the element that a release serves.
  \<^item> \<open>Pool\<close>: the assembled stack and its capacity. \<open>Limiter_Partitioned\<close>, \<open>Queue_Partitioned\<close>: waiting limiters and
    pools over the partitioned strategies, where whether the delegate has room depends on the request: the accounts of
    the partitions, no wake-up lost for a partition, a share that a queue withholds, and requests of no
    partition (locale \<open>hopeless_requests\<close>), which block their caller for ever and stop a queue.
  \<^item> \<open>Interceptor\<close>, \<open>Interceptor_Http\<close>,
    \<open>Interceptor_Grpc\<close>: guarded calls (locale \<open>guarded_call\<close>) and the six places that are one; a stream's handler is
    a tree of its sends and receives, which the wrapped stream runs.
  \<^item> \<open>Metric_Registry\<close>, \<open>Metric_Prometheus\<close>: the three backends and the contract
    \<open>listener_registry\<close> they share. \<open>Registry_Lifecycle\<close>: the goroutines of the pollers and of the callers
    of \<open>Start\<close> and \<open>Stop\<close> (locale \<open>unflagged\<close>).
  \<^item> \<open>Example_Partitions\<close>, \<open>Example_Loading\<close>, \<open>Example_Servers\<close> (\<open>examples\<close>): the stacks of the example programs, put
    together as their \<open>main\<close> does: which calls each server turns away, and how many it works on. \<open>Example_Tickers\<close>: the two
    programs driven by a ticker as a step relation of \<open>main\<close> and its workers: the wait group, the jobs, the end.
    \<open>Example_Programs\<close>: options, servers and clients of the three gRPC programs, over a network given as a parameter.
  \<^item> \<open>Debug_Strings\<close>: the \<open>String\<close> methods over \<open>fmt\<close>'s decimal printing, read back from what they print, and the lines the
    limits log, which \<open>fmt\<close> prints without complaint.

  \<^bold>\<open>Bounds.\<close> Counters are 32 bits wide in the strategies: the concurrent models assume fewer than
  \<open>2 ^ 31\<close> requests at once, which is what the counters can hold. The ranges of the limits are stated for
  limits up to \<open>2 ^ 52\<close>, below which every integer is a double. No fuel is used: every function is total,
  and what may run forever is a step relation.

  \<^bold>\<open>Not modelled.\<close> The log lines and sleeps of the example programs, their flag parsing and network, which are parameters; the
  generated protocol buffers; the client libraries of Datadog, go-metrics, Prometheus, gRPC and \<open>net/http\<close>, which are
  parameters; the interface \<open>core.LimiterRegistry\<close>, which nothing implements. In \<open>Debug_Strings\<close> the address that a pointer prints is
  a parameter, and the sign of a zero is not kept. The memory model is sequentially consistent: data races on plain memory (the maps of the
  registries, which some methods use without the mutex) are outside the model.

  \<^bold>\<open>Plan.\<close> Every function of the library has a definition. What can be
  added are compositions, such as windowed limits inside the pools, and fair runs of the queue limiters.
\<close>

section \<open>Stacked limits\<close>

text \<open>C28: A traced, windowed limit is its algorithm on the windows' aggregates: for any limit algorithm and any sequence of up to a million
  samples with positive round-trip times of up to eighteen minutes, start times from 0 to \<open>2 ^ 61\<close> and 32-bit numbers in flight, given to the
  outermost of the three limits, its estimate is that of the bare algorithm given one sample per window (window times up to \<open>2 ^ 60\<close>). The specification
  \<open>windows\<close> says which: samples below the threshold are skipped; a sample that ends after the due time with more requests in flight than the
  window size closes the window; the algorithm gets its start time and drop flag with the mean round-trip time of the window's completed requests, 0 when all were
  dropped, and the largest number in flight of all its requests, 0 at least; the next window starts empty and is due twice the least completed round-trip time later, at least the
  minimal and at most the maximal window time, and the minimal one when none completed.\<close>

theorem stacked_windows:
  assumes "NewWindowedLimit rd name minW maxW need threshold (Some l) registry tags = Inr (w, e)"
    and "maxW \<le> 2 ^ 60" and "length xs \<le> 2 ^ 20" and "\<forall>x\<in>set xs. moderate x"
  shows "fst (traced_EstimatedLimit (windowed_ops ops) (limit_run (traced_ops (windowed_ops ops)) (NewTracedLimit w tracer) xs))
    = EstimatedLimit ops (limit_run ops l (windows threshold need minW maxW 0 [] xs))"
proof -
  have w: "wd_delegate w = l" "wd_nextUpdateTime w = 0" "wd_windowSize w = need" "wd_minRTTThreshold w = threshold"
    "wd_minWindowTime w = minW" "wd_maxWindowTime w = maxW" "100000000 \<le> minW" "100000000 \<le> maxW" "window_of [] (wd_sample w)"
    using assms(1) by (auto simp: NewWindowedLimit_def Let_def case_prod_beta window_of_new split: if_splits)
  have "tr_limit (limit_run (traced_ops (windowed_ops ops)) (NewTracedLimit w tracer) xs) = limit_run (windowed_ops ops) w xs"
    by (simp add: traced_run_limit NewTracedLimit_def)
  moreover have "wd_delegate (limit_run (windowed_ops ops) w xs) = limit_run ops l (windows threshold need minW maxW 0 [] xs)"
    using windowed_run [of "[]" w xs ops] w assms(2-4) by simp
  ultimately show ?thesis
    by (simp add: traced_EstimatedLimit_def windowed_ops_def windowed_EstimatedLimit_def Let_def)
qed

text \<open>Three samples to an AIMD limit of ten: the first is below the threshold, the other two close one window.\<close>

theorem stacked_windows_witness:
  "\<exists>w e. NewWindowedLimit still ''w'' 1000000000 1000000000 10 100 (Some (fst (NewAIMDLimit ''a'' 10 (Fin (1 / 2)) 1 NilRegistry [])))
      NilRegistry [] = Inr (w, e)
    \<and> windows 100 10 1000000000 1000000000 0 [] [(still, 1, 7, 90, False), (still, 2, 300, 5, False), (still, 3, 200, 20, False)]
        = [(still, 3, 250, 20, False)]
    \<and> fst (traced_EstimatedLimit (windowed_ops aimd_ops) (limit_run (traced_ops (windowed_ops aimd_ops)) (NewTracedLimit w NoopLimitLogger)
        [(still, 1, 7, 90, False), (still, 2, 300, 5, False), (still, 3, 200, 20, False)])) = 11"
proof -
  let ?l = "fst (NewAIMDLimit ''a'' 10 (Fin (1 / 2)) 1 NilRegistry [])"
    and ?xs = "[(still, 1, 7, 90, False), (still, 2, 300, 5, False), (still, 3, 200, 20, False)]"
  obtain w e where w: "NewWindowedLimit still ''w'' 1000000000 1000000000 10 100 (Some ?l) NilRegistry [] = Inr (w, e)"
    by (simp add: NewWindowedLimit_def Let_def case_prod_beta)
  have ws: "windows 100 10 1000000000 1000000000 0 [] ?xs = [(still, 3, 250, 20, False)]"
    by (simp add: mean_rtt_def peak_inFlight_def)
  have l: "ai_limit ?l = 10" "ai_increaseBy ?l = 1" by (simp_all add: NewAIMDLimit_def Let_def case_prod_beta)
  have "i64 11 = 11" by (rule i64_id) (simp add: in_i64_def)
  then have "EstimatedLimit aimd_ops (limit_run aimd_ops ?l [(still, 3, 250, 20, False)]) = 11"
    by (simp add: limit_run_def aimd_ops_def aimd_OnSample_def aimd_EstimatedLimit_def l Let_def case_prod_beta)
  then show ?thesis using stacked_windows [OF w, of ?xs aimd_ops NoopLimitLogger] w ws by (simp add: moderate_def)
qed

section \<open>The limiter of the interceptors\<close>

text \<open>What the three constructors of the interceptors make when no option names a limiter.\<close>

lemma interceptor_default:
  assumes "hc_limiter (new_config henv [WithName n, WithTags ts]) = DefaultLimiter l0
      \<or> gc_limiter (grpc_new_config genv []) = GrpcDefault l0 \<or> sc_recvLimiter (stream_new_config genv []) = GrpcDefault l0
      \<or> sc_sendLimiter (stream_new_config genv []) = GrpcDefault l0"
    and "log10_table = he_table henv" and "he_table henv = ge_table genv"
    and "he_Log10 henv = ge_Log10 genv" and "Log10 = ge_Log10 genv"
  shows "\<exists>rd name tags. NewDefaultLimiterWithDefaults Log10 log10_table rd simple_ops name (Some (NewSimpleStrategy 1000))
    (Some NoopLimitLogger) EmptyMetricRegistry tags = Inr l0"
  using assms
  by (auto simp: new_config_def applyDefaults_def WithName_def WithTags_def grpc_new_config_def grpc_defaults_def
      stream_new_config_def streamDefaults_def grpc_default_limiter_def Let_def split: sum.splits)

text \<open>C6: The default limiter of an interceptor admits at most 1000 calls at once, although its strategy checks its limit
  and counts in separate atomic operations: the HTTP middleware, the unary interceptors and
  both directions of a stream get a default limiter over the simple strategy, under whose mutex the three
  operations of an acquisition interleave with completions only. In every such interleaving the tokens out,
  the one just being taken included, are counted by the strategy and are at most 1000, the strategy enforces
  the Vegas estimate, and the limiter's counter is the number of running calls.\<close>

theorem default_interceptors_bounded:
  assumes "hc_limiter (new_config henv [WithName n, WithTags ts]) = DefaultLimiter l0
      \<or> gc_limiter (grpc_new_config genv []) = GrpcDefault l0 \<or> sc_recvLimiter (stream_new_config genv []) = GrpcDefault l0
      \<or> sc_sendLimiter (stream_new_config genv []) = GrpcDefault l0"
    and "Log10_ok (ge_Log10 genv)" and "he_Log10 henv = ge_Log10 genv"
    and "he_table henv = log10RootLookup (ge_Log10 genv) env" and "ge_table genv = log10RootLookup (ge_Log10 genv) env"
    and "locked_reach vegas_ops l0 (l, rs, a)"
  shows "simple_GetBusyCount (dl_strategy l) = count_reqs holds_token rs + taken a
    \<and> simple_GetBusyCount (dl_strategy l) \<le> 1000
    \<and> simple_GetLimit (dl_strategy l) = vegas_EstimatedLimit (dl_limit l)
    \<and> dl_inFlight l = count_reqs is_running rs"
proof -
  obtain rd name tags where "NewDefaultLimiterWithDefaults (ge_Log10 genv) (log10RootLookup (ge_Log10 genv) env) rd simple_ops
      name (Some (NewSimpleStrategy 1000)) (Some NoopLimitLogger) EmptyMetricRegistry tags = Inr l0"
    using interceptor_default [OF assms(1) _ _ assms(3) refl] assms(4,5) by fastforce
  then show ?thesis by (rule default_limiter_simple [OF _ assms(2,6)])
qed

theorem default_interceptors_bounded_witness:
  "\<exists>henv l0 l t. hc_limiter (new_config henv [WithName ''api'', WithTags []]
        :: ((fixed, precise) default_limiter, unit, unit, unit, unit) http_config) = DefaultLimiter l0
    \<and> locked_reach vegas_ops l0 (l, [Finished], TokenTaken t) \<and> simple_GetBusyCount (dl_strategy l) = 1"
proof -
  let ?tbl = "log10RootLookup Log10_rounded None"
  let ?henv = "undefined\<lparr>he_Log10 := Log10_rounded, he_table := ?tbl\<rparr> :: ((fixed, precise) default_limiter, unit) http_env"
  let ?genv = "undefined\<lparr>ge_Log10 := Log10_rounded, ge_table := ?tbl\<rparr> :: ((fixed, precise) default_limiter, unit, unit) grpc_env"
  obtain l0 where cfg: "hc_limiter (new_config ?henv [WithName ''api'', WithTags []]
        :: ((fixed, precise) default_limiter, unit, unit, unit, unit) http_config) = DefaultLimiter l0"
    by (simp add: new_config_def applyDefaults_def WithName_def WithTags_def NewDefaultLimiterWithDefaults_def NewDefaultLimiter_def
        defaultMinWindowTime_def defaultMaxWindowTime_def defaultWindowSize_def Let_def)
  then have "\<exists>rd name tags. NewDefaultLimiterWithDefaults Log10_rounded ?tbl rd simple_ops name (Some (NewSimpleStrategy 1000))
      (Some NoopLimitLogger) EmptyMetricRegistry tags = Inr l0"
    by (intro interceptor_default [OF disjI1 [OF cfg], of ?tbl ?genv]) simp_all
  then obtain l t where run: "locked_reach vegas_ops l0 (l, [Finished], TokenTaken t)"
    using released_while_acquiring by metis
  have "simple_GetBusyCount (dl_strategy l) = 1"
    using default_interceptors_bounded [OF disjI1 [OF cfg], of ?genv None, OF _ _ _ _ run] Log10_rounded_ok
    by (simp add: count_reqs_def)
  with cfg run show ?thesis by blast
qed

section \<open>Metrics of partitions and queues\<close>

text \<open>The registrations an operation makes, performed on a Datadog registry; \<open>src\<close> is the gauges' supplier.\<close>

fun dd_perform :: "('e \<Rightarrow> float64 \<times> bool) \<Rightarrow> effect \<Rightarrow> 'e dd_registry \<Rightarrow> 'e dd_registry" where
  "dd_perform src (Register Gauge ID tags) r = dd_RegisterGauge ID src tags r"
| "dd_perform src (Register Distribution ID tags) r = snd (dd_RegisterDistribution ID tags r)"
| "dd_perform src (Register Timing ID tags) r = snd (dd_RegisterTiming ID tags r)"
| "dd_perform src (Register Count ID tags) r = snd (dd_RegisterCount ID tags r)"
| "dd_perform src _ r = r"

lemma trim_dot_names: "trim_dot MetricInFlight = MetricInFlight" "trim_dot MetricPartitionLimit = MetricPartitionLimit"
  by (simp_all add: trim_dot_def MetricInFlight_def MetricPartitionLimit_def)

text \<open>Only the first partition's limit is reported: every partition registers its gauge under the same
  identifier, and a registry keeps the first. After two partitions have been created with a new
  Datadog registry, a tick of the poller sends one gauge, with the first partition's tag and value, and
  nothing of the second partition. And the tags that say how a queue is ordered are no labels for
  the Prometheus registry, which wants a colon in a tag.\<close>

theorem partition_gauge_reported_once:
  assumes "dd_NewMetricRegistry True pre freq = Inr r"
    and "NewLookupPartitionWithMetricRegistry n1 pct1 lim1 BackendRegistry = Some (p1, e1)"
    and "NewLookupPartitionWithMetricRegistry n2 pct2 lim2 BackendRegistry = Some (p2, e2)"
    and "r' = fold (dd_perform (NewIntMetricSupplierWrapper (\<lambda>env. part_Limit p2))) e2 (fold (dd_perform (NewIntMetricSupplierWrapper (\<lambda>env. part_Limit p1))) e1 r)"
  shows "dom (dd_registeredGauges r') = {MetricPartitionLimit}
    \<and> dd_run_tick env [MetricPartitionLimit] r'
        = [CallGauge (dd_prefix r @ MetricPartitionLimit) (f64 (part_Limit p1)) [partition_tag n1]]
    \<and> (CHR '':'' \<notin> set (qc_Ordering (ApplyDefaults cfg)) \<longrightarrow>
        parseTags (qc_Tags (ApplyDefaults cfg)) = parseTags (qc_Tags cfg))"
proof -
  have e: "e1 = [Register Distribution MetricInFlight [partition_tag n1], Register Gauge MetricPartitionLimit [partition_tag n1]]"
    "e2 = [Register Distribution MetricInFlight [partition_tag n2], Register Gauge MetricPartitionLimit [partition_tag n2]]"
    using assms(2,3)
    by (auto simp: NewLookupPartitionWithMetricRegistry_def RegisterDistribution_def RegisterGauge_def register_def Let_def)
  have r: "dd_registeredGauges r = Map.empty" "dd_registeredListeners r = Map.empty"
    using assms(1) by (auto simp: dd_NewMetricRegistry_def Let_def)
  have reg: "dd_registeredGauges r' = [MetricPartitionLimit \<mapsto>
      \<lparr>mp_supplier = (NewIntMetricSupplierWrapper (\<lambda>env. part_Limit p1)), mp_id = MetricPartitionLimit, mp_tags = [partition_tag n1]\<rparr>]
    \<and> dd_prefix r' = dd_prefix r"
    unfolding assms(4) e
    by (simp add: dd_RegisterGauge_def dd_RegisterDistribution_def trim_dot_names r Let_def)
  have tags: "parseTags (qc_Tags (ApplyDefaults cfg)) = parseTags (qc_Tags cfg)" if "CHR '':'' \<notin> set (qc_Ordering (ApplyDefaults cfg))"
  proof -
    have "split_colon metricTagOrdering = None" by (rule split_colon_None) (simp add: metricTagOrdering_def)
    moreover have "qc_Tags (ApplyDefaults cfg) = (qc_Tags cfg @ [metricTagOrdering]) @ [qc_Ordering (ApplyDefaults cfg)]"
      by (simp add: ApplyDefaults_def Let_def)
    ultimately show ?thesis using split_colon_None [OF that] by (simp only: parseTags_append option.case)
  qed
  show ?thesis using reg tags by (auto simp: dd_run_tick_def poll_def NewIntMetricSupplierWrapper_def split: if_splits)
qed

theorem partition_gauge_reported_once_witness:
  "\<exists>r p1 e1 p2 e2. dd_NewMetricRegistry True [] 0 = Inr (r :: unit dd_registry)
     \<and> NewLookupPartitionWithMetricRegistry ''a'' (Fin (1 / 2)) 5 BackendRegistry = Some (p1, e1)
     \<and> NewLookupPartitionWithMetricRegistry ''b'' (Fin (1 / 2)) 5 BackendRegistry = Some (p2, e2)
     \<and> dom (dd_registeredGauges (fold (dd_perform (NewIntMetricSupplierWrapper (\<lambda>env. part_Limit p2))) e2
          (fold (dd_perform (NewIntMetricSupplierWrapper (\<lambda>env. part_Limit p1))) e1 r))) = {MetricPartitionLimit}"
proof -
  obtain r where r: "dd_NewMetricRegistry True [] 0 = Inr (r :: unit dd_registry)"
    by (simp add: dd_NewMetricRegistry_def Let_def)
  obtain p1 e1 p2 e2 where p: "NewLookupPartitionWithMetricRegistry ''a'' (Fin (1 / 2)) 5 BackendRegistry = Some (p1, e1)"
    "NewLookupPartitionWithMetricRegistry ''b'' (Fin (1 / 2)) 5 BackendRegistry = Some (p2, e2)"
    by (simp add: NewLookupPartitionWithMetricRegistry_def Let_def case_prod_beta)
  from partition_gauge_reported_once [OF r p refl, THEN conjunct1] r p show ?thesis by blast
qed

end
